(* ===== verification/Aiopp_Prelude.thy ===== *)
theory Aiopp_Prelude
  imports Main "HOL-Library.Word"
begin

text \<open>
  Shared vocabulary of the development: how a failing C++ operation is represented, the fixed-width
  integers of the source, a generic notion of reachable state with its invariant principle (a
  locale that every concurrent component instantiates), and the arithmetic of linear probing.

  Assertions of the source are modelled as active checks: the build files never define
  \<^verbatim>\<open>NDEBUG\<close>, so a failing \<^verbatim>\<open>assert\<close> ends the program. Undefined behaviour of C++
  is an outcome of its own, so that a theorem can say that it does not happen.
\<close>

unbundle bit_operations_syntax

named_theorems outcome_simps \<open>rewriting of sequenced fallible operations\<close>
named_theorems step_simps \<open>unfolding of the atomic steps of the concurrent components\<close>

subsection \<open>Machine integers\<close>

type_synonym u8 = "8 word"
type_synonym u16 = "16 word"
type_synonym u32 = "32 word"
type_synonym u64 = "64 word"

text \<open>C++ division and remainder on signed integers truncate towards zero.\<close>

definition c_div :: "int \<Rightarrow> int \<Rightarrow> int" where
  "c_div a b = sgn a * sgn b * (\<bar>a\<bar> div \<bar>b\<bar>)"

definition c_mod :: "int \<Rightarrow> int \<Rightarrow> int" where
  "c_mod a b = a - b * c_div a b"

lemma c_div_nonneg: "0 \<le> a \<Longrightarrow> 0 < b \<Longrightarrow> c_div a b = a div b"
  by (cases "a = 0") (simp_all add: c_div_def)

lemma c_mod_nonneg: "0 \<le> a \<Longrightarrow> 0 < b \<Longrightarrow> c_mod a b = a mod b"
  by (simp add: c_mod_def c_div_nonneg minus_mult_div_eq_mod)

lemma unat_of_nat_u64: "n < 2 ^ 64 \<Longrightarrow> unat (of_nat n :: u64) = n"
  by (simp add: unat_of_nat)

subsection \<open>Outcomes of C++ operations\<close>

datatype cpp_error = AssertionFailed | Aborted | UndefinedBehaviour

type_synonym 'a outcome = "cpp_error + 'a"

definition bindE :: "'a outcome \<Rightarrow> ('a \<Rightarrow> 'b outcome) \<Rightarrow> 'b outcome" where
  "bindE m f = (case m of Inl e \<Rightarrow> Inl e | Inr x \<Rightarrow> f x)"

definition assertE :: "bool \<Rightarrow> 'a outcome \<Rightarrow> 'a outcome" where
  "assertE b m = (if b then m else Inl AssertionFailed)"

lemma bindE_simps [simp, outcome_simps]:
  "bindE (Inr x) f = f x"
  "bindE (Inl e) f = Inl e"
  by (simp_all add: bindE_def)

lemma bindE_eq_Inr [outcome_simps]:
  "bindE m f = Inr y \<longleftrightarrow> (\<exists>x. m = Inr x \<and> f x = Inr y)"
  by (cases m) auto

lemma bindE_eq_Inl [outcome_simps]:
  "bindE m f = Inl e \<longleftrightarrow> m = Inl e \<or> (\<exists>x. m = Inr x \<and> f x = Inl e)"
  by (cases m) auto

lemma assertE_simps [simp, outcome_simps]:
  "assertE True m = m"
  "assertE False m = Inl AssertionFailed"
  by (simp_all add: assertE_def)

lemma assertE_eq_Inr [outcome_simps]:
  "assertE b m = Inr y \<longleftrightarrow> b \<and> m = Inr y"
  by (simp add: assertE_def)

text \<open>A fallible operation applied to a list of arguments, stopping at the first failure.\<close>

fun foldE :: "('b \<Rightarrow> 'a \<Rightarrow> 'a outcome) \<Rightarrow> 'b list \<Rightarrow> 'a \<Rightarrow> 'a outcome" where
  "foldE f [] s = Inr s"
| "foldE f (x # xs) s = bindE (f x s) (foldE f xs)"

lemma foldE_append: "foldE f (xs @ ys) s = bindE (foldE f xs s) (foldE f ys)"
proof (induction xs arbitrary: s)
  case (Cons x xs)
  then show ?case by (cases "f x s") simp_all
qed simp

subsection \<open>Reachable states\<close>

inductive reach :: "('s \<Rightarrow> bool) \<Rightarrow> ('s \<Rightarrow> 's \<Rightarrow> bool) \<Rightarrow> 's \<Rightarrow> bool"
  for init :: "'s \<Rightarrow> bool" and step :: "'s \<Rightarrow> 's \<Rightarrow> bool" where
  reach_init: "init s \<Longrightarrow> reach init step s"
| reach_step: "reach init step s \<Longrightarrow> step s t \<Longrightarrow> reach init step t"

text \<open>
  The invariant principle: a predicate that holds initially and is kept by every step holds in
  every reachable state, and in every state a reachable state can step to.
\<close>

locale invariant_system =
  fixes init :: "'s \<Rightarrow> bool"
    and step :: "'s \<Rightarrow> 's \<Rightarrow> bool"
    and inv :: "'s \<Rightarrow> bool"
  assumes init_inv: "init s \<Longrightarrow> inv s"
    and step_inv: "inv s \<Longrightarrow> step s t \<Longrightarrow> inv t"
begin

lemma reach_inv: "reach init step s \<Longrightarrow> inv s"
  by (induction rule: reach.induct) (auto intro: init_inv step_inv)

lemma reach_step_inv: "reach init step s \<Longrightarrow> step s t \<Longrightarrow> inv t"
  by (rule reach_inv) (rule reach_step)

end

subsection \<open>Mutual exclusion\<close>

text \<open>
  A mutex with holder \<open>h\<close> protects the parties for which \<open>P\<close> holds: they are inside the critical
  section exactly when they hold it.
\<close>

definition mutex_ok :: "'p option \<Rightarrow> ('p \<Rightarrow> bool) \<Rightarrow> bool" where
  "mutex_ok h P \<longleftrightarrow> (\<forall>p. P p \<longleftrightarrow> h = Some p)"

lemma mutex_ok_free: "mutex_ok None P \<longleftrightarrow> (\<forall>p. \<not> P p)"
  by (simp add: mutex_ok_def)

lemma mutex_ok_keep: "mutex_ok h P \<Longrightarrow> (\<And>p. Q p \<longleftrightarrow> P p) \<Longrightarrow> mutex_ok h Q"
  by (simp add: mutex_ok_def)

lemma mutex_ok_acquire: "mutex_ok None P \<Longrightarrow> (\<And>p. Q p \<longleftrightarrow> p = x \<or> P p) \<Longrightarrow> mutex_ok (Some x) Q"
  by (auto simp: mutex_ok_def)

lemma mutex_ok_release: "mutex_ok h P \<Longrightarrow> P x \<Longrightarrow> (\<And>p. Q p \<longleftrightarrow> p \<noteq> x \<and> P p) \<Longrightarrow> mutex_ok None Q"
  by (auto simp: mutex_ok_def)

lemma mutex_ok_unique: "mutex_ok h P \<Longrightarrow> P x \<Longrightarrow> P y \<Longrightarrow> y = x"
  by (simp add: mutex_ok_def)

subsection \<open>Arithmetic of linear probing\<close>

text \<open>
  The library of prime numbers is not needed in full: the only facts used are that trial
  division recognises a prime and that a prime is coprime to every smaller positive number.
\<close>

definition is_prime :: "nat \<Rightarrow> bool" where
  "is_prime n \<longleftrightarrow> 1 < n \<and> (\<forall>d. d dvd n \<longrightarrow> d = 1 \<or> d = n)"

lemma is_prime_trial:
  assumes n: "1 < n" and m: "n < m * m" and trial: "\<forall>d\<in>{2..<m}. \<not> d dvd n"
  shows "is_prime n"
proof -
  have "d = 1 \<or> d = n" if d: "d dvd n" for d
  proof (rule ccontr)
    assume no: "\<not> (d = 1 \<or> d = n)"
    from d obtain e where e: "n = d * e" by blast
    from n e have pos: "0 < d" "0 < e" by (auto intro: Nat.gr0I)
    from no e pos have ne: "d \<noteq> 1" "e \<noteq> 1" by auto
    from d e have dv: "d dvd n" "e dvd n" by simp_all
    from trial dv pos ne have "m \<le> d" "m \<le> e"
      by (metis One_nat_def Suc_1 atLeastLessThan_iff less_2_cases_iff linorder_not_less not_gr0)+
    then have "m * m \<le> n" using e by (simp add: mult_le_mono)
    with m show False by simp
  qed
  with n show ?thesis by (simp add: is_prime_def)
qed

text \<open>Trial division of an odd number by the odd numbers from \<open>d\<close> up to its square root.\<close>

function odd_trial :: "nat \<Rightarrow> nat \<Rightarrow> bool" where
  "odd_trial n d = (if n < d * d then True else if d dvd n then False else odd_trial n (d + 2))"
  by pat_completeness auto
termination
proof (relation "measure (\<lambda>(n, d). Suc n - d)")
  fix n d :: nat
  assume "\<not> n < d * d"
  then have "d \<le> n" by (metis le_square le_trans not_less)
  then show "((n, d + 2), n, d) \<in> measure (\<lambda>(n, d). Suc n - d)" by simp
qed simp
declare odd_trial.simps [simp del]

lemma odd_trial_sound:
  "odd_trial n d \<Longrightarrow> odd d \<Longrightarrow> odd n \<Longrightarrow> \<exists>m. n < m * m \<and> (\<forall>e\<in>{d..<m}. \<not> e dvd n)"
proof (induction n d rule: odd_trial.induct)
  case (1 n d)
  show ?case
  proof (cases "n < d * d")
    case True
    then show ?thesis by (intro exI [of _ d]) simp
  next
    case False
    with "1.prems" have nd: "\<not> d dvd n" and "odd_trial n (d + 2)"
      by (auto simp: odd_trial.simps [of n d] split: if_splits)
    with "1.IH" "1.prems" False obtain m where m: "n < m * m" "\<forall>e\<in>{d + 2..<m}. \<not> e dvd n"
      by auto
    have "\<not> e dvd n" if "e \<in> {d..<m}" for e
    proof -
      consider "e = d" | "e = d + 1" | "e \<in> {d + 2..<m}" using \<open>e \<in> {d..<m}\<close> by force
      then show ?thesis
        using nd m(2) "1.prems"(2,3) by cases (auto intro: dvd_trans)
    qed
    with m show ?thesis by blast
  qed
qed

lemma is_prime_odd_trial:
  assumes "1 < n" "odd n" "odd_trial n 3"
  shows "is_prime n"
proof -
  from odd_trial_sound [OF assms(3)] assms(2) obtain m where
    m: "n < m * m" "\<forall>e\<in>{3..<m}. \<not> e dvd n" by auto
  have "\<not> d dvd n" if "d \<in> {2..<m}" for d
    using that m(2) assms(2) by (cases "d = 2") auto
  then have "\<forall>d\<in>{2..<m}. \<not> d dvd n" by blast
  with assms(1) m(1) show ?thesis by (rule is_prime_trial)
qed

lemma is_prime_coprime: "is_prime n \<Longrightarrow> 0 < h \<Longrightarrow> h < n \<Longrightarrow> coprime n h"
  by (metis coprime_iff_gcd_eq_1 gcd_dvd1 gcd_dvd2 is_prime_def nat_dvd_not_less)

lemma coprime_probe_inj:
  fixes n h k :: nat
  assumes cp: "coprime n h"
  shows "inj_on (\<lambda>i. (k + i * h) mod n) {..<n}"
proof (rule inj_onI)
  fix i j assume ij: "i \<in> {..<n}" "j \<in> {..<n}"
    and eq: "(k + i * h) mod n = (k + j * h) mod n"
  show "i = j"
  proof (rule ccontr)
    assume "i \<noteq> j"
    then consider "i < j" | "j < i" by linarith
    then show False
    proof cases
      case 1
      from eq have "n dvd (k + j * h) - (k + i * h)" by (metis mod_eq_dvd_iff_nat 1 add_le_cancel_left less_imp_le mult_le_mono1)
      then have "n dvd (j - i) * h" by (simp add: diff_mult_distrib)
      with cp have "n dvd j - i" by (simp add: coprime_dvd_mult_left_iff)
      with 1 ij show False by (auto dest: dvd_imp_le)
    next
      case 2
      from eq have "n dvd (k + i * h) - (k + j * h)" by (metis mod_eq_dvd_iff_nat 2 add_le_cancel_left less_imp_le mult_le_mono1)
      then have "n dvd (i - j) * h" by (simp add: diff_mult_distrib)
      with cp have "n dvd i - j" by (simp add: coprime_dvd_mult_left_iff)
      with 2 ij show False by (auto dest: dvd_imp_le)
    qed
  qed
qed

lemma coprime_probe_covers:
  fixes n h k :: nat
  assumes cp: "coprime n h" and j: "j < n"
  obtains i where "i < n" "(k + i * h) mod n = j"
proof -
  have "(\<lambda>i. (k + i * h) mod n) ` {..<n} \<subseteq> {..<n}" using j by auto
  then have "(\<lambda>i. (k + i * h) mod n) ` {..<n} = {..<n}"
    by (intro endo_inj_surj) (use coprime_probe_inj [OF cp] in auto)
  with j that show thesis by (metis (no_types, lifting) imageE lessThan_iff)
qed

subsection \<open>Lists updated in place\<close>

lemma length_filter_update:
  "i < length xs \<Longrightarrow>
     length (filter P (xs[i := x])) + (if P (xs ! i) then 1 else 0)
       = length (filter P xs) + (if P x then 1 else 0)"
proof (induction xs arbitrary: i)
  case (Cons a xs)
  then show ?case
    using Cons.IH [of "i - 1"] by (cases i) (auto split: if_splits)
qed simp

lemma length_filter_less_ex:
  "length (filter P xs) < length xs \<Longrightarrow> \<exists>i<length xs. \<not> P (xs ! i)"
  by (metis filter_True in_set_conv_nth less_irrefl)

lemma first_index:
  fixes n :: nat
  assumes "i < n" "P i"
  obtains i0 where "i0 < n" "P i0" "\<forall>i'<i0. \<not> P i'"
proof -
  from assms have "P (LEAST i. P i)" by (metis LeastI)
  moreover have "(LEAST i. P i) < n"
    using assms by (metis Least_le le_less_trans)
  ultimately show thesis using that not_less_Least by blast
qed

end
