(* ===== verification/VectorMap.thy ===== *)
theory VectorMap
  imports Aiopp_Prelude
begin

text \<open>
  The vector map (\<^verbatim>\<open>vectormap.hpp\<close>): a growable array of raw storage with a flag per element that
  says whether an object lives there. Storage is modelled element by element as raw memory or a
  constructed object; moving from or destroying raw memory is undefined behaviour. Sizes are natural
  numbers with the 64-bit wrap-around of \<^verbatim>\<open>size_t\<close> written out.
\<close>

subsection \<open>Data\<close>

datatype 'a slot = Raw | Obj 'a

record 'a vector_map =
  data_arr :: "'a slot list"
  arr_size :: nat
  num_occupied :: nat
  occupied_flags :: "bool list"

definition wrap64 :: "nat \<Rightarrow> nat" where
  "wrap64 n = n mod 2 ^ 64"

lemma wrap64_dec: "0 < n \<Longrightarrow> n < 2 ^ 64 \<Longrightarrow> wrap64 (n + 2 ^ 64 - 1) = n - 1"
  by (cases n) (simp_all add: wrap64_def)

subsection \<open>Operations\<close>

definition VectorMap_default :: "'a vector_map" where
  "VectorMap_default = \<lparr>data_arr = [], arr_size = 0, num_occupied = 0, occupied_flags = []\<rparr>"

text \<open>The sized constructor allocates storage and flags but leaves the size at its default, 0.\<close>

definition VectorMap_sized :: "nat \<Rightarrow> 'a vector_map" where
  "VectorMap_sized n =
     \<lparr>data_arr = replicate n Raw, arr_size = 0, num_occupied = 0,
      occupied_flags = replicate n False\<rparr>"

text \<open>
  The destructor frees the storage and runs no element destructor; the result is the list of
  objects that were still alive in it.
\<close>

definition vm_destroy :: "'a vector_map \<Rightarrow> 'a list" where
  "vm_destroy m = concat (map (\<lambda>s. case s of Raw \<Rightarrow> [] | Obj v \<Rightarrow> [v]) (data_arr m))"

definition vm_size :: "'a vector_map \<Rightarrow> nat" where
  "vm_size m = arr_size m"

definition vm_occupied :: "'a vector_map \<Rightarrow> nat" where
  "vm_occupied m = num_occupied m"

definition vm_contains :: "'a vector_map \<Rightarrow> nat \<Rightarrow> bool" where
  "vm_contains m index \<longleftrightarrow> index < length (occupied_flags m) \<and> occupied_flags m ! index"

text \<open>The loop of \<open>resize\<close>: move-construct into the new storage, destroy the old element.\<close>

fun move_loop :: "'a slot list \<Rightarrow> 'a slot list \<Rightarrow> nat list \<Rightarrow> 'a slot list outcome" where
  "move_loop old new [] = Inr new"
| "move_loop old new (i # is) =
     (if i < length old \<and> i < length new
      then (case old ! i of
              Raw \<Rightarrow> Inl UndefinedBehaviour
            | Obj v \<Rightarrow> move_loop (old[i := Raw]) (new[i := Obj v]) is)
      else Inl UndefinedBehaviour)"

definition vm_resize :: "'a vector_map \<Rightarrow> nat \<Rightarrow> 'a vector_map outcome" where
  "vm_resize m n =
     assertE (n > arr_size m)
       (bindE (move_loop (data_arr m) (replicate n Raw) [0..<arr_size m])
         (\<lambda>newData. Inr (m\<lparr>data_arr := newData, arr_size := n,
            occupied_flags := take n (occupied_flags m)
              @ replicate (n - length (occupied_flags m)) False\<rparr>)))"

definition vm_emplace :: "'a vector_map \<Rightarrow> nat \<Rightarrow> 'a \<Rightarrow> 'a vector_map outcome" where
  "vm_emplace m index v =
     assertE (\<not> vm_contains m index)
       (bindE (if index \<ge> arr_size m
               then vm_resize m (max (max (wrap64 (arr_size m * 2)) (wrap64 (index + 1))) 0)
               else Inr m)
         (\<lambda>m'. if index < length (data_arr m') \<and> index < length (occupied_flags m')
               then Inr (m'\<lparr>data_arr := (data_arr m')[index := Obj v],
                            occupied_flags := (occupied_flags m')[index := True],
                            num_occupied := wrap64 (num_occupied m' + 1)\<rparr>)
               else Inl UndefinedBehaviour))"

definition vm_insert :: "'a vector_map \<Rightarrow> nat \<Rightarrow> 'a \<Rightarrow> 'a vector_map outcome" where
  "vm_insert m index v = vm_emplace m index v"

definition vm_remove :: "'a vector_map \<Rightarrow> nat \<Rightarrow> 'a vector_map outcome" where
  "vm_remove m index =
     assertE (vm_contains m index)
       (if index < length (data_arr m) \<and> data_arr m ! index \<noteq> Raw
        then Inr (m\<lparr>data_arr := (data_arr m)[index := Raw],
                    occupied_flags := (occupied_flags m)[index := False],
                    num_occupied := wrap64 (num_occupied m + 2 ^ 64 - 1)\<rparr>)
        else Inl UndefinedBehaviour)"

definition vm_at :: "'a vector_map \<Rightarrow> nat \<Rightarrow> 'a outcome" where
  "vm_at m index =
     assertE (vm_contains m index)
       (if index < length (data_arr m)
        then (case data_arr m ! index of Raw \<Rightarrow> Inl UndefinedBehaviour | Obj v \<Rightarrow> Inr v)
        else Inl UndefinedBehaviour)"

subsection \<open>Represented map and invariant\<close>

definition vm_abs :: "'a vector_map \<Rightarrow> nat \<rightharpoonup> 'a" where
  "vm_abs m i =
     (if i < length (data_arr m) then (case data_arr m ! i of Raw \<Rightarrow> None | Obj v \<Rightarrow> Some v) else None)"

definition vm_inv :: "'a vector_map \<Rightarrow> bool" where
  "vm_inv m \<longleftrightarrow>
     arr_size m \<le> length (data_arr m) \<and>
     length (occupied_flags m) = length (data_arr m) \<and>
     (\<forall>i<length (data_arr m). occupied_flags m ! i \<longleftrightarrow> data_arr m ! i \<noteq> Raw) \<and>
     (\<forall>i<length (data_arr m). occupied_flags m ! i \<longrightarrow> i < arr_size m) \<and>
     num_occupied m = length (filter id (occupied_flags m))"

lemma vm_inv_default: "vm_inv VectorMap_default"
  by (simp add: vm_inv_def VectorMap_default_def)

lemma vm_inv_sized: "vm_inv (VectorMap_sized n)"
  by (simp add: vm_inv_def VectorMap_sized_def)

lemma vm_contains_abs: "vm_inv m \<Longrightarrow> vm_contains m i \<longleftrightarrow> vm_abs m i \<noteq> None"
  by (auto simp: vm_inv_def vm_contains_def vm_abs_def split: slot.splits)

lemma vm_contains_less: "vm_inv m \<Longrightarrow> vm_contains m i \<Longrightarrow> i < arr_size m"
  by (auto simp: vm_inv_def vm_contains_def)

lemma vm_num_occupied_le: "vm_inv m \<Longrightarrow> num_occupied m \<le> length (data_arr m)"
  by (simp add: vm_inv_def) (metis length_filter_le)

subsection \<open>Moving the elements\<close>

lemma move_loop_ok:
  assumes "distinct is" "\<forall>i\<in>set is. i < length old \<and> i < length new \<and> old ! i \<noteq> Raw"
  shows "\<exists>new'. move_loop old new is = Inr new' \<and> length new' = length new \<and>
    (\<forall>i<length new. new' ! i = (if i \<in> set is then old ! i else new ! i))"
  using assms
proof (induction "is" arbitrary: old new)
  case (Cons i "is")
  from Cons.prems obtain v where v: "old ! i = Obj v" by (cases "old ! i") auto
  let ?old = "old[i := Raw]" and ?new = "new[i := Obj v]"
  have "distinct is" "\<forall>j\<in>set is. j < length ?old \<and> j < length ?new \<and> ?old ! j \<noteq> Raw"
    using Cons.prems by (auto simp: nth_list_update)
  from Cons.IH [OF this] obtain new' where new': "move_loop ?old ?new is = Inr new'"
      "length new' = length new" "\<forall>j<length new. new' ! j = (if j \<in> set is then ?old ! j else ?new ! j)"
    by auto
  moreover have "new' ! j = (if j \<in> set (i # is) then old ! j else new ! j)" if "j < length new" for j
    using that new'(3) Cons.prems v by (auto simp: nth_list_update)
  ultimately show ?case using Cons.prems v by simp
qed simp

lemma move_loop_raw:
  assumes "distinct is" "\<exists>i\<in>set is. i < length old \<longrightarrow> old ! i = Raw"
  shows "move_loop old new is = Inl UndefinedBehaviour"
  using assms
proof (induction "is" arbitrary: old new)
  case (Cons i "is")
  show ?case
  proof (cases "i < length old \<longrightarrow> old ! i = Raw")
    case False
    then obtain v where v: "old ! i = Obj v" "i < length old" by (cases "old ! i") auto
    with Cons.prems False have "\<exists>j\<in>set is. j < length (old[i := Raw]) \<longrightarrow> (old[i := Raw]) ! j = Raw"
      by (auto simp: nth_list_update)
    with Cons.IH Cons.prems(1) v show ?thesis by simp
  qed auto
qed simp

subsection \<open>Resizing and emplacing\<close>

lemma filter_id_resize:
  assumes "\<forall>i<length bs. bs ! i \<longrightarrow> i < n"
  shows "filter id (take n bs @ replicate k False) = filter id bs"
proof -
  have "\<not> bs ! (n + i)" if "i < length bs - n" for i
    using assms that by (auto dest!: spec [of _ "n + i"])
  then have "filter id (drop n bs) = []"
    by (auto simp: filter_empty_conv in_set_conv_nth)
  then have "filter id bs = filter id (take n bs)"
    by (metis append_Nil2 append_take_drop_id filter_append)
  then show ?thesis by simp
qed

lemma vm_resize_ok:
  assumes inv: "vm_inv m" and gt: "arr_size m < n" and full: "\<forall>j<arr_size m. vm_contains m j"
  shows "\<exists>m'. vm_resize m n = Inr m' \<and> vm_inv m' \<and> vm_abs m' = vm_abs m \<and> arr_size m' = n
    \<and> length (data_arr m') = n \<and> num_occupied m' = num_occupied m"
proof -
  let ?old = "data_arr m"
  note iv = inv [unfolded vm_inv_def]
  have pre: "distinct [0..<arr_size m]"
    "\<forall>i\<in>set [0..<arr_size m]. i < length ?old \<and> i < length (replicate n Raw :: 'a slot list) \<and> ?old ! i \<noteq> Raw"
    using iv gt full by (auto simp: vm_contains_def)
  from move_loop_ok [OF this] obtain new where new:
      "move_loop ?old (replicate n Raw) [0..<arr_size m] = Inr new" "length new = n"
      "\<forall>i<n. new ! i = (if i < arr_size m then ?old ! i else Raw)"
    by auto
  define m' where "m' = m\<lparr>data_arr := new, arr_size := n,
    occupied_flags := take n (occupied_flags m) @ replicate (n - length (occupied_flags m)) False\<rparr>"
  have res: "vm_resize m n = Inr m'" using gt new(1) by (simp add: vm_resize_def m'_def)
  have flags: "occupied_flags m' ! i \<longleftrightarrow> i < arr_size m \<and> occupied_flags m ! i" if "i < n" for i
    using that iv by (auto simp: m'_def nth_append)
  have raw: "new ! i \<noteq> Raw \<longleftrightarrow> i < arr_size m" if "i < n" for i
    using that new(3) pre(2) by auto
  have "num_occupied m = length (filter id (occupied_flags m'))"
    using iv gt filter_id_resize [of "occupied_flags m" n] by (simp add: m'_def) (metis less_trans)
  then have "vm_inv m'"
    using new(2) flags raw full iv by (auto simp: vm_inv_def m'_def vm_contains_def)
  moreover have "vm_abs m' i = vm_abs m i" for i
    using new(2,3) iv gt by (auto simp: vm_abs_def m'_def split: slot.splits)
  ultimately show ?thesis using res new(2) by (intro exI [of _ m']) (auto simp: m'_def)
qed

lemma vm_resize_raw:
  assumes inv: "vm_inv m" and gt: "arr_size m < n" and hole: "j < arr_size m" "\<not> vm_contains m j"
  shows "vm_resize m n = Inl UndefinedBehaviour"
proof -
  have "move_loop (data_arr m) (replicate n Raw) [0..<arr_size m] = Inl UndefinedBehaviour"
    using inv hole by (intro move_loop_raw) (auto simp: vm_inv_def vm_contains_def)
  then show ?thesis using gt by (simp add: vm_resize_def)
qed

lemma vm_put:
  fixes v :: 'a
  assumes inv: "vm_inv m" and i: "i < arr_size m" "\<not> vm_contains m i"
    and small: "length (data_arr m) < 2 ^ 64"
  defines "m' \<equiv> m\<lparr>data_arr := (data_arr m)[i := Obj v], occupied_flags := (occupied_flags m)[i := True],
     num_occupied := wrap64 (num_occupied m + 1)\<rparr>"
  shows "vm_inv m' \<and> vm_abs m' = (vm_abs m)(i \<mapsto> v) \<and> num_occupied m' = num_occupied m + 1"
proof -
  note iv = inv [unfolded vm_inv_def]
  have cnt: "length (filter id ((occupied_flags m)[i := True])) = num_occupied m + 1"
    using length_filter_update [of i "occupied_flags m" id True] iv i by (simp add: vm_contains_def)
  then have "num_occupied m + 1 \<le> length (data_arr m)"
    using iv length_filter_le [of id "(occupied_flags m)[i := True]"] by simp
  with small have num: "wrap64 (num_occupied m + 1) = num_occupied m + 1" by (simp add: wrap64_def)
  have "vm_inv m'"
    using iv i cnt num by (auto simp: vm_inv_def m'_def nth_list_update)
  moreover have "vm_abs m' = (vm_abs m)(i \<mapsto> v)"
    using iv i by (auto simp: fun_eq_iff vm_abs_def m'_def nth_list_update)
  ultimately show ?thesis using num by (simp add: m'_def)
qed

lemma vm_emplace_ok:
  assumes inv: "vm_inv m" and free: "\<not> vm_contains m i"
    and full: "arr_size m \<le> i \<Longrightarrow> \<forall>j<arr_size m. vm_contains m j"
    and small: "arr_size m < 2 ^ 62" "i < 2 ^ 62" "length (data_arr m) < 2 ^ 64"
  shows "\<exists>m'. vm_emplace m i v = Inr m' \<and> vm_inv m' \<and> vm_abs m' = (vm_abs m)(i \<mapsto> v)
    \<and> num_occupied m' = num_occupied m + 1 \<and> length (data_arr m') < 2 ^ 64
    \<and> arr_size m' = (if i < arr_size m then arr_size m else max (2 * arr_size m) (Suc i))
    \<and> length (data_arr m') = (if i < arr_size m then length (data_arr m) else arr_size m')"
proof (cases "i < arr_size m")
  case True
  with inv have "i < length (data_arr m)" "length (occupied_flags m) = length (data_arr m)"
    by (simp_all add: vm_inv_def)
  with True free vm_put [OF inv True free small(3), of v] small(3) show ?thesis
    by (auto simp: vm_emplace_def)
next
  case False
  define n where "n = max (2 * arr_size m) (Suc i)"
  have w: "wrap64 (arr_size m * 2) = 2 * arr_size m" "wrap64 (i + 1) = Suc i"
    using small by (simp_all add: wrap64_def)
  from False have gt: "arr_size m < n" by (simp add: n_def)
  from vm_resize_ok [OF inv gt full] False obtain m1 where m1: "vm_resize m n = Inr m1" "vm_inv m1"
      "vm_abs m1 = vm_abs m" "arr_size m1 = n" "length (data_arr m1) = n"
      "num_occupied m1 = num_occupied m"
    by auto
  have i: "i < arr_size m1" "\<not> vm_contains m1 i" and lt: "length (data_arr m1) < 2 ^ 64"
    using small m1 free inv by (auto simp: vm_contains_abs n_def)
  from m1(2) i(1) m1(4,5) have "i < length (data_arr m1)" "i < length (occupied_flags m1)"
    by (simp_all add: vm_inv_def)
  with False free m1 vm_put [OF m1(2) i lt, of v] lt show ?thesis
    unfolding vm_emplace_def w by (auto simp flip: n_def)
qed

lemma vm_emplace_raw:
  assumes inv: "vm_inv m" and free: "\<not> vm_contains m i" and ge: "arr_size m \<le> i"
    and hole: "j < arr_size m" "\<not> vm_contains m j" and small: "i < 2 ^ 62"
  shows "vm_emplace m i v = Inl UndefinedBehaviour"
proof -
  have "arr_size m < max (max (wrap64 (arr_size m * 2)) (wrap64 (i + 1))) 0"
    using ge small by (simp add: wrap64_def)
  from vm_resize_raw [OF inv this hole] free ge show ?thesis by (simp add: vm_emplace_def)
qed

lemma vm_remove_ok:
  assumes inv: "vm_inv m" and i: "vm_contains m i" and small: "length (data_arr m) < 2 ^ 64"
  shows "\<exists>m'. vm_remove m i = Inr m' \<and> vm_inv m' \<and> vm_abs m' = (vm_abs m)(i := None)
    \<and> num_occupied m = Suc (num_occupied m') \<and> arr_size m' = arr_size m
    \<and> length (data_arr m') = length (data_arr m)"
proof -
  note iv = inv [unfolded vm_inv_def]
  define w where "w = wrap64 (num_occupied m + 2 ^ 64 - 1)"
  define m' where "m' = m\<lparr>data_arr := (data_arr m)[i := Raw],
    occupied_flags := (occupied_flags m)[i := False], num_occupied := w\<rparr>"
  have res: "vm_remove m i = Inr m'"
    using iv i unfolding vm_remove_def w_def [symmetric] by (auto simp: m'_def vm_contains_def)
  have cnt: "num_occupied m = Suc (length (filter id ((occupied_flags m)[i := False])))"
    using length_filter_update [of i "occupied_flags m" id False] iv i
    by (auto simp: vm_contains_def split: if_splits)
  have "num_occupied m < 2 ^ 64" using vm_num_occupied_le [OF inv] small by simp
  moreover have pos: "0 < num_occupied m" by (simp only: cnt zero_less_Suc)
  ultimately have "w = num_occupied m - 1" unfolding w_def by (intro wrap64_dec)
  with pos have num: "num_occupied m = Suc (num_occupied m')" by (simp add: m'_def)
  have "vm_inv m'"
    using iv i cnt num by (auto simp: vm_inv_def m'_def nth_list_update vm_contains_def)
  moreover have "vm_abs m' = (vm_abs m)(i := None)"
    using iv i by (auto simp: fun_eq_iff vm_abs_def m'_def nth_list_update vm_contains_def)
  ultimately show ?thesis using res num by (intro exI [of _ m']) (auto simp: m'_def)
qed

lemma vm_at_result:
  "vm_inv m \<Longrightarrow> vm_at m i = (case vm_abs m i of None \<Rightarrow> Inl AssertionFailed | Some v \<Rightarrow> Inr v)"
  by (auto simp: vm_at_def vm_abs_def vm_inv_def vm_contains_def split: slot.splits)

subsection \<open>Properties\<close>

text \<open>
  Emplacing beyond the current size is undefined behaviour exactly when some element below that
  size is not occupied: growing the storage moves from every element, constructed or not. In all
  other cases emplacing at a free index returns normally and implements map update.
\<close>

theorem vm_emplace_undefined_iff:
  assumes "vm_inv m" and "\<not> vm_contains m i"
    and "arr_size m < 2 ^ 62" and "i < 2 ^ 62" and "length (data_arr m) < 2 ^ 64"
  shows "(vm_emplace m i v = Inl UndefinedBehaviour \<longleftrightarrow> arr_size m \<le> i \<and> (\<exists>j<arr_size m. \<not> vm_contains m j))
    \<and> (vm_emplace m i v \<noteq> Inl UndefinedBehaviour \<longrightarrow>
         (\<exists>m'. vm_emplace m i v = Inr m' \<and> vm_inv m' \<and> vm_abs m' = (vm_abs m)(i \<mapsto> v)))"
proof (cases "arr_size m \<le> i \<and> (\<exists>j<arr_size m. \<not> vm_contains m j)")
  case True
  then show ?thesis using vm_emplace_raw [OF assms(1,2) _ _ _ assms(4)] by auto
next
  case False
  then obtain m' where "vm_emplace m i v = Inr m'" "vm_inv m'" "vm_abs m' = (vm_abs m)(i \<mapsto> v)"
    using vm_emplace_ok [OF assms(1,2) _ assms(3,4,5), of v] by auto
  with False show ?thesis by auto
qed

theorem vm_emplace_undefined_iff_witness:
  "bindE (vm_emplace VectorMap_default 0 ''a'') (\<lambda>m. bindE (vm_remove m 0) (\<lambda>m. vm_emplace m 1 ''b''))
     = Inl UndefinedBehaviour"
proof -
  define m :: "string vector_map" where "m = \<lparr>data_arr = [Raw], arr_size = 1, num_occupied = 0, occupied_flags = [False]\<rparr>"
  have "bindE (vm_emplace VectorMap_default 0 ''a'') (\<lambda>m. vm_remove m 0) = Inr m"
    by (simp add: vm_emplace_def vm_remove_def vm_resize_def vm_contains_def VectorMap_default_def
        wrap64_def m_def)
  moreover have "vm_emplace m 1 ''b'' = Inl UndefinedBehaviour"
    using vm_emplace_undefined_iff [of m 1 "''b''"] by (simp add: m_def vm_inv_def vm_contains_def)
  ultimately show ?thesis by (auto simp: bindE_def split: sum.splits)
qed

text \<open>
  The storage requested from the sized constructor is not used: since the size stays 0, the first
  emplace at index \<open>i\<close> replaces the \<open>n\<close> allocated elements by \<open>i + 1\<close> elements, even when \<open>i < n\<close>.
\<close>

theorem vm_sized_storage_replaced:
  assumes "i < n" and "n < 2 ^ 62"
  shows "\<exists>m'. vm_emplace (VectorMap_sized n) i v = Inr m' \<and> length (data_arr m') = Suc i
    \<and> vm_abs m' = [i \<mapsto> v]"
proof -
  let ?m = "VectorMap_sized n :: 'a vector_map"
  have z: "arr_size ?m = 0" "length (data_arr ?m) = n" "vm_abs ?m = Map.empty"
    by (auto simp: VectorMap_sized_def vm_abs_def fun_eq_iff)
  have "vm_inv ?m" "\<not> vm_contains ?m i"
    by (rule vm_inv_sized) (simp add: vm_contains_def VectorMap_sized_def)
  from vm_emplace_ok [OF this, of v] assms z show ?thesis by auto
qed

theorem vm_sized_storage_replaced_witness:
  "\<exists>m'. vm_emplace (VectorMap_sized 1000) 0 (42::int) = Inr m' \<and> length (data_arr m') = Suc 0
    \<and> vm_abs m' = [0 \<mapsto> 42]"
  by (rule vm_sized_storage_replaced) simp_all

end
