(* ===== verification/Store_Spec.thy ===== *)
theory Store_Spec
  imports Aiopp_Prelude
begin

text \<open>
  The contract of a keyed store with removal, as the event loop relies on it: what a lookup returns
  after an insertion or a removal, that insertion succeeds while there is room, and that every
  operation keeps the provider's invariant. The client facts below are proved from the contract
  alone and reach the code through the interpretation in the theory of the completer map.
\<close>

locale keyed_store =
  fixes inv :: "'m \<Rightarrow> bool"
    and abs :: "'m \<Rightarrow> 'k \<rightharpoonup> 'v"
    and ins :: "'m \<Rightarrow> 'k \<Rightarrow> 'v \<Rightarrow> 'm outcome"
    and get :: "'m \<Rightarrow> 'k \<Rightarrow> 'v"
    and rem :: "'m \<Rightarrow> 'k \<Rightarrow> 'v \<times> 'm"
    and null :: 'v
    and admissible :: "'m \<Rightarrow> 'k \<Rightarrow> 'v \<Rightarrow> bool"
    and room :: "'m \<Rightarrow> nat"
  assumes ins_succeeds:
      "inv m \<Longrightarrow> admissible m k v \<Longrightarrow> 0 < room m \<Longrightarrow> \<exists>m'. ins m k v = Inr m'"
    and ins_inv:
      "inv m \<Longrightarrow> admissible m k v \<Longrightarrow> abs m k = None \<Longrightarrow> ins m k v = Inr m' \<Longrightarrow> inv m'"
    and ins_abs:
      "inv m \<Longrightarrow> admissible m k v \<Longrightarrow> abs m k = None \<Longrightarrow> ins m k v = Inr m' \<Longrightarrow>
         abs m' = (abs m)(k \<mapsto> v)"
    and ins_room:
      "inv m \<Longrightarrow> admissible m k v \<Longrightarrow> abs m k = None \<Longrightarrow> ins m k v = Inr m' \<Longrightarrow>
         Suc (room m') = room m"
    and ins_admissible: "ins m k v = Inr m' \<Longrightarrow> admissible m' k' v' = admissible m k' v'"
    and get_abs: "inv m \<Longrightarrow> get m k = (case abs m k of None \<Rightarrow> null | Some v \<Rightarrow> v)"
    and rem_result: "inv m \<Longrightarrow> fst (rem m k) = (case abs m k of None \<Rightarrow> null | Some v \<Rightarrow> v)"
    and rem_abs: "inv m \<Longrightarrow> abs (snd (rem m k)) = (abs m)(k := None)"
    and rem_inv: "inv m \<Longrightarrow> inv (snd (rem m k))"
    and rem_admissible: "admissible (snd (rem m k)) k' v' = admissible m k' v'"
begin

lemma insert_get:
  assumes "inv m" "admissible m k v" "abs m k = None" "ins m k v = Inr m'"
  shows "get m' k = v"
  using ins_inv [OF assms] ins_abs [OF assms] by (simp add: get_abs)

lemma insert_remove:
  assumes "inv m" "admissible m k v" "abs m k = None" "ins m k v = Inr m'"
  shows "fst (rem m' k) = v \<and> abs (snd (rem m' k)) = abs m"
proof -
  from ins_inv [OF assms] ins_abs [OF assms] assms(3) show ?thesis by (simp add: rem_result rem_abs fun_upd_idem_iff)
qed

lemma remove_twice:
  "inv m \<Longrightarrow> fst (rem (snd (rem m k)) k) = null"
  by (simp add: rem_result rem_abs rem_inv)

lemma remove_other:
  "inv m \<Longrightarrow> k' \<noteq> k \<Longrightarrow> get (snd (rem m k)) k' = get m k'"
  by (simp add: get_abs rem_abs rem_inv)

text \<open>A batch of insertions with fresh, distinct keys fits as long as there is room for all.\<close>

lemma insert_all_succeeds:
  assumes "inv m" "length kvs \<le> room m" "distinct (map fst kvs)"
    "\<forall>(k, v)\<in>set kvs. admissible m k v \<and> abs m k = None"
  shows "\<exists>m'. foldE (\<lambda>(k, v) m. ins m k v) kvs m = Inr m' \<and> inv m' \<and> abs m' = abs m ++ map_of kvs"
  using assms
proof (induction kvs arbitrary: m)
  case Nil
  then show ?case by simp
next
  case (Cons kv kvs)
  obtain k v where kv: "kv = (k, v)" by fastforce
  from Cons.prems kv have pre: "inv m" "admissible m k v" "abs m k = None" "0 < room m" by auto
  then obtain m1 where m1: "ins m k v = Inr m1" using ins_succeeds by blast
  note abs1 = ins_abs [OF pre(1-3) m1]
  from ins_room [OF pre(1-3) m1] Cons.prems(2) have "length kvs \<le> room m1" by simp
  moreover have "\<forall>(k', v')\<in>set kvs. admissible m1 k' v' \<and> abs m1 k' = None"
    using Cons.prems(3,4) kv ins_admissible [OF m1] abs1 by force
  ultimately obtain m' where m': "foldE (\<lambda>(k, v) m. ins m k v) kvs m1 = Inr m'" "inv m'"
      "abs m' = abs m1 ++ map_of kvs"
    using Cons.IH [of m1] ins_inv [OF pre(1-3) m1] Cons.prems(3) kv by auto
  have "map_of kvs k = None" using Cons.prems(3) kv by (simp add: map_of_eq_None_iff)
  then have "abs m' = abs m ++ map_of ((k, v) # kvs)"
    using abs1 m'(3) by (auto simp: map_add_def fun_eq_iff split: option.splits)
  with m'(1,2) m1 show ?case unfolding kv by (simp del: map_of.simps)
qed

end

text \<open>
  The contract of a store that chooses its own keys: insertion returns an index that was not in use,
  removal frees it, and an index stays valid until it is removed.
\<close>

locale slot_store =
  fixes inv :: "'m \<Rightarrow> bool"
    and abs :: "'m \<Rightarrow> nat \<rightharpoonup> 'v"
    and fits :: "'m \<Rightarrow> bool"
    and ins :: "'m \<Rightarrow> 'v \<Rightarrow> (nat \<times> 'm) outcome"
    and rem :: "'m \<Rightarrow> nat \<Rightarrow> 'm outcome"
    and at :: "'m \<Rightarrow> nat \<Rightarrow> 'v outcome"
  assumes ins_succeeds: "inv m \<Longrightarrow> fits m \<Longrightarrow> \<exists>i m'. ins m v = Inr (i, m')"
    and ins_law: "inv m \<Longrightarrow> fits m \<Longrightarrow> ins m v = Inr (i, m') \<Longrightarrow>
      inv m' \<and> abs m i = None \<and> abs m' = (abs m)(i \<mapsto> v)"
    and rem_law: "inv m \<Longrightarrow> abs m i \<noteq> None \<Longrightarrow>
      \<exists>m'. rem m i = Inr m' \<and> inv m' \<and> abs m' = (abs m)(i := None)"
    and at_law: "inv m \<Longrightarrow> at m i = (case abs m i of None \<Rightarrow> Inl AssertionFailed | Some v \<Rightarrow> Inr v)"
begin

lemma insert_at: "inv m \<Longrightarrow> fits m \<Longrightarrow> ins m v = Inr (i, m') \<Longrightarrow> at m' i = Inr v"
  using ins_law [of m v i m'] by (simp add: at_law)

lemma insert_keeps:
  "inv m \<Longrightarrow> fits m \<Longrightarrow> ins m v = Inr (i, m') \<Longrightarrow> at m j = Inr w \<Longrightarrow> i \<noteq> j \<and> at m' j = Inr w"
  using ins_law [of m v i m'] by (auto simp: at_law split: option.splits)

lemma insert_remove:
  assumes "inv m" "fits m" "ins m v = Inr (i, m')"
  shows "\<exists>m''. rem m' i = Inr m'' \<and> inv m'' \<and> abs m'' = abs m"
  using rem_law [of m' i] ins_law [OF assms] by (auto simp: fun_upd_idem)

end

end
