(* ===== verification/SlotMap.thy ===== *)
theory SlotMap
  imports VectorMap Store_Spec
begin

text \<open>
  The slot map (\<^verbatim>\<open>slotmap.hpp\<close>): a vector map that hands out its own indices, reusing freed ones in
  FIFO order. The point of the invariant is that through insert and remove alone the vector map only
  ever grows when all its elements are occupied, so the undefined behaviour of growing over a hole
  cannot happen; \<open>sm_resize\<close> breaks exactly that.
\<close>

record 'a slot_map =
  sm_data :: "'a vector_map"
  next_index :: nat
  free_list :: "nat list"

definition SlotMap_default :: "'a slot_map" where
  "SlotMap_default = \<lparr>sm_data = VectorMap_default, next_index = 0, free_list = []\<rparr>"

definition SlotMap_sized :: "nat \<Rightarrow> 'a slot_map" where
  "SlotMap_sized n = \<lparr>sm_data = VectorMap_sized n, next_index = 0, free_list = []\<rparr>"

definition sm_size :: "'a slot_map \<Rightarrow> nat" where
  "sm_size m = vm_occupied (sm_data m)"

definition sm_contains :: "'a slot_map \<Rightarrow> nat \<Rightarrow> bool" where
  "sm_contains m index = vm_contains (sm_data m) index"

definition sm_resize :: "'a slot_map \<Rightarrow> nat \<Rightarrow> 'a slot_map outcome" where
  "sm_resize m n =
     assertE (n > vm_size (sm_data m))
       (let m' = m\<lparr>next_index := vm_size (sm_data m)\<rparr>
        in bindE (vm_resize (sm_data m') n) (\<lambda>d. Inr (m'\<lparr>sm_data := d\<rparr>)))"

definition getNewIndex :: "'a slot_map \<Rightarrow> nat \<times> 'a slot_map" where
  "getNewIndex m =
     (case free_list m of
        idx # rest \<Rightarrow> (idx, m\<lparr>free_list := rest\<rparr>)
      | [] \<Rightarrow> (next_index m, m\<lparr>next_index := wrap64 (next_index m + 1)\<rparr>))"

definition sm_insert :: "'a slot_map \<Rightarrow> 'a \<Rightarrow> (nat \<times> 'a slot_map) outcome" where
  "sm_insert m v =
     (case getNewIndex m of (idx, m') \<Rightarrow>
        bindE (vm_insert (sm_data m') idx v) (\<lambda>d. Inr (idx, m'\<lparr>sm_data := d\<rparr>)))"

definition sm_emplace :: "'a slot_map \<Rightarrow> 'a \<Rightarrow> (nat \<times> 'a slot_map) outcome" where
  "sm_emplace m v =
     (case getNewIndex m of (idx, m') \<Rightarrow>
        bindE (vm_emplace (sm_data m') idx v) (\<lambda>d. Inr (idx, m'\<lparr>sm_data := d\<rparr>)))"

definition sm_remove :: "'a slot_map \<Rightarrow> nat \<Rightarrow> 'a slot_map outcome" where
  "sm_remove m index =
     assertE (vm_contains (sm_data m) index)
       (bindE (vm_remove (sm_data m) index)
         (\<lambda>d. Inr (m\<lparr>sm_data := d, free_list := free_list m @ [index]\<rparr>)))"

definition sm_at :: "'a slot_map \<Rightarrow> nat \<Rightarrow> 'a outcome" where
  "sm_at m index = assertE (vm_contains (sm_data m) index) (vm_at (sm_data m) index)"

subsection \<open>Invariant\<close>

abbreviation sm_abs :: "'a slot_map \<Rightarrow> nat \<rightharpoonup> 'a" where
  "sm_abs m \<equiv> vm_abs (sm_data m)"

definition sm_inv :: "'a slot_map \<Rightarrow> bool" where
  "sm_inv m \<longleftrightarrow>
     vm_inv (sm_data m) \<and> length (data_arr (sm_data m)) < 2 ^ 64 \<and>
     next_index m \<le> arr_size (sm_data m) \<and>
     distinct (free_list m) \<and>
     set (free_list m) = {i. i < next_index m \<and> \<not> vm_contains (sm_data m) i} \<and>
     (\<forall>i. vm_contains (sm_data m) i \<longrightarrow> i < next_index m)"

text \<open>Room for doubling the storage without wrap-around of \<^verbatim>\<open>size_t\<close>.\<close>

definition sm_fits :: "'a slot_map \<Rightarrow> bool" where
  "sm_fits m \<longleftrightarrow> arr_size (sm_data m) < 2 ^ 62 \<and> next_index m < 2 ^ 62"

lemma sm_inv_default: "sm_inv SlotMap_default"
  by (simp add: sm_inv_def SlotMap_default_def vm_inv_default)
    (simp add: VectorMap_default_def vm_contains_def)

lemma sm_inv_sized: "n < 2 ^ 64 \<Longrightarrow> sm_inv (SlotMap_sized n)"
  by (simp add: sm_inv_def SlotMap_sized_def vm_inv_sized)
    (simp add: VectorMap_sized_def vm_contains_def)

lemma sm_inv_vm: "sm_inv m \<Longrightarrow> vm_inv (sm_data m)"
  by (simp add: sm_inv_def)

lemma sm_contains_abs: "sm_inv m \<Longrightarrow> vm_contains (sm_data m) i \<longleftrightarrow> sm_abs m i \<noteq> None"
  by (simp add: sm_inv_vm vm_contains_abs)

subsection \<open>Insertion and removal\<close>

lemma getNewIndex_free:
  assumes inv: "sm_inv m" and fits: "sm_fits m" and new: "getNewIndex m = (idx, m')"
  shows "\<not> vm_contains (sm_data m) idx" "sm_data m' = sm_data m" "idx < 2 ^ 62"
    "arr_size (sm_data m) \<le> idx \<Longrightarrow> \<forall>j<arr_size (sm_data m). vm_contains (sm_data m) j"
proof -
  have data: "sm_data m' = sm_data m" using new by (auto simp: getNewIndex_def split: list.splits)
  consider "idx < next_index m" "\<not> vm_contains (sm_data m) idx" | "idx = next_index m" "free_list m = []"
  proof (cases "free_list m")
    case Nil
    then show ?thesis using that new by (simp add: getNewIndex_def)
  next
    case (Cons x rest)
    then have "idx \<in> set (free_list m)" using new by (simp add: getNewIndex_def)
    then show ?thesis using that inv unfolding sm_inv_def by blast
  qed
  then show "\<not> vm_contains (sm_data m) idx" "sm_data m' = sm_data m" "idx < 2 ^ 62"
    "arr_size (sm_data m) \<le> idx \<Longrightarrow> \<forall>j<arr_size (sm_data m). vm_contains (sm_data m) j"
    using inv fits data by (cases; auto simp: sm_inv_def sm_fits_def)+
qed

lemma sm_insert_shape:
  assumes inv: "sm_inv m" and fits: "sm_fits m" and new: "getNewIndex m = (idx, m')"
  obtains d where "sm_insert m v = Inr (idx, m'\<lparr>sm_data := d\<rparr>)" "vm_inv d"
    "vm_abs d = (sm_abs m)(idx \<mapsto> v)" "num_occupied d = num_occupied (sm_data m) + 1"
    "length (data_arr d) < 2 ^ 64"
    "arr_size d = (if idx < arr_size (sm_data m) then arr_size (sm_data m)
       else max (2 * arr_size (sm_data m)) (Suc idx))"
proof -
  note free = getNewIndex_free [OF inv fits new]
  have "arr_size (sm_data m) < 2 ^ 62" "length (data_arr (sm_data m)) < 2 ^ 64"
    using inv fits by (simp_all add: sm_inv_def sm_fits_def)
  from vm_emplace_ok [OF sm_inv_vm [OF inv] free(1,4) this(1) free(3) this(2), of v] that new free(2)
  show thesis by (fastforce simp: sm_insert_def vm_insert_def)
qed

lemma sm_insert_ok:
  assumes inv: "sm_inv m" and fits: "sm_fits m"
  shows "\<exists>i m'. sm_insert m v = Inr (i, m') \<and> sm_inv m' \<and> sm_abs m i = None
    \<and> sm_abs m' = (sm_abs m)(i \<mapsto> v) \<and> sm_size m' = Suc (sm_size m)
    \<and> i < next_index m' \<and> next_index m' \<le> Suc (next_index m)
    \<and> arr_size (sm_data m') \<le> max (arr_size (sm_data m)) (2 * next_index m')
    \<and> (free_list m = [] \<longrightarrow> i = next_index m) \<and> (free_list m \<noteq> [] \<longrightarrow> i = hd (free_list m))"
proof -
  obtain idx m1 where new: "getNewIndex m = (idx, m1)" by fastforce
  note free = getNewIndex_free [OF inv fits new]
  obtain d where d: "sm_insert m v = Inr (idx, m1\<lparr>sm_data := d\<rparr>)" "vm_inv d"
      "vm_abs d = (sm_abs m)(idx \<mapsto> v)" "num_occupied d = num_occupied (sm_data m) + 1"
      "length (data_arr d) < 2 ^ 64"
      "arr_size d = (if idx < arr_size (sm_data m) then arr_size (sm_data m)
         else max (2 * arr_size (sm_data m)) (Suc idx))"
    by (rule sm_insert_shape [OF inv fits new])
  have cont: "vm_contains d j \<longleftrightarrow> j = idx \<or> vm_contains (sm_data m) j" for j
    using d(2,3) inv by (auto simp: vm_contains_abs sm_contains_abs)
  note iv = inv [unfolded sm_inv_def]
  have "sm_inv (m1\<lparr>sm_data := d\<rparr>) \<and> idx < next_index m1 \<and> next_index m1 \<le> Suc (next_index m)
      \<and> arr_size d \<le> max (arr_size (sm_data m)) (2 * next_index m1)
      \<and> (free_list m = [] \<longrightarrow> idx = next_index m) \<and> (free_list m \<noteq> [] \<longrightarrow> idx = hd (free_list m))"
  proof (cases "free_list m")
    case Nil
    then have m1: "m1 = m\<lparr>next_index := Suc (next_index m)\<rparr>" "idx = next_index m"
      using new fits by (auto simp: getNewIndex_def wrap64_def sm_fits_def)
    with Nil iv d(2,5,6) cont show ?thesis by (auto simp: sm_inv_def less_Suc_eq)
  next
    case (Cons x rest)
    then have m1: "m1 = m\<lparr>free_list := rest\<rparr>" "idx = x"
      using new by (auto simp: getNewIndex_def)
    have x: "x < next_index m" "\<not> vm_contains (sm_data m) x" "x \<notin> set rest" "distinct rest"
      using iv Cons by auto
    have "set rest = {i. i < next_index m \<and> \<not> vm_contains d i}"
      using iv Cons cont m1 x by (auto simp: set_eq_iff)
    with m1 Cons iv d(2,5,6) cont x show ?thesis by (auto simp: sm_inv_def)
  qed
  then show ?thesis
    using d free(1) inv by (intro exI [of _ idx] exI [of _ "m1\<lparr>sm_data := d\<rparr>"])
      (auto simp: sm_contains_abs sm_size_def vm_occupied_def)
qed

lemma sm_remove_ok:
  assumes inv: "sm_inv m" and i: "sm_abs m i \<noteq> None"
  shows "\<exists>m'. sm_remove m i = Inr m' \<and> sm_inv m' \<and> sm_abs m' = (sm_abs m)(i := None)
    \<and> sm_size m = Suc (sm_size m') \<and> next_index m' = next_index m
    \<and> arr_size (sm_data m') = arr_size (sm_data m)"
proof -
  note iv = inv [unfolded sm_inv_def]
  have con: "vm_contains (sm_data m) i" using i by (simp add: sm_contains_abs [OF inv])
  from vm_remove_ok [OF sm_inv_vm [OF inv] con] iv obtain d where d: "vm_remove (sm_data m) i = Inr d"
      "vm_inv d" "vm_abs d = (sm_abs m)(i := None)" "num_occupied (sm_data m) = Suc (num_occupied d)"
      "arr_size d = arr_size (sm_data m)" "length (data_arr d) = length (data_arr (sm_data m))"
    by auto
  have cont: "vm_contains d j \<longleftrightarrow> j \<noteq> i \<and> vm_contains (sm_data m) j" for j
    using d(2,3) inv by (auto simp: vm_contains_abs sm_contains_abs)
  have "sm_inv (m\<lparr>sm_data := d, free_list := free_list m @ [i]\<rparr>)"
    using iv d con cont by (auto simp: sm_inv_def)
  then show ?thesis
    using con d by (intro exI [of _ "m\<lparr>sm_data := d, free_list := free_list m @ [i]\<rparr>"])
      (simp add: sm_remove_def sm_size_def vm_occupied_def)
qed

lemma sm_at_result:
  "sm_inv m \<Longrightarrow> sm_at m i = (case sm_abs m i of None \<Rightarrow> Inl AssertionFailed | Some v \<Rightarrow> Inr v)"
  by (simp add: sm_at_def sm_inv_vm vm_at_result vm_contains_abs split: option.splits)

interpretation smap: slot_store sm_inv sm_abs sm_fits sm_insert sm_remove sm_at
proof unfold_locales
  fix m :: "'a slot_map" and v i m'
  assume "sm_inv m" "sm_fits m"
  note ok = sm_insert_ok [OF this, of v]
  then show "\<exists>i m'. sm_insert m v = Inr (i, m')" by blast
  show "sm_inv m' \<and> sm_abs m i = None \<and> sm_abs m' = (sm_abs m)(i \<mapsto> v)"
    if "sm_insert m v = Inr (i, m')" using ok that by auto
next
  fix m :: "'a slot_map" and i
  assume "sm_inv m" "sm_abs m i \<noteq> None"
  from sm_remove_ok [OF this] show "\<exists>m'. sm_remove m i = Inr m' \<and> sm_inv m' \<and> sm_abs m' = (sm_abs m)(i := None)"
    by blast
qed (rule sm_at_result)

lemma sm_remove_missing:
  "sm_inv m \<Longrightarrow> sm_abs m i = None \<Longrightarrow> sm_remove m i = Inl AssertionFailed"
  by (simp add: sm_remove_def sm_contains_abs)

subsection \<open>Sequences of operations\<close>

datatype 'a sm_op = Insert 'a | Remove nat

fun sm_apply :: "'a sm_op \<Rightarrow> 'a slot_map \<Rightarrow> 'a slot_map outcome" where
  "sm_apply (Insert v) m = bindE (sm_insert m v) (\<lambda>(i, m'). Inr m')"
| "sm_apply (Remove i) m = sm_remove m i"

lemma sm_apply_cases:
  assumes inv: "sm_inv m" "arr_size (sm_data m) \<le> 2 * next_index m" "next_index m < 2 ^ 60"
  shows "(\<exists>m'. sm_apply oper m = Inr m' \<and> sm_inv m' \<and> arr_size (sm_data m') \<le> 2 * next_index m'
      \<and> next_index m' \<le> Suc (next_index m)) \<or> sm_apply oper m = Inl AssertionFailed"
proof (cases oper)
  case (Insert v)
  have "sm_fits m" using inv by (simp add: sm_fits_def)
  from sm_insert_ok [OF inv(1) this, of v] obtain i m' where r: "sm_insert m v = Inr (i, m')" "sm_inv m'"
      "next_index m' \<le> Suc (next_index m)" "i < next_index m'"
      "arr_size (sm_data m') \<le> max (arr_size (sm_data m)) (2 * next_index m')"
    by blast
  moreover have "next_index m \<le> next_index m'"
    using r(1) inv(3) by (auto simp: sm_insert_def getNewIndex_def wrap64_def bindE_eq_Inr split: list.splits)
  ultimately show ?thesis using Insert inv(2) by auto
next
  case (Remove i)
  then show ?thesis
    using sm_remove_ok [OF inv(1), of i] sm_remove_missing [OF inv(1), of i] inv(2)
    by (cases "sm_abs m i = None") auto
qed

lemma sm_run_safe:
  assumes "sm_inv m" "arr_size (sm_data m) \<le> 2 * next_index m" "next_index m + length ops < 2 ^ 60"
  shows "(\<exists>m'. foldE sm_apply ops m = Inr m' \<and> sm_inv m') \<or> foldE sm_apply ops m = Inl AssertionFailed"
  using assms
proof (induction ops arbitrary: m)
  case (Cons oper ops)
  from sm_apply_cases [OF Cons.prems(1,2)] Cons.prems(3)
  consider m' where "sm_apply oper m = Inr m'" "sm_inv m'" "arr_size (sm_data m') \<le> 2 * next_index m'"
      "next_index m' \<le> Suc (next_index m)" | "sm_apply oper m = Inl AssertionFailed"
    by auto
  then show ?case
  proof cases
    case 1
    with Cons.IH [of m'] Cons.prems(3) show ?thesis by simp
  qed simp
qed simp

lemma sm_resize_ok:
  assumes inv: "sm_inv m" and n: "arr_size (sm_data m) < n" "n < 2 ^ 64"
    and full: "\<forall>j<arr_size (sm_data m). vm_contains (sm_data m) j"
  shows "\<exists>m'. sm_resize m n = Inr m' \<and> sm_inv m' \<and> sm_abs m' = sm_abs m"
proof -
  note iv = inv [unfolded sm_inv_def]
  from vm_resize_ok [OF sm_inv_vm [OF inv] n(1) full] obtain d where d: "vm_resize (sm_data m) n = Inr d"
      "vm_inv d" "vm_abs d = sm_abs m" "arr_size d = n" "length (data_arr d) = n"
    by blast
  have eq: "next_index m = arr_size (sm_data m)" "free_list m = []"
  proof -
    show "next_index m = arr_size (sm_data m)"
      using iv full by (metis le_less less_irrefl)
    then have "set (free_list m) = {}" using iv full by auto
    then show "free_list m = []" by simp
  qed
  have "vm_contains d j \<longleftrightarrow> vm_contains (sm_data m) j" for j
    using d(2,3) inv by (auto simp: vm_contains_abs sm_contains_abs)
  then have "sm_inv (m\<lparr>next_index := arr_size (sm_data m), sm_data := d\<rparr>)"
    using iv d n eq full by (auto simp: sm_inv_def)
  then show ?thesis using d n by (auto simp: sm_resize_def vm_size_def)
qed

subsection \<open>Properties\<close>

text \<open>
  C23: No sequence of insertions and removals on a slot map runs into undefined behaviour or aborts:
  the only way such a sequence can end early is the assertion against removing an index that is not
  in use, and every state it reaches is well-formed.
\<close>

theorem sm_operations_safe:
  assumes "length ops < 2 ^ 60"
  shows "foldE sm_apply ops SlotMap_default \<noteq> Inl UndefinedBehaviour
    \<and> foldE sm_apply ops SlotMap_default \<noteq> Inl Aborted
    \<and> (\<forall>m. foldE sm_apply ops SlotMap_default = Inr m \<longrightarrow> sm_inv m)"
  using sm_run_safe [OF sm_inv_default, of ops] assms
  by (auto simp: SlotMap_default_def VectorMap_default_def)

theorem sm_operations_safe_witness:
  "foldE sm_apply [Insert ''a'', Insert ''b'', Remove 0, Insert ''c'', Insert ''d''] SlotMap_default
     \<noteq> Inl UndefinedBehaviour"
  using sm_operations_safe [of "[Insert ''a'', Insert ''b'', Remove 0, Insert ''c'', Insert ''d'']"] by simp

text \<open>
  C24: Insertion returns an index that was not in use, binds the value there and nowhere else and
  increments the size; freed indices are reused oldest first, and a never used index is only taken
  when no freed one is left.
\<close>

theorem sm_insert_refines:
  assumes "sm_inv m" and "sm_fits m"
  shows "\<exists>i m'. sm_insert m v = Inr (i, m') \<and> sm_inv m' \<and> \<not> sm_contains m i
    \<and> sm_abs m' = (sm_abs m)(i \<mapsto> v) \<and> sm_at m' i = Inr v \<and> sm_size m' = Suc (sm_size m)
    \<and> i = (if free_list m = [] then next_index m else hd (free_list m))"
proof -
  from sm_insert_ok [OF assms, of v] obtain i m' where r: "sm_insert m v = Inr (i, m')" "sm_inv m'"
      "sm_abs m i = None" "sm_abs m' = (sm_abs m)(i \<mapsto> v)" "sm_size m' = Suc (sm_size m)"
      "i = (if free_list m = [] then next_index m else hd (free_list m))"
    by auto
  then show ?thesis
    using smap.insert_at [OF assms r(1)] sm_contains_abs [OF assms(1)] by (auto simp: sm_contains_def)
qed

theorem sm_insert_refines_witness:
  "\<exists>i m'. sm_insert (SlotMap_sized 8) ''x'' = Inr (i, m') \<and> sm_inv m'
    \<and> \<not> sm_contains (SlotMap_sized 8 :: string slot_map) i
    \<and> sm_at m' i = Inr ''x'' \<and> sm_size m' = 1 \<and> i = 0"
proof -
  have "sm_inv (SlotMap_sized 8 :: string slot_map)" by (rule sm_inv_sized) simp
  moreover have "sm_fits (SlotMap_sized 8 :: string slot_map)"
    by (simp add: sm_fits_def SlotMap_sized_def VectorMap_sized_def)
  moreover have "sm_size (SlotMap_sized 8 :: string slot_map) = 0"
      "free_list (SlotMap_sized 8 :: string slot_map) = []"
      "next_index (SlotMap_sized 8 :: string slot_map) = 0"
    by (simp_all add: sm_size_def vm_occupied_def SlotMap_sized_def VectorMap_sized_def)
  ultimately show ?thesis using sm_insert_refines [of "SlotMap_sized 8" "''x''"] by auto
qed

text \<open>
  Removing what was just inserted restores the contents, and every other index keeps its value
  throughout.
\<close>

theorem sm_insert_remove_roundtrip:
  assumes "sm_inv m" and "sm_fits m" and "sm_insert m v = Inr (i, m')"
  shows "(\<exists>m''. sm_remove m' i = Inr m'' \<and> sm_inv m'' \<and> sm_abs m'' = sm_abs m)
    \<and> (\<forall>j w. sm_at m j = Inr w \<longrightarrow> i \<noteq> j \<and> sm_at m' j = Inr w)"
  using smap.insert_remove [OF assms] smap.insert_keeps [OF assms] by blast

theorem sm_insert_remove_roundtrip_witness:
  "\<exists>i m'. sm_insert SlotMap_default (3::int) = Inr (i, m') \<and>
     (\<exists>m''. sm_remove m' i = Inr m'' \<and> sm_inv m'' \<and> sm_abs m'' = sm_abs (SlotMap_default :: int slot_map))"
proof -
  have fits: "sm_fits (SlotMap_default :: int slot_map)"
    by (simp add: sm_fits_def SlotMap_default_def VectorMap_default_def)
  from sm_insert_ok [OF sm_inv_default fits, of 3] obtain i m' where
    "sm_insert SlotMap_default (3::int) = Inr (i, m')" by blast
  with sm_insert_remove_roundtrip [OF sm_inv_default fits] show ?thesis by blast
qed

text \<open>
  \<open>resize\<close> of a slot map to a larger size is undefined behaviour exactly when some element of
  the current storage is free, as happens after any removal or after growth by doubling; with all
  elements in use it keeps contents and invariant.
\<close>

theorem sm_resize_undefined_iff:
  assumes "sm_inv m" and "vm_size (sm_data m) < n" and "n < 2 ^ 64"
  shows "(sm_resize m n = Inl UndefinedBehaviour \<longleftrightarrow> (\<exists>j<vm_size (sm_data m). \<not> sm_contains m j))
    \<and> (sm_resize m n \<noteq> Inl UndefinedBehaviour \<longrightarrow>
         (\<exists>m'. sm_resize m n = Inr m' \<and> sm_inv m' \<and> sm_abs m' = sm_abs m))"
proof (cases "\<exists>j<arr_size (sm_data m). \<not> vm_contains (sm_data m) j")
  case True
  then have "sm_resize m n = Inl UndefinedBehaviour"
    using vm_resize_raw [OF sm_inv_vm [OF assms(1)]] assms(2) by (auto simp: sm_resize_def vm_size_def)
  with True show ?thesis by (auto simp: vm_size_def sm_contains_def)
next
  case False
  with sm_resize_ok [OF assms(1)] assms(2,3) obtain m' where
    "sm_resize m n = Inr m'" "sm_inv m'" "sm_abs m' = sm_abs m" by (auto simp: vm_size_def)
  with False show ?thesis by (auto simp: vm_size_def sm_contains_def)
qed

theorem sm_resize_undefined_iff_witness:
  "\<exists>m. sm_resize (SlotMap_default :: int slot_map) 4 = Inr m \<and> sm_resize m 8 = Inl UndefinedBehaviour"
proof -
  define m :: "int slot_map" where "m = SlotMap_default\<lparr>sm_data := \<lparr>data_arr = replicate 4 Raw,
    arr_size = 4, num_occupied = 0, occupied_flags = replicate 4 False\<rparr>\<rparr>"
  have r: "sm_resize (SlotMap_default :: int slot_map) 4 = Inr m"
    by (simp add: sm_resize_def vm_resize_def vm_size_def SlotMap_default_def VectorMap_default_def m_def)
  have "vm_size (sm_data (SlotMap_default :: int slot_map)) = 0"
    by (simp add: vm_size_def SlotMap_default_def VectorMap_default_def)
  with sm_resize_undefined_iff [of "SlotMap_default :: int slot_map" 4] r sm_inv_default
  have "sm_inv m" by auto
  moreover have "vm_size (sm_data m) = 4" "\<not> sm_contains m 0"
    by (simp_all add: m_def vm_size_def sm_contains_def vm_contains_def)
  ultimately have "sm_resize m 8 = Inl UndefinedBehaviour"
    using sm_resize_undefined_iff [of m 8] by auto
  with r show ?thesis by blast
qed

end
