(* ===== verification/MpscQueue.thy ===== *)
theory MpscQueue
  imports Aiopp_Prelude
begin

text \<open>
  The multi-producer single-consumer queue (\<^verbatim>\<open>mpscqueue.hpp\<close>), an intrusive linked list with a stub
  node. Every access to a shared atomic is one step of a transition system, so all interleavings of
  any number of producer threads with the consumer are covered; the atomics of the source are
  sequentially consistent. Nodes are heap addresses that are allocated by \<open>produce\<close> and freed by
  \<open>consume\<close>. Two ghost lists record the values in the order of their \<open>exchange\<close> and in the order in
  which \<open>consume\<close> returned them.
\<close>

subsection \<open>State\<close>

datatype nref = Stub | Node nat

text \<open>
  A producer is between calls, owns a freshly constructed node, or has exchanged \<^verbatim>\<open>produceEnd_\<close> and
  has yet to store \<^verbatim>\<open>prev->next\<close>.
\<close>

datatype prod_pc = PIdle | PNew nat | PLink nref nref

text \<open>
  The positions of the consumer inside \<open>consume\<close>, named after the atomic access that comes next.
\<close>

datatype cons_pc =
    CIdle
  | CLoadNext nref
  | CSkipStub nref
  | CReloadNext nref
  | CTake nref nref
  | CFree nref
  | CCheckEnd nref
  | CResetStub nref
  | CPushExchange nref
  | CPushLink nref nref
  | CLastNext nref

record 'a mpsc =
  nexts :: "nref \<Rightarrow> nref option"
  vals :: "nat \<Rightarrow> 'a"
  allocated :: "nat set"
  consumeEnd :: nref
  produceEnd :: nref
  producers :: "nat \<Rightarrow> prod_pc"
  cpc :: cons_pc
  result :: "'a option"
  produced :: "'a list"
  consumed :: "'a list"

definition mpsc_init :: "'a mpsc \<Rightarrow> bool" where
  "mpsc_init s \<longleftrightarrow>
     nexts s = (\<lambda>_. None) \<and> allocated s = {} \<and> consumeEnd s = Stub \<and> produceEnd s = Stub \<and>
     producers s = (\<lambda>_. PIdle) \<and> cpc s = CIdle \<and> result s = None \<and>
     produced s = [] \<and> consumed s = []"

subsection \<open>Steps\<close>

definition produce_new :: "nat \<Rightarrow> nat \<Rightarrow> 'a \<Rightarrow> 'a mpsc \<Rightarrow> 'a mpsc" where
  "produce_new t n v s =
     s\<lparr>allocated := insert n (allocated s), vals := (vals s)(n := v),
       nexts := (nexts s)(Node n := None), producers := (producers s)(t := PNew n)\<rparr>"

definition produce_exchange :: "nat \<Rightarrow> nat \<Rightarrow> 'a mpsc \<Rightarrow> 'a mpsc" where
  "produce_exchange t n s =
     s\<lparr>produceEnd := Node n, producers := (producers s)(t := PLink (produceEnd s) (Node n)),
       produced := produced s @ [vals s n]\<rparr>"

definition produce_link :: "nat \<Rightarrow> nref \<Rightarrow> nref \<Rightarrow> 'a mpsc \<Rightarrow> 'a mpsc" where
  "produce_link t prev node s =
     s\<lparr>nexts := (nexts s)(prev := Some node), producers := (producers s)(t := PIdle)\<rparr>"

definition return_null :: "'a mpsc \<Rightarrow> 'a mpsc" where
  "return_null s = s\<lparr>cpc := CIdle, result := None\<rparr>"

text \<open>Move the value out of the node, delete the node, return the value.\<close>

definition unpackNode :: "nref \<Rightarrow> 'a mpsc \<Rightarrow> 'a mpsc" where
  "unpackNode node s =
     (case node of
        Node n \<Rightarrow> s\<lparr>cpc := CIdle, result := Some (vals s n), consumed := consumed s @ [vals s n],
                    allocated := allocated s - {n}\<rparr>
      | Stub \<Rightarrow> s)"

fun consume_step :: "'a mpsc \<Rightarrow> 'a mpsc" where
  "consume_step s =
     (case cpc s of
        CIdle \<Rightarrow> s\<lparr>cpc := CLoadNext (consumeEnd s)\<rparr>
      | CLoadNext node \<Rightarrow>
          (if node = Stub
           then (case nexts s node of
                   None \<Rightarrow> return_null s
                 | Some next \<Rightarrow> s\<lparr>cpc := CSkipStub next\<rparr>)
           else (case nexts s node of
                   Some next \<Rightarrow> s\<lparr>cpc := CTake node next\<rparr>
                 | None \<Rightarrow> s\<lparr>cpc := CCheckEnd node\<rparr>))
      | CSkipStub next \<Rightarrow> s\<lparr>consumeEnd := next, cpc := CReloadNext next\<rparr>
      | CReloadNext node \<Rightarrow>
          (case nexts s node of
             Some next \<Rightarrow> s\<lparr>cpc := CTake node next\<rparr>
           | None \<Rightarrow> s\<lparr>cpc := CCheckEnd node\<rparr>)
      | CTake node next \<Rightarrow> s\<lparr>consumeEnd := next, cpc := CFree node\<rparr>
      | CFree node \<Rightarrow> unpackNode node s
      | CCheckEnd node \<Rightarrow>
          (if node \<noteq> produceEnd s then return_null s else s\<lparr>cpc := CResetStub node\<rparr>)
      | CResetStub node \<Rightarrow> s\<lparr>nexts := (nexts s)(Stub := None), cpc := CPushExchange node\<rparr>
      | CPushExchange node \<Rightarrow> s\<lparr>produceEnd := Stub, cpc := CPushLink node (produceEnd s)\<rparr>
      | CPushLink node prev \<Rightarrow>
          s\<lparr>nexts := (nexts s)(prev := Some Stub), cpc := CLastNext node\<rparr>
      | CLastNext node \<Rightarrow>
          (case nexts s node of
             Some next \<Rightarrow> s\<lparr>cpc := CTake node next\<rparr>
           | None \<Rightarrow> return_null s))"

declare consume_step.simps [simp del]

inductive mpsc_step :: "'a mpsc \<Rightarrow> 'a mpsc \<Rightarrow> bool" where
  new: "producers s t = PIdle \<Longrightarrow> n \<notin> allocated s \<Longrightarrow> mpsc_step s (produce_new t n v s)"
| exchange: "producers s t = PNew n \<Longrightarrow> mpsc_step s (produce_exchange t n s)"
| link: "producers s t = PLink prev node \<Longrightarrow> mpsc_step s (produce_link t prev node s)"
| consume: "mpsc_step s (consume_step s)"

subsection \<open>Invariant\<close>

text \<open>
  The queue is a list of nodes from \<^verbatim>\<open>consumeEnd_\<close> to \<^verbatim>\<open>produceEnd_\<close> in the order of their exchange.
  Neighbours are linked, or the thread that exchanged the later one still has to link them.
\<close>

definition pending :: "'a mpsc \<Rightarrow> nref \<Rightarrow> nref \<Rightarrow> bool" where
  "pending s a b \<longleftrightarrow> (\<exists>t. producers s t = PLink a b) \<or> (\<exists>n. cpc s = CPushLink n a \<and> b = Stub)"

definition link_ok :: "'a mpsc \<Rightarrow> nref \<Rightarrow> nref \<Rightarrow> bool" where
  "link_ok s a b \<longleftrightarrow> nexts s a = Some b \<or> nexts s a = None \<and> pending s a b"

fun linked :: "'a mpsc \<Rightarrow> nref list \<Rightarrow> bool" where
  "linked s (a # b # xs) \<longleftrightarrow> link_ok s a b \<and> linked s (b # xs)"
| "linked s _ \<longleftrightarrow> True"

text \<open>Adjacent elements of a list.\<close>

fun adjacent :: "'b list \<Rightarrow> 'b \<Rightarrow> 'b \<Rightarrow> bool" where
  "adjacent (a # b # xs) x y \<longleftrightarrow> x = a \<and> y = b \<or> adjacent (b # xs) x y"
| "adjacent _ x y \<longleftrightarrow> False"

fun node_vals :: "(nat \<Rightarrow> 'a) \<Rightarrow> nref list \<Rightarrow> 'a list" where
  "node_vals f [] = []"
| "node_vals f (Stub # xs) = node_vals f xs"
| "node_vals f (Node n # xs) = f n # node_vals f xs"

definition list_inv :: "'a mpsc \<Rightarrow> nref list \<Rightarrow> bool" where
  "list_inv s L \<longleftrightarrow> L \<noteq> [] \<and> distinct L \<and> hd L = consumeEnd s \<and> last L = produceEnd s \<and>
     nexts s (last L) = None \<and> linked s L \<and> (\<forall>n. Node n \<in> set L \<longrightarrow> n \<in> allocated s)"

definition producers_inv :: "'a mpsc \<Rightarrow> nref list \<Rightarrow> bool" where
  "producers_inv s L \<longleftrightarrow>
     (\<forall>t a b. producers s t = PLink a b \<longrightarrow> adjacent L a b \<and> nexts s a = None) \<and>
     (\<forall>t t' a b b'. producers s t = PLink a b \<and> producers s t' = PLink a b' \<longrightarrow> t = t') \<and>
     (\<forall>t n. producers s t = PNew n \<longrightarrow> n \<in> allocated s \<and> Node n \<notin> set L \<and> nexts s (Node n) = None) \<and>
     (\<forall>t t' n. producers s t = PNew n \<and> producers s t' = PNew n \<longrightarrow> t = t')"

fun consumer_inv :: "'a mpsc \<Rightarrow> nref list \<Rightarrow> cons_pc \<Rightarrow> bool" where
  "consumer_inv s L CIdle \<longleftrightarrow> True"
| "consumer_inv s L (CLoadNext n) \<longleftrightarrow> n = hd L"
| "consumer_inv s L (CSkipStub nx) \<longleftrightarrow> hd L = Stub \<and> nexts s Stub = Some nx"
| "consumer_inv s L (CReloadNext n) \<longleftrightarrow> n = hd L \<and> n \<noteq> Stub"
| "consumer_inv s L (CTake n nx) \<longleftrightarrow> n = hd L \<and> n \<noteq> Stub \<and> nexts s n = Some nx"
| "consumer_inv s L (CFree n) \<longleftrightarrow>
     (\<exists>k. n = Node k \<and> k \<in> allocated s \<and> Node k \<notin> set L \<and> (\<forall>t. producers s t \<noteq> PNew k))"
| "consumer_inv s L (CCheckEnd n) \<longleftrightarrow> n = hd L \<and> n \<noteq> Stub"
| "consumer_inv s L (CResetStub n) \<longleftrightarrow> n = hd L \<and> Stub \<notin> set L"
| "consumer_inv s L (CPushExchange n) \<longleftrightarrow> n = hd L \<and> Stub \<notin> set L \<and> nexts s Stub = None"
| "consumer_inv s L (CPushLink n p) \<longleftrightarrow> n = hd L \<and> n \<noteq> Stub \<and> adjacent L p Stub \<and> nexts s p = None \<and>
     (\<forall>t b. producers s t \<noteq> PLink p b)"
| "consumer_inv s L (CLastNext n) \<longleftrightarrow> n = hd L \<and> n \<noteq> Stub"

fun in_hand :: "'a mpsc \<Rightarrow> cons_pc \<Rightarrow> 'a list" where
  "in_hand s (CFree (Node n)) = [vals s n]"
| "in_hand s _ = []"

fun freeing :: "cons_pc \<Rightarrow> nat set" where
  "freeing (CFree (Node n)) = {n}"
| "freeing _ = {}"

definition mpsc_inv_for :: "'a mpsc \<Rightarrow> nref list \<Rightarrow> bool" where
  "mpsc_inv_for s L \<longleftrightarrow> list_inv s L \<and> producers_inv s L \<and> consumer_inv s L (cpc s) \<and>
     produced s = consumed s @ in_hand s (cpc s) @ node_vals (vals s) L \<and>
     allocated s = {n. Node n \<in> set L} \<union> {n. \<exists>t. producers s t = PNew n} \<union> freeing (cpc s)"

definition mpsc_inv :: "'a mpsc \<Rightarrow> bool" where
  "mpsc_inv s \<longleftrightarrow> (\<exists>L. mpsc_inv_for s L)"

subsection \<open>Adjacent nodes\<close>

lemma adjacent_snoc: "L \<noteq> [] \<Longrightarrow> adjacent (L @ [x]) a b \<longleftrightarrow> adjacent L a b \<or> a = last L \<and> b = x"
  by (induction L rule: induct_list012) auto

lemma adjacent_set: "adjacent L a b \<Longrightarrow> a \<in> set L \<and> b \<in> set L"
  by (induction L rule: induct_list012) auto

lemma adjacent_fun: "distinct L \<Longrightarrow> adjacent L a b \<Longrightarrow> adjacent L a b' \<Longrightarrow> b' = b"
  by (induction L rule: induct_list012) (auto dest: adjacent_set)

lemma adjacent_not_last: "distinct L \<Longrightarrow> adjacent L a b \<Longrightarrow> a \<noteq> last L"
  by (induction L rule: induct_list012) (auto dest: adjacent_set)

lemma adjacent_not_hd: "distinct L \<Longrightarrow> adjacent L a b \<Longrightarrow> b \<noteq> hd L"
  by (induction L rule: induct_list012) (auto dest: adjacent_set)

lemma linked_iff: "linked s L \<longleftrightarrow> (\<forall>a b. adjacent L a b \<longrightarrow> link_ok s a b)"
  by (induction L rule: induct_list012) auto

lemma node_vals_append: "node_vals f (xs @ ys) = node_vals f xs @ node_vals f ys"
  by (induction f xs rule: node_vals.induct) auto

lemma node_vals_fresh: "Node n \<notin> set L \<Longrightarrow> node_vals (f(n := v)) L = node_vals f L"
  by (induction f L rule: node_vals.induct) auto

lemma node_vals_Nil: "node_vals f L = [] \<longleftrightarrow> (\<forall>n. Node n \<notin> set L)"
  by (induction f L rule: node_vals.induct) auto

lemma list_inv_next:
  assumes inv: "list_inv s L" and nx: "nexts s (hd L) = Some nx"
  obtains rest where "L = hd L # nx # rest"
proof -
  from inv nx have "L \<noteq> []" "last L \<noteq> hd L" by (auto simp: list_inv_def)
  then obtain a b rest where L: "L = a # b # rest" by (cases L rule: remdups_adj.cases) auto
  with inv nx have "b = nx" by (auto simp: list_inv_def link_ok_def)
  with L that show thesis by auto
qed

lemma pending_not_stub_tail:
  "distinct L \<Longrightarrow> L = h # nx # rest \<Longrightarrow> adjacent L a b \<Longrightarrow> a \<noteq> h \<Longrightarrow> adjacent (nx # rest) a b"
  by auto

lemma producers_invI:
  assumes "\<And>t a b. producers s t = PLink a b \<Longrightarrow> adjacent L a b \<and> nexts s a = None"
    and "\<And>t t' a b b'. producers s t = PLink a b \<Longrightarrow> producers s t' = PLink a b' \<Longrightarrow> t = t'"
    and "\<And>t n. producers s t = PNew n \<Longrightarrow> n \<in> allocated s \<and> Node n \<notin> set L \<and> nexts s (Node n) = None"
    and "\<And>t t' n. producers s t = PNew n \<Longrightarrow> producers s t' = PNew n \<Longrightarrow> t = t'"
  shows "producers_inv s L"
  unfolding producers_inv_def using assms by blast

lemma producers_invD:
  assumes "producers_inv s L"
  shows "producers s t = PLink a b \<Longrightarrow> adjacent L a b \<and> nexts s a = None"
    and "producers s t = PLink a b \<Longrightarrow> producers s t' = PLink a b' \<Longrightarrow> t = t'"
    and "producers s t = PNew n \<Longrightarrow> n \<in> allocated s \<and> Node n \<notin> set L \<and> nexts s (Node n) = None"
    and "producers s t = PNew n \<Longrightarrow> producers s t' = PNew n \<Longrightarrow> t = t'"
  using assms unfolding producers_inv_def by blast+

subsection \<open>Producer steps keep the invariant\<close>

lemma inv_produce_new:
  assumes inv: "mpsc_inv_for s L" and t: "producers s t = PIdle" and n: "n \<notin> allocated s"
  shows "mpsc_inv_for (produce_new t n v s) L"
proof -
  let ?s = "produce_new t n v s"
  note iv = inv [unfolded mpsc_inv_for_def]
  have fresh: "Node n \<notin> set L" using iv n by (auto simp: list_inv_def)
  have pl: "producers ?s u = PLink a b \<longleftrightarrow> producers s u = PLink a b" for u a b
    using t by (simp add: produce_new_def)
  have pend: "pending ?s a b \<longleftrightarrow> pending s a b" for a b
    unfolding pending_def pl by (simp add: produce_new_def)
  have nx: "nexts ?s r = nexts s r" if "r \<noteq> Node n" for r using that by (simp add: produce_new_def)
  have adj: "a \<noteq> Node n" if "adjacent L a b" for a b using adjacent_set [OF that] fresh by auto
  have hdn: "hd L \<noteq> Node n" using iv fresh by (metis hd_in_set list_inv_def)
  have "last L \<noteq> Node n" using iv fresh by (metis last_in_set list_inv_def)
  then have "list_inv ?s L"
    using iv pend nx adj
    by (auto simp: list_inv_def linked_iff link_ok_def) (simp_all add: produce_new_def)
  moreover have "producers_inv ?s L"
    using iv t n fresh adj unfolding producers_inv_def produce_new_def by (auto dest: adj)
  moreover have "consumer_inv ?s L (cpc ?s)"
    using iv n t hdn by (cases "cpc s") (auto simp: produce_new_def list_inv_def dest: adj)
  moreover have "produced ?s = consumed ?s @ in_hand ?s (cpc ?s) @ node_vals (vals ?s) L"
  proof -
    have "in_hand ?s (cpc ?s) = in_hand s (cpc s)"
      using iv n by (cases "cpc s" rule: freeing.cases) (auto simp: produce_new_def)
    then show ?thesis using iv fresh by (simp add: produce_new_def node_vals_fresh)
  qed
  moreover have "allocated ?s = {n. Node n \<in> set L} \<union> {n. \<exists>t. producers ?s t = PNew n} \<union> freeing (cpc ?s)"
  proof -
    have "(\<exists>u. producers ?s u = PNew k) \<longleftrightarrow> k = n \<or> (\<exists>u. producers s u = PNew k)" for k
      using t by (simp add: produce_new_def) (metis prod_pc.distinct(1) prod_pc.inject(1))
    then show ?thesis using iv by (auto simp: produce_new_def)
  qed
  ultimately show ?thesis by (simp add: mpsc_inv_for_def)
qed

lemma inv_produce_exchange:
  assumes inv: "mpsc_inv_for s L" and t: "producers s t = PNew n"
  shows "mpsc_inv_for (produce_exchange t n s) (L @ [Node n])"
proof -
  let ?s = "produce_exchange t n s" and ?L = "L @ [Node n]"
  note iv = inv [unfolded mpsc_inv_for_def]
  have L: "L \<noteq> []" "distinct L" "last L = produceEnd s" "nexts s (produceEnd s) = None"
    using iv by (auto simp: list_inv_def)
  have n: "n \<in> allocated s" "Node n \<notin> set L" "nexts s (Node n) = None"
    and only: "\<And>u. producers s u = PNew n \<Longrightarrow> u = t"
    using iv t by (auto simp: producers_inv_def)
  have pl: "producers ?s u = PLink a b \<longleftrightarrow>
      (if u = t then a = produceEnd s \<and> b = Node n else producers s u = PLink a b)" for u a b
    by (auto simp: produce_exchange_def)
  have keep: "producers ?s u = PLink a b" if "producers s u = PLink a b" for u a b
    using that t unfolding pl by auto
  have "producers ?s t = PLink (produceEnd s) (Node n)" "cpc ?s = cpc s"
    by (simp_all add: produce_exchange_def)
  with keep have pend: "pending ?s a b" if "pending s a b \<or> a = produceEnd s \<and> b = Node n" for a b
    using that unfolding pending_def by metis
  have adj: "adjacent ?L a b \<longleftrightarrow> adjacent L a b \<or> a = produceEnd s \<and> b = Node n" for a b
    using adjacent_snoc [OF L(1)] L(3) by simp
  have old: "a \<noteq> produceEnd s" if "adjacent L a b" for a b using adjacent_not_last [OF L(2) that] L(3) by simp
  have "list_inv ?s ?L"
    using iv n L pend
    by (auto simp: list_inv_def linked_iff link_ok_def adj) (auto simp: produce_exchange_def)
  moreover have "producers_inv ?s ?L"
  proof -
    have pi: "producers_inv s L" using iv by simp
    have pnew: "producers ?s u = PNew k \<longleftrightarrow> u \<noteq> t \<and> producers s u = PNew k" for u k
      by (auto simp: produce_exchange_def)
    have same: "nexts ?s = nexts s" "allocated ?s = allocated s" by (simp_all add: produce_exchange_def)
    have src: "a \<noteq> produceEnd s" if "producers s u = PLink a b" for u a b
      using producers_invD(1) [OF pi that] old by blast
    show ?thesis
    proof (rule producers_invI)
      fix u a b assume "producers ?s u = PLink a b"
      then show "adjacent ?L a b \<and> nexts ?s a = None"
        unfolding pl adj same using producers_invD(1) [OF pi, of u a b] L by (auto split: if_splits)
    next
      fix u u' a b b' assume "producers ?s u = PLink a b" "producers ?s u' = PLink a b'"
      then show "u = u'"
        unfolding pl using src producers_invD(2) [OF pi] by (metis (full_types))
    next
      fix u k assume "producers ?s u = PNew k"
      then show "k \<in> allocated ?s \<and> Node k \<notin> set ?L \<and> nexts ?s (Node k) = None"
        unfolding pnew same using producers_invD(3) [OF pi, of u k] only by auto
    next
      fix u u' k assume "producers ?s u = PNew k" "producers ?s u' = PNew k"
      then show "u = u'" unfolding pnew using producers_invD(4) [OF pi] by blast
    qed
  qed
  moreover have "consumer_inv ?s ?L (cpc ?s)"
  proof -
    have "consumer_inv s L (cpc s)" using iv by simp
    moreover have "\<forall>p. adjacent L p Stub \<longrightarrow> p \<noteq> produceEnd s" using old by blast
    ultimately show ?thesis
      using n(2) t L(1) unfolding produce_exchange_def by (cases "cpc s") (auto simp: adj)
  qed
  moreover have "produced ?s = consumed ?s @ in_hand ?s (cpc ?s) @ node_vals (vals ?s) ?L"
    using iv by (cases "cpc s" rule: freeing.cases) (auto simp: produce_exchange_def node_vals_append)
  moreover have "allocated ?s = {n. Node n \<in> set ?L} \<union> {n. \<exists>t. producers ?s t = PNew n} \<union> freeing (cpc ?s)"
  proof -
    have "(\<exists>u. producers ?s u = PNew k) \<longleftrightarrow> k \<noteq> n \<and> (\<exists>u. producers s u = PNew k)" for k
    proof -
      have "producers ?s u = PNew k \<longleftrightarrow> u \<noteq> t \<and> producers s u = PNew k" for u
        by (auto simp: produce_exchange_def)
      then show ?thesis using t only by (metis prod_pc.inject(1))
    qed
    then have "{k. \<exists>u. producers ?s u = PNew k} = {k. \<exists>u. producers s u = PNew k} - {n}" by auto
    moreover have "n \<in> {k. \<exists>u. producers s u = PNew k}" using t by blast
    moreover have "{k. Node k \<in> set ?L} = insert n {k. Node k \<in> set L}" by auto
    moreover have "allocated ?s = allocated s" "cpc ?s = cpc s" by (simp_all add: produce_exchange_def)
    ultimately show ?thesis using iv by (simp only:) auto
  qed
  ultimately show ?thesis by (simp add: mpsc_inv_for_def)
qed

lemma inv_produce_link:
  assumes inv: "mpsc_inv_for s L" and t: "producers s t = PLink prev node"
  shows "mpsc_inv_for (produce_link t prev node s) L"
proof -
  let ?s = "produce_link t prev node s"
  note iv = inv [unfolded mpsc_inv_for_def]
  have L: "L \<noteq> []" "distinct L" using iv by (auto simp: list_inv_def)
  have pn: "adjacent L prev node" "nexts s prev = None"
    and only: "\<And>u b. producers s u = PLink prev b \<Longrightarrow> u = t"
    using iv t unfolding producers_inv_def by blast+
  have pl: "producers ?s u = PLink a b \<longleftrightarrow> u \<noteq> t \<and> producers s u = PLink a b" for u a b
    by (auto simp: produce_link_def)
  have keep: "producers ?s u = PLink a b" if "producers s u = PLink a b" "a \<noteq> prev" for u a b
    using that t unfolding pl by auto
  have "cpc ?s = cpc s" by (simp add: produce_link_def)
  with keep have pend: "pending ?s a b" if "pending s a b" "a \<noteq> prev" for a b
    using that unfolding pending_def by metis
  have nx: "nexts ?s r = (if r = prev then Some node else nexts s r)" for r
    by (simp add: produce_link_def)
  have "link_ok ?s a b" if "adjacent L a b" for a b
  proof (cases "a = prev")
    case True
    with that adjacent_fun [OF L(2) pn(1)] have "b = node" by simp
    with True show ?thesis unfolding link_ok_def nx by simp
  next
    case False
    moreover have "link_ok s a b" using iv that by (simp add: list_inv_def linked_iff)
    ultimately show ?thesis unfolding link_ok_def nx using pend by auto
  qed
  moreover have "nexts ?s (last L) = None"
    using iv adjacent_not_last [OF L(2) pn(1)] by (auto simp: list_inv_def nx)
  ultimately have "list_inv ?s L"
    using iv by (simp add: list_inv_def linked_iff) (simp add: produce_link_def)
  moreover have "producers_inv ?s L"
  proof -
    have pi: "producers_inv s L" using iv by simp
    have new: "prev \<noteq> Node k" if "producers s u = PNew k" for u k
      using producers_invD(3) [OF pi that] adjacent_set [OF pn(1)] by auto
    have pnew: "producers ?s u = PNew k \<longleftrightarrow> u \<noteq> t \<and> producers s u = PNew k" for u k
      using t by (auto simp: produce_link_def)
    have same: "allocated ?s = allocated s" by (simp add: produce_link_def)
    show ?thesis
    proof (rule producers_invI)
      fix u a b assume "producers ?s u = PLink a b"
      then show "adjacent L a b \<and> nexts ?s a = None"
        unfolding pl nx using producers_invD(1) [OF pi, of u a b] only by auto
    next
      fix u u' a b b' assume "producers ?s u = PLink a b" "producers ?s u' = PLink a b'"
      then show "u = u'" unfolding pl using producers_invD(2) [OF pi] by blast
    next
      fix u k assume "producers ?s u = PNew k"
      then show "k \<in> allocated ?s \<and> Node k \<notin> set L \<and> nexts ?s (Node k) = None"
        unfolding pnew same nx using producers_invD(3) [OF pi, of u k] new by auto
    next
      fix u u' k assume "producers ?s u = PNew k" "producers ?s u' = PNew k"
      then show "u = u'" unfolding pnew using producers_invD(4) [OF pi] by blast
    qed
  qed
  moreover have "consumer_inv ?s L (cpc ?s)"
  proof -
    have "Stub \<notin> set L \<Longrightarrow> prev \<noteq> Stub" using adjacent_set [OF pn(1)] by auto
    then show ?thesis using iv pn t by (cases "cpc s") (auto simp: produce_link_def)
  qed
  moreover have "produced ?s = consumed ?s @ in_hand ?s (cpc ?s) @ node_vals (vals ?s) L"
    using iv by (cases "cpc s" rule: freeing.cases) (auto simp: produce_link_def)
  moreover have "allocated ?s = {n. Node n \<in> set L} \<union> {n. \<exists>t. producers ?s t = PNew n} \<union> freeing (cpc ?s)"
  proof -
    have "(\<exists>u. producers ?s u = PNew k) \<longleftrightarrow> (\<exists>u. producers s u = PNew k)" for k
      using t by (simp add: produce_link_def) (metis prod_pc.distinct(5))
    then show ?thesis using iv by (simp add: produce_link_def)
  qed
  ultimately show ?thesis by (simp add: mpsc_inv_for_def)
qed

subsection \<open>Consumer steps keep the invariant\<close>

text \<open>Steps that only move the program counter or set the result.\<close>

lemma inv_set_cpc:
  assumes inv: "mpsc_inv_for s L" and pc: "consumer_inv s L pc"
    and plain: "freeing (cpc s) = {}" "in_hand s (cpc s) = []" "\<forall>n a. cpc s \<noteq> CPushLink n a"
    and plain': "freeing pc = {}" "in_hand s pc = []"
  shows "mpsc_inv_for (s\<lparr>cpc := pc, result := r\<rparr>) L" "mpsc_inv_for (s\<lparr>cpc := pc\<rparr>) L"
proof -
  have "mpsc_inv_for s' L" if s': "s' = s\<lparr>cpc := pc, result := r\<rparr> \<or> s' = s\<lparr>cpc := pc\<rparr>" for s'
  proof -
    note iv = inv [unfolded mpsc_inv_for_def]
    have eq: "nexts s' = nexts s" "producers s' = producers s" "allocated s' = allocated s"
      "vals s' = vals s" "consumeEnd s' = consumeEnd s" "produceEnd s' = produceEnd s"
      "produced s' = produced s" "consumed s' = consumed s" "cpc s' = pc"
      using s' by auto
    have "pending s' a b" if "pending s a b" for a b
      using that plain(3) by (auto simp: pending_def eq)
    then have "list_inv s' L"
      using iv unfolding list_inv_def linked_iff link_ok_def eq by blast
    moreover have "consumer_inv s' L pc" using pc by (cases pc) (simp_all add: eq)
    moreover have "in_hand s' pc = []" using plain'(2) by (cases pc rule: freeing.cases) (simp_all add: eq)
    moreover from iv have "producers_inv s L" by blast
    then have "producers_inv s' L" unfolding producers_inv_def eq .
    ultimately show ?thesis
      using iv plain plain' unfolding mpsc_inv_for_def eq by simp
  qed
  then show "mpsc_inv_for (s\<lparr>cpc := pc, result := r\<rparr>) L" "mpsc_inv_for (s\<lparr>cpc := pc\<rparr>) L" by blast+
qed

text \<open>Moving \<^verbatim>\<open>consumeEnd_\<close> past a node whose successor is linked.\<close>

lemma advance_facts:
  fixes pc :: cons_pc
  assumes inv: "mpsc_inv_for s L" and nx: "nexts s (hd L) = Some nx"
    and plain: "\<forall>n a. cpc s \<noteq> CPushLink n a"
  defines "s' \<equiv> s\<lparr>consumeEnd := nx, cpc := pc\<rparr>"
  obtains rest where "L = hd L # nx # rest" "list_inv s' (nx # rest)" "producers_inv s' (nx # rest)"
proof -
  note iv = inv [unfolded mpsc_inv_for_def]
  from iv have li: "list_inv s L" and pi: "producers_inv s L" by auto
  from list_inv_next [OF li nx] obtain rest where L: "L = hd L # nx # rest" by blast
  let ?T = "nx # rest"
  have adj: "adjacent L a b \<longleftrightarrow> a = hd L \<and> b = nx \<or> adjacent ?T a b" for a b
    by (subst L) simp
  have pend: "pending s' a b" if "pending s a b" for a b
    using that plain by (auto simp: pending_def s'_def)
  have "link_ok s' a b" if "adjacent ?T a b" for a b
  proof -
    have "link_ok s a b" using li adj that unfolding list_inv_def linked_iff by blast
    then show ?thesis using pend [of a b] unfolding link_ok_def by (auto simp: s'_def)
  qed
  then have "\<forall>a b. adjacent ?T a b \<longrightarrow> link_ok s' a b" by blast
  moreover have d: "distinct ?T" "last ?T = last L" "set ?T \<subseteq> set L"
    using li L by (metis distinct.simps(2) list_inv_def last_ConsR list.discI set_subset_Cons)+
  ultimately have "list_inv s' ?T"
    using li unfolding list_inv_def linked_iff by (auto simp: s'_def)
  moreover have "producers_inv s' ?T"
  proof (rule producers_invI)
    fix t a b assume "producers s' t = PLink a b"
    then have ab: "adjacent L a b \<and> nexts s a = None" using producers_invD(1) [OF pi] by (simp add: s'_def)
    then have "a \<noteq> hd L" using nx by auto
    with ab show "adjacent ?T a b \<and> nexts s' a = None" unfolding adj by (simp add: s'_def)
  next
    fix t n assume "producers s' t = PNew n"
    then show "n \<in> allocated s' \<and> Node n \<notin> set ?T \<and> nexts s' (Node n) = None"
      using producers_invD(3) [OF pi, of t n] d(3) by (auto simp: s'_def)
  qed (use producers_invD(2,4) [OF pi] in \<open>simp_all add: s'_def\<close>)
  ultimately show thesis using that L by blast
qed

lemma inv_skip_stub:
  assumes inv: "mpsc_inv_for s L" and pc: "cpc s = CSkipStub nx"
  shows "\<exists>L'. mpsc_inv_for (s\<lparr>consumeEnd := nx, cpc := CReloadNext nx\<rparr>) L'"
proof -
  note iv = inv [unfolded mpsc_inv_for_def]
  from iv pc have stub: "hd L = Stub" "nexts s (hd L) = Some nx" by auto
  obtain rest where T: "L = hd L # nx # rest"
      "list_inv (s\<lparr>consumeEnd := nx, cpc := CReloadNext nx\<rparr>) (nx # rest)"
      "producers_inv (s\<lparr>consumeEnd := nx, cpc := CReloadNext nx\<rparr>) (nx # rest)"
    by (rule advance_facts [OF inv stub(2), of "CReloadNext nx"]) (use pc in auto)
  from T(1) stub(1) have L: "L = Stub # nx # rest" by simp
  have "nx \<noteq> Stub" using iv L by (auto simp: list_inv_def)
  with T(2,3) iv L pc have "mpsc_inv_for (s\<lparr>consumeEnd := nx, cpc := CReloadNext nx\<rparr>) (nx # rest)"
    by (auto simp: mpsc_inv_for_def)
  then show ?thesis by blast
qed

lemma inv_take:
  assumes inv: "mpsc_inv_for s L" and pc: "cpc s = CTake n nx"
  shows "\<exists>L'. mpsc_inv_for (s\<lparr>consumeEnd := nx, cpc := CFree n\<rparr>) L'"
proof -
  note iv = inv [unfolded mpsc_inv_for_def]
  from iv pc have n: "n = hd L" "n \<noteq> Stub" "nexts s (hd L) = Some nx" by auto
  from n(2) obtain k where k: "n = Node k" by (cases n) auto
  obtain rest where T: "L = hd L # nx # rest"
      "list_inv (s\<lparr>consumeEnd := nx, cpc := CFree n\<rparr>) (nx # rest)"
      "producers_inv (s\<lparr>consumeEnd := nx, cpc := CFree n\<rparr>) (nx # rest)"
    by (rule advance_facts [OF inv n(3), of "CFree n"]) (use pc in auto)
  from T(1) n(1) k have L: "L = Node k # nx # rest" by simp
  let ?s = "s\<lparr>consumeEnd := nx, cpc := CFree n\<rparr>"
  have "k \<in> allocated s" "Node k \<notin> set (nx # rest)" "\<forall>t. producers s t \<noteq> PNew k"
    using iv L by (auto simp: list_inv_def producers_inv_def)
  then have c: "consumer_inv ?s (nx # rest) (CFree n)" unfolding k by simp
  have v: "produced s = consumed s @ node_vals (vals s) L" using iv pc by simp
  have a: "allocated s = {m. Node m \<in> set L} \<union> {m. \<exists>t. producers s t = PNew m}" using iv pc by simp
  have "{m. Node m \<in> set L} = insert k {m. Node m \<in> set (nx # rest)}" unfolding L by auto
  with a have "allocated s = {m. Node m \<in> set (nx # rest)} \<union> {m. \<exists>t. producers s t = PNew m} \<union> freeing (CFree n)"
    unfolding k by (simp only: freeing.simps) blast
  moreover have "produced s = consumed s @ in_hand ?s (CFree n) @ node_vals (vals s) (nx # rest)"
    unfolding v k by (subst L) simp
  ultimately have "mpsc_inv_for ?s (nx # rest)"
    unfolding mpsc_inv_for_def using T(2,3) c by simp
  then show ?thesis by blast
qed

lemma inv_unpackNode:
  assumes inv: "mpsc_inv_for s L" and pc: "cpc s = CFree n"
  shows "mpsc_inv_for (unpackNode n s) L"
proof -
  note iv = inv [unfolded mpsc_inv_for_def]
  from iv pc obtain k where k: "n = Node k" "k \<in> allocated s" "Node k \<notin> set L"
    "\<forall>t. producers s t \<noteq> PNew k" by auto
  let ?s = "s\<lparr>cpc := CIdle, result := Some (vals s k), consumed := consumed s @ [vals s k],
              allocated := allocated s - {k}\<rparr>"
  have eq: "unpackNode n s = ?s" by (simp add: unpackNode_def k(1))
  have pend: "pending ?s a b \<longleftrightarrow> pending s a b" for a b using pc by (simp add: pending_def)
  have "list_inv s L" "producers_inv s L" using iv by blast+
  then have "list_inv ?s L" "producers_inv ?s L"
    using k(3,4) unfolding list_inv_def producers_inv_def linked_iff link_ok_def pend by auto
  moreover have "produced s = consumed s @ [vals s k] @ node_vals (vals s) L"
    using iv pc k(1) by simp
  moreover have "allocated s = {m. Node m \<in> set L} \<union> {m. \<exists>t. producers s t = PNew m} \<union> {k}"
    using iv pc k(1) by simp
  then have "allocated s - {k} = {m. Node m \<in> set L} \<union> {m. \<exists>t. producers s t = PNew m}"
    using k(3,4) by blast
  ultimately show ?thesis unfolding eq mpsc_inv_for_def by simp
qed

lemma inv_reset_stub:
  assumes inv: "mpsc_inv_for s L" and pc: "cpc s = CResetStub n"
  shows "mpsc_inv_for (s\<lparr>nexts := (nexts s)(Stub := None), cpc := CPushExchange n\<rparr>) L"
proof -
  note iv = inv [unfolded mpsc_inv_for_def]
  let ?s = "s\<lparr>nexts := (nexts s)(Stub := None), cpc := CPushExchange n\<rparr>"
  from iv pc have n: "n = hd L" "Stub \<notin> set L" by auto
  have pend: "pending ?s a b \<longleftrightarrow> pending s a b" for a b using pc by (simp add: pending_def)
  have li: "list_inv s L" and pi: "producers_inv s L" using iv by blast+
  have adj: "a \<noteq> Stub" if "adjacent L a b" for a b using adjacent_set [OF that] n(2) by auto
  have "last L \<noteq> Stub" using li n(2) by (metis last_in_set list_inv_def)
  then have "list_inv ?s L"
    using li adj unfolding list_inv_def linked_iff link_ok_def pend by auto
  moreover have "producers_inv ?s L"
    using pi adj unfolding producers_inv_def by auto
  ultimately show ?thesis using iv pc n unfolding mpsc_inv_for_def by simp
qed

lemma inv_push_exchange:
  assumes inv: "mpsc_inv_for s L" and pc: "cpc s = CPushExchange n"
  shows "mpsc_inv_for (s\<lparr>produceEnd := Stub, cpc := CPushLink n (produceEnd s)\<rparr>) (L @ [Stub])"
proof -
  note iv = inv [unfolded mpsc_inv_for_def]
  let ?s = "s\<lparr>produceEnd := Stub, cpc := CPushLink n (produceEnd s)\<rparr>"
  from iv pc have n: "n = hd L" "Stub \<notin> set L" "nexts s Stub = None" by auto
  have li: "list_inv s L" and pi: "producers_inv s L" using iv by blast+
  have L: "L \<noteq> []" "distinct L" "last L = produceEnd s" "nexts s (produceEnd s) = None"
    using li by (auto simp: list_inv_def)
  have pend: "pending ?s a b \<longleftrightarrow> pending s a b \<or> a = produceEnd s \<and> b = Stub" for a b
    using pc by (auto simp: pending_def)
  have adj: "adjacent (L @ [Stub]) a b \<longleftrightarrow> adjacent L a b \<or> a = produceEnd s \<and> b = Stub" for a b
    using adjacent_snoc [OF L(1)] L(3) by simp
  have old: "a \<noteq> produceEnd s" if "adjacent L a b" for a b using adjacent_not_last [OF L(2) that] L(3) by simp
  have "list_inv ?s (L @ [Stub])"
    using li L n unfolding list_inv_def linked_iff link_ok_def pend adj by auto
  moreover have "producers_inv ?s (L @ [Stub])"
    using pi unfolding producers_inv_def adj by simp
  moreover have "consumer_inv ?s (L @ [Stub]) (CPushLink n (produceEnd s))"
  proof -
    have "producers s t \<noteq> PLink (produceEnd s) b" for t b using producers_invD(1) [OF pi] old by blast
    moreover have "hd L \<noteq> Stub" using L(1) n(2) by (metis hd_in_set)
    ultimately show ?thesis using n(1) L by (simp add: adj)
  qed
  moreover have "produced s = consumed s @ node_vals (vals s) L"
    "allocated s = {n. Node n \<in> set L} \<union> {n. \<exists>t. producers s t = PNew n}"
    using iv pc by simp_all
  ultimately show ?thesis unfolding mpsc_inv_for_def by (auto simp: node_vals_append)
qed

lemma inv_push_link:
  assumes inv: "mpsc_inv_for s L" and pc: "cpc s = CPushLink n p"
  shows "mpsc_inv_for (s\<lparr>nexts := (nexts s)(p := Some Stub), cpc := CLastNext n\<rparr>) L"
proof -
  note iv = inv [unfolded mpsc_inv_for_def]
  let ?s = "s\<lparr>nexts := (nexts s)(p := Some Stub), cpc := CLastNext n\<rparr>"
  from iv pc have n: "n = hd L" "n \<noteq> Stub" "adjacent L p Stub" "nexts s p = None"
    and nop: "producers s t \<noteq> PLink p b" for t b by auto
  have li: "list_inv s L" and pi: "producers_inv s L" using iv by blast+
  then have L: "L \<noteq> []" "distinct L" by (auto simp: list_inv_def)
  have pend: "pending ?s a b" if "pending s a b" "a \<noteq> p" for a b
    using that pc by (simp add: pending_def)
  have "link_ok ?s a b" if ab: "adjacent L a b" for a b
  proof (cases "a = p")
    case True
    with adjacent_fun [OF L(2) n(3), of b] ab show ?thesis by (simp add: link_ok_def)
  next
    case False
    moreover have "link_ok s a b" using li ab by (simp add: list_inv_def linked_iff)
    ultimately show ?thesis unfolding link_ok_def using pend [of a b] by auto
  qed
  then have "list_inv ?s L"
    using li adjacent_not_last [OF L(2) n(3)] unfolding list_inv_def linked_iff by auto
  moreover have "producers_inv ?s L"
  proof (rule producers_invI)
    fix t a b assume "producers ?s t = PLink a b"
    then show "adjacent L a b \<and> nexts ?s a = None"
      using producers_invD(1) [OF pi, of t a b] nop [of t b] by auto
  next
    fix t k assume "producers ?s t = PNew k"
    then show "k \<in> allocated ?s \<and> Node k \<notin> set L \<and> nexts ?s (Node k) = None"
      using producers_invD(3) [OF pi, of t k] adjacent_set [OF n(3)] by auto
  qed (use producers_invD(2,4) [OF pi] in \<open>simp_all\<close>)
  ultimately show ?thesis using iv pc n(1,2) unfolding mpsc_inv_for_def by simp
qed

lemma inv_consume:
  assumes inv: "mpsc_inv_for s L"
  shows "\<exists>L'. mpsc_inv_for (consume_step s) L'"
proof -
  note iv = inv [unfolded mpsc_inv_for_def]
  have L: "L \<noteq> []" "hd L = consumeEnd s" "last L = produceEnd s" using iv by (auto simp: list_inv_def)
  note pcs = inv_set_cpc [OF inv]
  show ?thesis
  proof (cases "cpc s")
    case CIdle
    then show ?thesis using L by (auto simp: consume_step.simps intro!: exI [of _ L] pcs)
  next
    case (CLoadNext n)
    with iv have "n = hd L" by simp
    with CLoadNext show ?thesis
      by (auto simp: consume_step.simps return_null_def split: option.splits intro!: exI [of _ L] pcs)
  next
    case (CSkipStub nx)
    then show ?thesis using inv_skip_stub [OF inv] by (simp add: consume_step.simps)
  next
    case (CReloadNext n)
    with iv have "n = hd L" "hd L \<noteq> Stub" by auto
    with CReloadNext show ?thesis
      by (auto simp: consume_step.simps split: option.splits intro!: exI [of _ L] pcs)
  next
    case (CTake n nx)
    then show ?thesis using inv_take [OF inv] by (simp add: consume_step.simps)
  next
    case (CFree n)
    then show ?thesis using inv_unpackNode [OF inv] by (auto simp: consume_step.simps)
  next
    case (CCheckEnd n)
    with iv have n: "n = hd L" "n \<noteq> Stub" by auto
    have "Stub \<notin> set L" if "n = produceEnd s"
    proof -
      have "distinct L" "hd L = last L" using that n(1) L iv by (simp_all add: list_inv_def)
      then have "L = [n]" using L(1) n(1) by (cases L) (auto split: if_splits dest: last_in_set)
      then show ?thesis using n(2) by simp
    qed
    with CCheckEnd n show ?thesis
      by (auto simp: consume_step.simps return_null_def intro!: exI [of _ L] pcs)
  next
    case (CResetStub n)
    then show ?thesis using inv_reset_stub [OF inv] by (auto simp: consume_step.simps)
  next
    case (CPushExchange n)
    then show ?thesis using inv_push_exchange [OF inv] by (auto simp: consume_step.simps)
  next
    case (CPushLink n p)
    then show ?thesis using inv_push_link [OF inv] by (auto simp: consume_step.simps)
  next
    case (CLastNext n)
    with iv have "n = hd L" "hd L \<noteq> Stub" by auto
    with CLastNext show ?thesis
      by (auto simp: consume_step.simps return_null_def split: option.splits intro!: exI [of _ L] pcs)
  qed
qed

interpretation mpsc: invariant_system mpsc_init mpsc_step mpsc_inv
proof unfold_locales
  fix s :: "'a mpsc" assume "mpsc_init s"
  then have "mpsc_inv_for s [Stub]"
    by (simp add: mpsc_init_def mpsc_inv_for_def list_inv_def producers_inv_def)
  then show "mpsc_inv s" by (auto simp: mpsc_inv_def)
next
  fix s t :: "'a mpsc" assume "mpsc_inv s" "mpsc_step s t"
  from this(2,1) show "mpsc_inv t"
    by cases (auto simp: mpsc_inv_def intro: inv_produce_new inv_produce_exchange inv_produce_link inv_consume)
qed

lemmas mpsc_reach_inv = mpsc.reach_inv

subsection \<open>Order, memory safety, leaks\<close>

text \<open>A node may be accessed while it is allocated; the stub is a member of the queue.\<close>

fun live :: "'a mpsc \<Rightarrow> nref \<Rightarrow> bool" where
  "live s Stub \<longleftrightarrow> True"
| "live s (Node n) \<longleftrightarrow> n \<in> allocated s"

text \<open>The node the next consumer step dereferences.\<close>

fun consumer_access :: "cons_pc \<Rightarrow> nref option" where
  "consumer_access (CLoadNext n) = Some n"
| "consumer_access (CReloadNext n) = Some n"
| "consumer_access (CFree n) = Some n"
| "consumer_access (CPushLink n p) = Some p"
| "consumer_access (CLastNext n) = Some n"
| "consumer_access _ = None"

definition held_by_producer :: "'a mpsc \<Rightarrow> nref \<Rightarrow> bool" where
  "held_by_producer s r \<longleftrightarrow>
     (\<exists>t n. producers s t = PNew n \<and> r = Node n) \<or>
     (\<exists>t a b. producers s t = PLink a b \<and> (r = a \<or> r = b))"

lemma inv_live: "mpsc_inv_for s L \<Longrightarrow> r \<in> set L \<Longrightarrow> live s r"
  by (cases r) (auto simp: mpsc_inv_for_def list_inv_def)

lemma inv_ends:
  assumes "mpsc_inv_for s L"
  shows "hd L \<in> set L" "consumeEnd s \<in> set L" "produceEnd s \<in> set L"
proof -
  have "L \<noteq> []" "hd L = consumeEnd s" "last L = produceEnd s"
    using assms by (auto simp: mpsc_inv_for_def list_inv_def)
  then show "hd L \<in> set L" "consumeEnd s \<in> set L" "produceEnd s \<in> set L"
    by (metis hd_in_set, metis hd_in_set, metis last_in_set)
qed

lemma inv_consumer_live:
  assumes inv: "mpsc_inv_for s L" and acc: "consumer_access (cpc s) = Some r"
  shows "live s r"
proof -
  have "consumer_inv s L (cpc s)" using inv by (auto simp: mpsc_inv_for_def)
  then show ?thesis
    using acc inv_live [OF inv] inv_ends(1) [OF inv] by (cases "cpc s") (auto dest: adjacent_set)
qed

lemma inv_held_live:
  assumes inv: "mpsc_inv_for s L" and held: "held_by_producer s r"
  shows "live s r"
proof -
  have pi: "producers_inv s L" using inv by (simp add: mpsc_inv_for_def)
  from held consider (new) t n where "producers s t = PNew n" "r = Node n"
    | (link) t a b where "producers s t = PLink a b" "r = a \<or> r = b"
    unfolding held_by_producer_def by blast
  then show ?thesis
  proof cases
    case new
    then show ?thesis using producers_invD(3) [OF pi new(1)] by simp
  next
    case link
    then have "r \<in> set L" using producers_invD(1) [OF pi link(1)] by (auto dest: adjacent_set)
    then show ?thesis by (rule inv_live [OF inv])
  qed
qed

lemma inv_free_unshared:
  assumes inv: "mpsc_inv_for s L" and pc: "cpc s = CFree r"
  shows "r \<noteq> Stub \<and> r \<noteq> consumeEnd s \<and> r \<noteq> produceEnd s \<and> \<not> held_by_producer s r"
proof -
  from inv pc obtain k where k: "r = Node k" "Node k \<notin> set L" "\<forall>t. producers s t \<noteq> PNew k"
    by (auto simp: mpsc_inv_for_def)
  have pi: "producers_inv s L" using inv by (simp add: mpsc_inv_for_def)
  have "\<not> held_by_producer s r"
  proof
    assume "held_by_producer s r"
    then obtain t a b where "producers s t = PLink a b" "Node k = a \<or> Node k = b"
      using k unfolding held_by_producer_def by blast
    with producers_invD(1) [OF pi this(1)] k(2) show False by (auto dest: adjacent_set)
  qed
  with k inv_ends(2,3) [OF inv] show ?thesis by auto
qed

text \<open>
  C11: The queue is FIFO under every interleaving of any number of producers with the consumer: in
  every reachable state the values returned by \<^verbatim>\<open>consume\<close> are, in order, the values in the order of
  the producers' exchanges on \<^verbatim>\<open>produceEnd_\<close> up to some point. Nothing is lost, duplicated or reordered.
\<close>

theorem mpsc_fifo:
  assumes "reach mpsc_init mpsc_step s"
  shows "\<exists>waiting. produced s = consumed s @ waiting"
  using mpsc_reach_inv [OF assms] by (auto simp: mpsc_inv_def mpsc_inv_for_def)

text \<open>
  C12: No thread touches freed memory. In every reachable state both ends of the queue, every node a
  producer is about to store into and the node the consumer dereferences next are live, and when the
  consumer is about to delete a node, that node is not the stub and no other thread or end of the
  queue refers to it.
\<close>

theorem mpsc_memory_safe:
  assumes "reach mpsc_init mpsc_step s"
  shows "live s (consumeEnd s) \<and> live s (produceEnd s) \<and>
    (\<forall>r. held_by_producer s r \<longrightarrow> live s r) \<and>
    (\<forall>r. consumer_access (cpc s) = Some r \<longrightarrow> live s r) \<and>
    (\<forall>r. cpc s = CFree r \<longrightarrow>
       r \<noteq> Stub \<and> r \<noteq> consumeEnd s \<and> r \<noteq> produceEnd s \<and> \<not> held_by_producer s r)"
proof -
  from mpsc_reach_inv [OF assms] obtain L where inv: "mpsc_inv_for s L" by (auto simp: mpsc_inv_def)
  note iv = inv_ends(2,3) [OF inv] inv_live [OF inv] inv_held_live [OF inv]
    inv_consumer_live [OF inv] inv_free_unshared [OF inv]
  show ?thesis
    by (intro conjI allI impI; (elim iv(4) iv(5))?; use iv in blast)
qed

text \<open>
  No node is leaked: when no call is in progress and everything produced has been consumed, no
  node is allocated.
\<close>

theorem mpsc_no_leak:
  assumes r: "reach mpsc_init mpsc_step s"
    and idle: "\<forall>t. producers s t = PIdle" "cpc s = CIdle"
    and drained: "consumed s = produced s"
  shows "allocated s = {}"
proof -
  from mpsc_reach_inv [OF r] obtain L where inv: "mpsc_inv_for s L" by (auto simp: mpsc_inv_def)
  with idle drained have "node_vals (vals s) L = []" by (simp add: mpsc_inv_for_def)
  with inv idle show ?thesis by (simp add: mpsc_inv_for_def node_vals_Nil)
qed

subsection \<open>Consuming from a quiescent queue\<close>

text \<open>
  One call of \<open>consume\<close> without interference: the consumer's steps up to its return. The call has no
  loop, so eleven steps are always enough.
\<close>

fun consume :: "nat \<Rightarrow> 'a mpsc \<Rightarrow> 'a mpsc option" where
  "consume 0 s = None"
| "consume (Suc k) s =
     (let s' = consume_step s in if cpc s' = CIdle then Some s' else consume k s')"

lemma inv_quiet_next:
  assumes inv: "mpsc_inv_for s L" and quiet: "\<forall>t. producers s t = PIdle" "cpc s = CIdle"
  shows "L = a # b # rest \<Longrightarrow> nexts s a = Some b"
    and "L = a # b # c # rest \<Longrightarrow> nexts s b = Some c"
    and "L = [a] \<Longrightarrow> nexts s a = None"
    and "L = [a, b] \<Longrightarrow> nexts s b = None"
  using assms by (auto simp: mpsc_inv_for_def list_inv_def link_ok_def pending_def)

lemma consume_quiet:
  assumes inv: "mpsc_inv_for s L" and quiet: "\<forall>t. producers s t = PIdle" "cpc s = CIdle"
  shows "\<exists>s'. consume 11 s = Some s' \<and>
    (case node_vals (vals s) L of
       [] \<Rightarrow> result s' = None \<and> consumed s' = consumed s
     | v # _ \<Rightarrow> result s' = Some v \<and> consumed s' = consumed s @ [v])"
proof -
  note nx = inv_quiet_next [OF inv quiet]
  have ends: "consumeEnd s = hd L" "produceEnd s = last L" "L \<noteq> []" "distinct L"
    using inv by (auto simp: mpsc_inv_for_def list_inv_def)
  note ev = eval_nat_numeral consume_step.simps Let_def return_null_def unpackNode_def quiet ends(1,2)
  from ends(3) consider (empty) "L = [Stub]" | (one) k where "L = [Node k]"
    | (skip_one) k where "L = [Stub, Node k]" | (more) k m rest where "L = Node k # m # rest"
    | (skip_more) k m rest where "L = Stub # Node k # m # rest"
    using ends(4) by (cases L rule: remdups_adj.cases; metis distinct_length_2_or_more neq_Nil_conv nref.exhaust)
  then show ?thesis
  proof cases
    case empty
    with nx(3) [OF empty] show ?thesis by (simp add: ev)
  next
    case one
    with nx(3) [OF one] show ?thesis by (simp add: ev)
  next
    case skip_one
    with nx(1) [OF skip_one] nx(4) [OF skip_one] show ?thesis by (simp add: ev)
  next
    case more
    with nx(1) [OF more] show ?thesis by (simp add: ev)
  next
    case skip_more
    with nx(1,2) [OF skip_more] show ?thesis by (simp add: ev)
  qed
qed

text \<open>
  C22: Called while no producer is inside \<^verbatim>\<open>produce\<close>, \<^verbatim>\<open>consume\<close> returns within eleven steps; it returns
  the oldest value that was not consumed yet, and \<^verbatim>\<open>nullopt\<close> exactly when there is none.
\<close>

theorem mpsc_consume_returns:
  assumes r: "reach mpsc_init mpsc_step s"
    and quiet: "\<forall>t. producers s t = PIdle" "cpc s = CIdle"
  shows "\<exists>s'. consume 11 s = Some s' \<and>
    (if produced s = consumed s then result s' = None \<and> consumed s' = consumed s
     else result s' = Some (produced s ! length (consumed s)) \<and>
          consumed s' = take (Suc (length (consumed s))) (produced s))"
proof -
  from mpsc_reach_inv [OF r] obtain L where inv: "mpsc_inv_for s L" by (auto simp: mpsc_inv_def)
  with quiet have p: "produced s = consumed s @ node_vals (vals s) L" by (simp add: mpsc_inv_for_def)
  show ?thesis
    using consume_quiet [OF inv quiet] unfolding p by (cases "node_vals (vals s) L") auto
qed

subsection \<open>The check of the producer end\<close>

definition mpsc_start :: "nat mpsc" where
  "mpsc_start = \<lparr>nexts = (\<lambda>_. None), vals = (\<lambda>_. 0), allocated = {}, consumeEnd = Stub,
     produceEnd = Stub, producers = (\<lambda>_. PIdle), cpc = CIdle, result = None, produced = [], consumed = []\<rparr>"

lemma mpsc_start_reach: "reach mpsc_init mpsc_step mpsc_start"
  by (rule reach_init) (simp add: mpsc_init_def mpsc_start_def)

lemma reach_consume_pow:
  "reach mpsc_init mpsc_step s \<Longrightarrow> reach mpsc_init mpsc_step ((consume_step ^^ k) s)"
  by (induction k) (auto intro: reach_step consume)

lemma reach_produce_some:
  "reach mpsc_init mpsc_step s \<Longrightarrow> producers s t = PIdle \<Longrightarrow> n \<notin> allocated s \<Longrightarrow>
   reach mpsc_init mpsc_step (produce_exchange t n (produce_new t n v s))"
  by (rule reach_step, erule reach_step, erule (1) new, rule exchange) (simp add: produce_new_def)

text \<open>
  A producer that finished, a consumer interrupted after it reset the stub, and a second producer
  that exchanged but has not linked yet; then the consumer is at the check of a second call.
\<close>

definition one_produced :: "nat mpsc" where
  "one_produced = produce_link 0 Stub (Node 0) (produce_exchange 0 0 (produce_new 0 0 7 mpsc_start))"

definition interrupted :: "nat mpsc" where
  "interrupted = produce_exchange 1 1 (produce_new 1 1 8 ((consume_step ^^ 6) one_produced))"

definition at_check :: "nat mpsc" where
  "at_check = (consume_step ^^ 5) interrupted"

lemmas trace_simps = one_produced_def interrupted_def at_check_def mpsc_start_def produce_new_def
  produce_exchange_def produce_link_def consume_step.simps return_null_def eval_nat_numeral

lemma one_produced_reach: "reach mpsc_init mpsc_step one_produced"
proof -
  let ?s = "produce_exchange 0 0 (produce_new 0 0 7 mpsc_start)"
  have "reach mpsc_init mpsc_step ?s"
    by (rule reach_produce_some [OF mpsc_start_reach]) (simp_all add: mpsc_start_def)
  moreover have "producers ?s 0 = PLink Stub (Node 0)" by (simp add: trace_simps)
  then have "mpsc_step ?s one_produced" unfolding one_produced_def by (rule link)
  ultimately show ?thesis by (rule reach_step)
qed

lemma at_check_reach: "reach mpsc_init mpsc_step at_check"
  unfolding at_check_def interrupted_def
  by (intro reach_consume_pow reach_produce_some one_produced_reach) (simp_all add: trace_simps)

text \<open>
  The comparison with \<^verbatim>\<open>produceEnd_\<close> before the stub is pushed is needed, although the comment in
  \<^verbatim>\<open>consume\<close> considers it a mere optimisation. There is a reachable state in which the check is about
  to fail and in which going on without it links the stub to itself, so that the list is cut off
  from every value produced later.
\<close>

theorem mpsc_end_check_needed:
  "\<exists>(s :: nat mpsc) n. reach mpsc_init mpsc_step s \<and> cpc s = CCheckEnd n \<and> n \<noteq> produceEnd s \<and>
     cpc (consume_step s) = CIdle \<and>
     nexts ((consume_step ^^ 3) (s\<lparr>cpc := CResetStub n\<rparr>)) Stub = Some Stub"
  using at_check_reach
  by (intro exI [of _ at_check] exI [of _ "Node 0"]) (simp add: trace_simps)

subsection \<open>Concrete runs\<close>

text \<open>The same producer, and the consumer about to delete the node and after its return.\<close>

definition at_free :: "nat mpsc" where
  "at_free = (consume_step ^^ 10) one_produced"

definition drained_queue :: "nat mpsc" where
  "drained_queue = (consume_step ^^ 11) one_produced"

lemmas more_trace_simps = at_free_def drained_queue_def unpackNode_def trace_simps

lemma at_free_reach: "reach mpsc_init mpsc_step at_free"
  unfolding at_free_def by (intro reach_consume_pow one_produced_reach)

lemma drained_reach: "reach mpsc_init mpsc_step drained_queue"
  unfolding drained_queue_def by (intro reach_consume_pow one_produced_reach)

lemma at_free_pc: "cpc at_free = CFree (Node 0)"
  by (simp add: more_trace_simps)

lemma drained_state:
  "(\<forall>t. producers drained_queue t = PIdle)" "cpc drained_queue = CIdle"
  "consumed drained_queue = [7]" "produced drained_queue = [7]"
  by (simp_all add: more_trace_simps)

lemma one_produced_state:
  "(\<forall>t. producers one_produced t = PIdle)" "cpc one_produced = CIdle"
  "consumed one_produced = []" "produced one_produced = [7]"
  by (simp_all add: trace_simps)

theorem mpsc_fifo_witness:
  "\<exists>waiting. produced drained_queue = consumed drained_queue @ waiting"
  by (rule mpsc_fifo [OF drained_reach])

theorem mpsc_memory_safe_witness:
  "live at_free (consumeEnd at_free) \<and> \<not> held_by_producer at_free (Node 0) \<and> Node 0 \<noteq> consumeEnd at_free"
  using mpsc_memory_safe [OF at_free_reach] at_free_pc by blast

theorem mpsc_no_leak_witness: "allocated drained_queue = {}"
  by (rule mpsc_no_leak [OF drained_reach]) (simp_all add: drained_state)

theorem mpsc_consume_returns_witness: "\<exists>s'. consume 11 one_produced = Some s' \<and> result s' = Some 7"
  using mpsc_consume_returns [OF one_produced_reach one_produced_state(1,2)]
  by (auto simp: one_produced_state)

end
