(* ===== verification/Ownership.thy ===== *)
theory Ownership
  imports Aiopp_Prelude "HOL-Library.Multiset"
begin

text \<open>
  What the move-only classes of the library have in common (\<^verbatim>\<open>Fd\<close>, \<^verbatim>\<open>Task\<close>, \<^verbatim>\<open>Function\<close>): objects that own at
  most one resource each, histories of operations on them, and the contract that every operation a client
  may use keeps the account of who owns what. The contract is a locale that each class instantiates; the
  statement about whole histories is proved once here.
\<close>

subsection \<open>Histories\<close>

text \<open>Every operation of a history is one the client may use in the state in which it is used.\<close>

fun admissible :: "('op \<Rightarrow> 's \<Rightarrow> 's outcome) \<Rightarrow> ('op \<Rightarrow> 's \<Rightarrow> bool) \<Rightarrow> 'op list \<Rightarrow> 's \<Rightarrow> bool" where
  "admissible f ok [] s \<longleftrightarrow> True"
| "admissible f ok (x # xs) s \<longleftrightarrow> ok x s \<and> (case f x s of Inl _ \<Rightarrow> True | Inr s' \<Rightarrow> admissible f ok xs s')"

locale owner =
  fixes apply_op :: "'op \<Rightarrow> 's \<Rightarrow> 's outcome"
    and ok :: "'op \<Rightarrow> 's \<Rightarrow> bool"
    and inv :: "'s \<Rightarrow> bool"
  assumes apply_keeps: "inv s \<Longrightarrow> ok x s \<Longrightarrow> apply_op x s = Inr s' \<Longrightarrow> inv s'"
begin

lemma history_keeps:
  "inv s \<Longrightarrow> admissible apply_op ok ops s \<Longrightarrow> foldE apply_op ops s = Inr s' \<Longrightarrow> inv s'"
proof (induction ops arbitrary: s)
  case (Cons x ops)
  then obtain s1 where s1: "apply_op x s = Inr s1" "foldE apply_op ops s1 = Inr s'" by (auto simp: bindE_eq_Inr)
  with Cons.prems have "inv s1" by (auto intro: apply_keeps)
  with Cons s1 show ?case by simp
qed simp

end

text \<open>Where the operations a client may use also never fail, no history does.\<close>

locale safe_owner = owner +
  assumes apply_defined: "inv s \<Longrightarrow> ok x s \<Longrightarrow> \<exists>s'. apply_op x s = Inr s'"
begin

lemma history_safe:
  "inv s \<Longrightarrow> admissible apply_op ok ops s \<Longrightarrow> \<exists>s'. foldE apply_op ops s = Inr s' \<and> inv s'"
proof (induction ops arbitrary: s)
  case (Cons x ops)
  then obtain s1 where s1: "apply_op x s = Inr s1" using apply_defined by fastforce
  with Cons.prems have "inv s1" by (auto intro: apply_keeps)
  with Cons s1 show ?case by simp
qed simp

end

subsection \<open>What a list of objects holds\<close>

definition held :: "('o \<Rightarrow> 'r multiset) \<Rightarrow> 'o list \<Rightarrow> 'r multiset" where
  "held f xs = sum_list (map f xs)"

lemma held_simps [simp]: "held f [] = {#}" "held f (xs @ ys) = held f xs + held f ys" "held f (x # xs) = f x + held f xs"
  by (simp_all add: held_def)

lemma held_update: "i < length xs \<Longrightarrow> held f (xs[i := x]) + f (xs ! i) = held f xs + f x"
  by (induction xs arbitrary: i) (auto simp: ac_simps split: nat.split)

lemma held_member: "i < length xs \<Longrightarrow> r \<in># f (xs ! i) \<Longrightarrow> r \<in># held f xs"
proof (induction xs arbitrary: i)
  case (Cons x xs)
  then show ?case by (cases i) auto
qed simp

lemma held_move:
  assumes "i < length xs" "j < length xs" "i \<noteq> j" "f (xs ! i) = {#}" "f e = {#}"
  shows "held f (xs[j := e, i := xs ! j]) = held f xs"
  using held_update [of i "xs[j := e]" f "xs ! j"] held_update [of j xs f e] assms by simp

subsection \<open>Unique handles\<close>

text \<open>
  Objects that hold a handle or none: \<open>None\<close> is an object that was destroyed, \<open>Some None\<close> an empty one. The
  resources that exist are exactly those some object holds, and no two objects hold the same.
\<close>

fun handle_of :: "nat option option \<Rightarrow> nat multiset" where
  "handle_of (Some (Some h)) = {#h#}"
| "handle_of _ = {#}"

definition handles_ok :: "nat option option list \<Rightarrow> nat set \<Rightarrow> nat \<Rightarrow> bool" where
  "handles_ok xs live_set n \<longleftrightarrow> held handle_of xs = mset_set live_set \<and> live_set \<subseteq> {..<n}"

lemma handles_finite: "handles_ok xs L n \<Longrightarrow> finite L"
  by (auto simp: handles_ok_def intro: finite_subset)

lemma mset_set_fresh: "handles_ok xs L n \<Longrightarrow> mset_set (insert n L) = add_mset n (mset_set L)"
  using handles_finite [of xs L n] by (subst mset_set.insert) (auto simp: handles_ok_def)

lemma handles_fresh: "handles_ok xs L n \<Longrightarrow> handles_ok (xs @ [Some (Some n)]) (insert n L) (Suc n)"
  using mset_set_fresh [of xs L n] by (auto simp: handles_ok_def)

lemma handles_empty: "handles_ok xs L n \<Longrightarrow> handle_of x = {#} \<Longrightarrow> handles_ok (xs @ [x]) L n"
  by (simp add: handles_ok_def)

lemma handles_live:
  assumes ok: "handles_ok xs L n" and i: "i < length xs" "xs ! i = Some (Some h)"
  shows "h \<in> L"
proof -
  have "h \<in># held handle_of xs" by (rule held_member [OF i(1)]) (simp add: i(2))
  with ok handles_finite [OF ok] show ?thesis by (simp add: handles_ok_def)
qed

lemma handles_drop:
  assumes ok: "handles_ok xs L n" and i: "i < length xs" "xs ! i = Some (Some h)" and x: "handle_of x = {#}"
  shows "handles_ok (xs[i := x]) (L - {h}) n"
proof -
  have "held handle_of (xs[i := x]) + {#h#} = mset_set L"
    using held_update [OF i(1), of handle_of x] i(2) x ok by (simp add: handles_ok_def)
  moreover have "mset_set L = mset_set (L - {h}) + {#h#}"
    using handles_live [OF ok i] handles_finite [OF ok] by (simp add: mset_set.remove)
  ultimately show ?thesis using ok by (auto simp: handles_ok_def)
qed

lemma handles_replace:
  assumes ok: "handles_ok xs L n" and i: "i < length xs" "handle_of (xs ! i) = {#}" and x: "handle_of x = {#}"
  shows "handles_ok (xs[i := x]) L n"
  using held_update [OF i(1), of handle_of x] i(2) x ok by (simp add: handles_ok_def)

lemma handles_fill:
  assumes ok: "handles_ok xs L n" and i: "i < length xs" "handle_of (xs ! i) = {#}"
  shows "handles_ok (xs[i := Some (Some n)]) (insert n L) (Suc n)"
  using held_update [OF i(1), of handle_of "Some (Some n)"] i(2) ok mset_set_fresh [OF ok]
  by (auto simp: handles_ok_def)

lemma handles_move:
  assumes "handles_ok xs L n" "i < length xs" "j < length xs" "i \<noteq> j" "handle_of (xs ! i) = {#}"
  shows "handles_ok (xs[j := Some None, i := xs ! j]) L n"
  using assms held_move [of i xs j handle_of "Some None"] by (simp add: handles_ok_def)

lemma handles_move_new:
  assumes "handles_ok xs L n" "j < length xs"
  shows "handles_ok (xs[j := Some None] @ [xs ! j]) L n"
  using assms held_update [of j xs handle_of "Some None"] by (simp add: handles_ok_def)

text \<open>Destroying what a handle refers to; a null handle refers to nothing, a second time is undefined.\<close>

definition drop_handle :: "nat option \<Rightarrow> nat set \<Rightarrow> nat set outcome" where
  "drop_handle h L =
     (case h of None \<Rightarrow> Inr L | Some r \<Rightarrow> if r \<in> L then Inr (L - {r}) else Inl UndefinedBehaviour)"

lemma drop_handle_ok:
  assumes ok: "handles_ok xs L n" and i: "i < length xs" "xs ! i = Some h" and x: "handle_of x = {#}"
  shows "\<exists>F. drop_handle h L = Inr F \<and> handles_ok (xs[i := x]) F n"
proof (cases h)
  case None
  with assms show ?thesis by (auto simp: drop_handle_def intro: handles_replace)
next
  case (Some r)
  with handles_live [OF ok i(1)] handles_drop [OF ok i(1) _ x] i(2) show ?thesis by (simp add: drop_handle_def)
qed

end
