(* ===== verification/Fd.thy ===== *)
theory Fd
  imports Ownership
begin

text \<open>
  Owning file descriptors (\<^verbatim>\<open>fd.hpp\<close>, \<^verbatim>\<open>fd.cpp\<close>). The objects of a program are a list, an object is named
  by its position and its value is \<open>None\<close> once it has been destroyed. The calls of \<^verbatim>\<open>::close\<close> are recorded
  in order; what the kernel does with them is not modelled. Ghost lists record the descriptors that
  objects took ownership of and the ones handed out by \<open>release\<close>.
\<close>

record fd_world =
  fds :: "int option list"
  closed :: "int list"
  acquired :: "int list"
  released :: "int list"

definition fd_world0 :: fd_world where
  "fd_world0 = \<lparr>fds = [], closed = [], acquired = [], released = []\<rparr>"

definition alive :: "fd_world \<Rightarrow> nat \<Rightarrow> bool" where
  "alive s i \<longleftrightarrow> i < length (fds s) \<and> fds s ! i \<noteq> None"

definition fd_value :: "fd_world \<Rightarrow> nat \<Rightarrow> int" where
  "fd_value s i = the (fds s ! i)"

text \<open>Access to a destroyed object is undefined behaviour.\<close>

definition with_fd :: "nat \<Rightarrow> fd_world \<Rightarrow> 'b outcome \<Rightarrow> 'b outcome" where
  "with_fd i s m = (if alive s i then m else Inl UndefinedBehaviour)"

subsection \<open>Operations\<close>

definition Fd_new :: "int \<Rightarrow> fd_world \<Rightarrow> fd_world" where
  "Fd_new fd s = s\<lparr>fds := fds s @ [Some fd], acquired := acquired s @ [fd]\<rparr>"

definition Fd_default :: "fd_world \<Rightarrow> fd_world" where
  "Fd_default s = s\<lparr>fds := fds s @ [Some (- 1)]\<rparr>"

definition fd_close :: "nat \<Rightarrow> fd_world \<Rightarrow> fd_world" where
  "fd_close i s =
     (if fd_value s i \<noteq> - 1 then s\<lparr>closed := closed s @ [fd_value s i]\<rparr> else s)
       \<lparr>fds := (fds s)[i := Some (- 1)]\<rparr>"

definition fd_reset :: "nat \<Rightarrow> int \<Rightarrow> fd_world \<Rightarrow> fd_world" where
  "fd_reset i fd s =
     (let s' = fd_close i s in s'\<lparr>fds := (fds s')[i := Some fd], acquired := acquired s' @ [fd]\<rparr>)"

text \<open>The result of \<open>release\<close> and the state with the object emptied.\<close>

definition fd_take :: "nat \<Rightarrow> fd_world \<Rightarrow> int \<times> fd_world" where
  "fd_take i s = (fd_value s i, s\<lparr>fds := (fds s)[i := Some (- 1)]\<rparr>)"

definition fd_release :: "nat \<Rightarrow> fd_world \<Rightarrow> fd_world" where
  "fd_release i s = (let (fd, s') = fd_take i s in s'\<lparr>released := released s' @ [fd]\<rparr>)"

definition Fd_move :: "nat \<Rightarrow> fd_world \<Rightarrow> fd_world" where
  "Fd_move j s = (let (fd, s') = fd_take j s in s'\<lparr>fds := fds s' @ [Some fd]\<rparr>)"

definition fd_assign :: "nat \<Rightarrow> nat \<Rightarrow> fd_world \<Rightarrow> fd_world" where
  "fd_assign i j s = (let (fd, s') = fd_take j s in s'\<lparr>fds := (fds s')[i := Some fd]\<rparr>)"

definition Fd_destroy :: "nat \<Rightarrow> fd_world \<Rightarrow> fd_world" where
  "Fd_destroy i s = (let s' = fd_close i s in s'\<lparr>fds := (fds s')[i := None]\<rparr>)"

lemmas fd_defs = Fd_new_def Fd_default_def fd_close_def fd_reset_def fd_take_def fd_release_def
  Fd_move_def fd_assign_def Fd_destroy_def Let_def

text \<open>
  \<^verbatim>\<open>Pipe\<close>: two default constructed descriptors that are reset to the ends of a new pipe; the call of
  \<^verbatim>\<open>pipe\<close> is inside the assertion.
\<close>

definition Pipe :: "(int \<times> int) option \<Rightarrow> fd_world \<Rightarrow> fd_world outcome" where
  "Pipe p s =
     (let i = length (fds s); s' = Fd_default (Fd_default s)
      in case p of
           None \<Rightarrow> Inl AssertionFailed
         | Some (r, w) \<Rightarrow> Inr (fd_reset (Suc i) w (fd_reset i r s')))"

definition pipe_close :: "nat \<Rightarrow> nat \<Rightarrow> fd_world \<Rightarrow> fd_world" where
  "pipe_close r w s = fd_close w (fd_close r s)"

datatype fd_op =
    New int
  | Default
  | MoveNew nat
  | Assign nat nat
  | CloseFd nat
  | Reset nat int
  | Release nat
  | Destruct nat

primrec fd_apply :: "fd_op \<Rightarrow> fd_world \<Rightarrow> fd_world outcome" where
  "fd_apply (New fd) s = Inr (Fd_new fd s)"
| "fd_apply Default s = Inr (Fd_default s)"
| "fd_apply (MoveNew j) s = with_fd j s (Inr (Fd_move j s))"
| "fd_apply (Assign i j) s = with_fd i s (with_fd j s (Inr (fd_assign i j s)))"
| "fd_apply (CloseFd i) s = with_fd i s (Inr (fd_close i s))"
| "fd_apply (Reset i fd) s = with_fd i s (Inr (fd_reset i fd s))"
| "fd_apply (Release i) s = with_fd i s (Inr (fd_release i s))"
| "fd_apply (Destruct i) s = with_fd i s (Inr (Fd_destroy i s))"

subsection \<open>Ownership\<close>

fun owns :: "int option \<Rightarrow> int multiset" where
  "owns None = {#}"
| "owns (Some fd) = (if fd = - 1 then {#} else {#fd#})"

abbreviation owned_list :: "int option list \<Rightarrow> int multiset" where
  "owned_list \<equiv> held owns"

text \<open>The descriptors in a list; \<open>-1\<close> is not one.\<close>

definition real_fds :: "int list \<Rightarrow> int multiset" where
  "real_fds xs = mset (filter (\<lambda>fd. fd \<noteq> - 1) xs)"

definition conserved :: "fd_world \<Rightarrow> bool" where
  "conserved s \<longleftrightarrow> real_fds (acquired s) = owned_list (fds s) + real_fds (closed s) + real_fds (released s)"

lemma real_fds_append: "real_fds (xs @ [fd]) = real_fds xs + owns (Some fd)"
  by (simp add: real_fds_def)

lemma alive_value: "alive s i \<Longrightarrow> fds s ! i = Some (fd_value s i) \<and> i < length (fds s)"
  by (auto simp: alive_def fd_value_def)

lemma take_owned:
  assumes "alive s i"
  shows "owned_list (fds (snd (fd_take i s))) + owns (Some (fd_value s i)) = owned_list (fds s)"
  using alive_value [OF assms] held_update [of i "fds s" owns "Some (- 1)"] by (simp add: fd_take_def)

lemma close_conserved:
  assumes c: "conserved s" and a: "alive s i"
  shows "conserved (fd_close i s)" and "alive (fd_close i s) i" and "fd_value (fd_close i s) i = - 1"
proof -
  have "owned_list ((fds s)[i := Some (- 1)]) + owns (Some (fd_value s i)) = owned_list (fds s)"
    using take_owned [OF a] by (simp add: fd_take_def)
  then show "conserved (fd_close i s)"
    using c by (auto simp: conserved_def fd_close_def real_fds_append ac_simps)
  show "alive (fd_close i s) i" "fd_value (fd_close i s) i = - 1"
    using alive_value [OF a] by (simp_all add: alive_def fd_value_def fd_close_def)
qed

text \<open>Overwriting an object that owns nothing.\<close>

lemma set_conserved:
  assumes c: "conserved s" and a: "alive s i" and e: "fd_value s i = - 1"
  shows "conserved (s\<lparr>fds := (fds s)[i := None]\<rparr>)"
    and "conserved (s\<lparr>fds := (fds s)[i := Some fd], acquired := acquired s @ [fd]\<rparr>)"
proof -
  note u = held_update [of i "fds s" owns]
  have "owned_list ((fds s)[i := x]) = owned_list (fds s) + owns x" for x
    using u [of x] alive_value [OF a] e by simp
  then show "conserved (s\<lparr>fds := (fds s)[i := None]\<rparr>)"
    "conserved (s\<lparr>fds := (fds s)[i := Some fd], acquired := acquired s @ [fd]\<rparr>)"
    using c by (simp_all add: conserved_def real_fds_append ac_simps del: owns.simps(2))
qed

lemma assign_conserved:
  assumes c: "conserved s" and a: "alive s i" "alive s j" and e: "i = j \<or> fd_value s i = - 1"
  shows "conserved (fd_assign i j s)"
proof -
  let ?s = "snd (fd_take j s)" and ?v = "fd_value s j"
  have empty: "fds ?s ! i = Some (- 1)" "i < length (fds ?s)"
    using e alive_value [OF a(1)] alive_value [OF a(2)] by (auto simp: fd_take_def nth_list_update)
  have "owned_list ((fds ?s)[i := Some ?v]) = owned_list (fds ?s) + owns (Some ?v)"
    using held_update [OF empty(2), of owns "Some ?v"] empty(1) by simp
  also have "\<dots> = owned_list (fds s)" by (rule take_owned [OF a(2)])
  finally show ?thesis using c by (simp add: conserved_def fd_assign_def fd_take_def)
qed

text \<open>The client does not move-assign to an object that still owns another descriptor.\<close>

definition fd_allowed :: "fd_op \<Rightarrow> fd_world \<Rightarrow> bool" where
  "fd_allowed oper s = (case oper of Assign i j \<Rightarrow> i = j \<or> fd_value s i = - 1 | _ \<Rightarrow> True)"

lemma apply_conserved:
  assumes c: "conserved s" and r: "fd_apply oper s = Inr s'"
    and ok: "fd_allowed oper s"
  shows "conserved s'"
proof (cases oper)
  case (New fd)
  with c r show ?thesis by (auto simp: Fd_new_def conserved_def real_fds_append ac_simps simp del: owns.simps(2))
next
  case Default
  with c r show ?thesis by (auto simp: Fd_default_def conserved_def)
next
  case (MoveNew j)
  with r have a: "alive s j" and s': "s' = Fd_move j s" by (auto simp: with_fd_def split: if_splits)
  from take_owned [OF a] c show ?thesis
    unfolding s' by (simp add: Fd_move_def conserved_def fd_take_def del: owns.simps(2))
next
  case (Assign i j)
  with r ok show ?thesis by (auto simp: with_fd_def fd_allowed_def intro: assign_conserved [OF c] split: if_splits)
next
  case (CloseFd i)
  with r show ?thesis by (auto simp: with_fd_def intro: close_conserved [OF c] split: if_splits)
next
  case (Reset i fd)
  with r have a: "alive s i" and s': "s' = fd_reset i fd s" by (auto simp: with_fd_def split: if_splits)
  show ?thesis unfolding s' fd_reset_def Let_def by (rule set_conserved(2) [OF close_conserved [OF c a]])
next
  case (Release i)
  with r have a: "alive s i" and s': "s' = fd_release i s" by (auto simp: with_fd_def split: if_splits)
  from take_owned [OF a] c show ?thesis
    unfolding s' by (simp add: fd_release_def conserved_def real_fds_append fd_take_def ac_simps del: owns.simps(2))
next
  case (Destruct i)
  with r have a: "alive s i" and s': "s' = Fd_destroy i s" by (auto simp: with_fd_def split: if_splits)
  show ?thesis unfolding s' Fd_destroy_def Let_def by (rule set_conserved(1) [OF close_conserved [OF c a]])
qed

interpretation fd: owner fd_apply fd_allowed conserved
  by unfold_locales (rule apply_conserved)

subsection \<open>Properties\<close>

text \<open>
  C32: Every descriptor an \<^verbatim>\<open>Fd\<close> takes over is, counted with multiplicity, at any time either owned by
  exactly one living object, or was passed to \<^verbatim>\<open>close\<close> once, or handed out by \<^verbatim>\<open>release\<close> once, for every sequence
  of constructions, moves, resets, releases and destructions in which no descriptor is move-assigned
  over; in particular, when all objects are destroyed, nothing is leaked and nothing closed twice.
\<close>

theorem fd_ownership:
  assumes "admissible fd_apply fd_allowed ops fd_world0" and "foldE fd_apply ops fd_world0 = Inr s"
  shows "real_fds (acquired s) = owned_list (fds s) + real_fds (closed s) + real_fds (released s)"
proof -
  have "conserved fd_world0" by (simp add: conserved_def fd_world0_def real_fds_def)
  from fd.history_keeps [OF this assms] show ?thesis by (simp add: conserved_def)
qed

theorem fd_ownership_witness:
  "\<exists>s. foldE fd_apply [New 5, MoveNew 0, Destruct 0, Reset 1 6, Destruct 1] fd_world0 = Inr s \<and> closed s = [5, 6] \<and>
     real_fds (acquired s) = owned_list (fds s) + real_fds (closed s) + real_fds (released s)"
proof -
  let ?ops = "[New 5, MoveNew 0, Destruct 0, Reset 1 6, Destruct 1]"
  have "admissible fd_apply fd_allowed ?ops fd_world0"
    by (simp add: fd_allowed_def fd_world0_def fd_defs with_fd_def alive_def fd_value_def)
  moreover have "\<exists>s. foldE fd_apply ?ops fd_world0 = Inr s \<and> closed s = [5, 6]"
    by (simp add: fd_world0_def fd_defs with_fd_def alive_def fd_value_def)
  ultimately show ?thesis using fd_ownership by blast
qed

text \<open>
  Move assignment to an \<^verbatim>\<open>Fd\<close> that owns a descriptor leaks it: the old descriptor is neither closed nor
  owned by any object afterwards.
\<close>

theorem fd_assign_leaks:
  assumes "alive s i" "alive s j" "i \<noteq> j" and "fd_value s i = fd" "fd \<noteq> - 1"
  shows "\<exists>s'. fd_apply (Assign i j) s = Inr s' \<and> closed s' = closed s \<and> released s' = released s \<and>
    owned_list (fds s') + {#fd#} = owned_list (fds s)"
proof -
  let ?s = "snd (fd_take j s)" and ?v = "fd_value s j"
  have keep: "fds ?s ! i = Some fd" "i < length (fds ?s)"
    using assms(3,4) alive_value [OF assms(1)] by (auto simp: fd_take_def)
  have "owned_list ((fds ?s)[i := Some ?v]) + {#fd#} = owned_list (fds ?s) + owns (Some ?v)"
    using held_update [OF keep(2), of owns "Some ?v"] keep(1) assms(5) by simp
  also have "\<dots> = owned_list (fds s)" by (rule take_owned [OF assms(2)])
  finally show ?thesis using assms(1,2) by (simp add: fd_assign_def fd_take_def with_fd_def)
qed

theorem fd_assign_leaks_witness:
  "\<exists>s'. fd_apply (Assign 0 1) (Fd_new 4 (Fd_new 3 fd_world0)) = Inr s' \<and> closed s' = [] \<and>
     owned_list (fds s') + {#3#} = {#3, 4#}"
proof -
  let ?s = "Fd_new 4 (Fd_new 3 fd_world0)"
  have "alive ?s 0" "alive ?s 1" "fd_value ?s 0 = 3" "closed ?s = []" "owned_list (fds ?s) = {#3, 4#}"
    by (simp_all add: alive_def fd_value_def Fd_new_def fd_world0_def)
  with fd_assign_leaks [OF this(1,2) _ this(3)] show ?thesis by auto
qed

end
