(* ===== verification/Wait.thy ===== *)
theory Wait
  imports Aiopp_Prelude
begin

text \<open>
  Waiting for several awaitables (\<^verbatim>\<open>wait.hpp\<close>): \<^verbatim>\<open>WaitAll\<close> and \<^verbatim>\<open>WaitAny\<close>. For every awaitable that is added a
  helper coroutine is started eagerly (a \<^verbatim>\<open>BasicCoroutine\<close>); it awaits the awaitable and reports its
  completion to the object. An awaitable may complete while it is being added, or later. What happens to
  such an object is a sequence of events; the member functions that an event runs are the operations.
  A helper is a coroutine lambda that captures \<^verbatim>\<open>this\<close>. The closure that holds the captured pointer is a temporary of the statement
  in \<^verbatim>\<open>add\<close> that calls it, and is destroyed at its end; a helper that goes on after a suspension still reads the pointer out of it.
  Resuming a continuation is the last thing a helper does with the object, so whatever the resumed
  coroutine does is a later event.
\<close>

subsection \<open>The surroundings of an object\<close>

text \<open>
  \<open>helpers\<close> are the helper coroutines that are suspended in their \<open>co_await\<close>, by the order in which they
  were added; \<open>suspended\<close> are the coroutines suspended in a \<open>co_await\<close> of the object; \<open>resumptions\<close> records
  every one that was resumed; \<open>live\<close> says that the object exists.
\<close>

record wait_base =
  continuation :: "nat option"
  helpers :: "nat set"
  added :: nat
  suspended :: "nat set"
  resumptions :: "nat list"
  live :: bool

datatype wait_event =
    is_Add: Add bool
  | is_Complete: Complete nat
  | CoAwait nat
  | DestroyWait

text \<open>Access to a member of a destroyed object.\<close>

definition member :: "'a wait_base_scheme \<Rightarrow> 'b outcome \<Rightarrow> 'b outcome" where
  "member s m = (if live s then m else Inl UndefinedBehaviour)"

text \<open>
  A member access of a helper that was suspended, through the pointer in its dead closure. In C++ this is undefined (\<open>intact\<close> is
  false). What the code relies on is that the storage of the closure still holds the pointer (\<open>intact\<close> is true).
\<close>

definition captured :: "bool \<Rightarrow> 'b outcome \<Rightarrow> 'b outcome" where
  "captured intact m = (if intact then m else Inl UndefinedBehaviour)"

text \<open>
  \<^verbatim>\<open>continuation_.resume()\<close>. Resuming a coroutine that is not suspended in a \<open>co_await\<close> of the object is
  counted as undefined behaviour: it is running, or gone, or suspended in another \<open>co_await\<close>, which would
  then return before what it waits for has happened.
\<close>

definition resume :: "nat \<Rightarrow> 'a wait_base_scheme \<Rightarrow> 'a wait_base_scheme outcome" where
  "resume c s =
     (if c \<in> suspended s
      then Inr (s\<lparr>suspended := suspended s - {c}, resumptions := resumptions s @ [c]\<rparr>)
      else Inl UndefinedBehaviour)"

definition await_suspend_wait :: "nat \<Rightarrow> 'a wait_base_scheme \<Rightarrow> 'a wait_base_scheme" where
  "await_suspend_wait c s = s\<lparr>continuation := Some c, suspended := insert c (suspended s)\<rparr>"

definition suspend_helper :: "nat \<Rightarrow> 'a wait_base_scheme \<Rightarrow> 'a wait_base_scheme" where
  "suspend_helper i s = s\<lparr>helpers := insert i (helpers s)\<rparr>"

definition finish_helper :: "nat \<Rightarrow> 'a wait_base_scheme \<Rightarrow> 'a wait_base_scheme" where
  "finish_helper i s = s\<lparr>helpers := helpers s - {i}\<rparr>"

subsection \<open>WaitAll\<close>

record wait_all = wait_base +
  pending :: u64

definition WaitAll_empty :: wait_all where
  "WaitAll_empty =
     \<lparr>continuation = None, helpers = {}, added = 0, suspended = {}, resumptions = [], live = True, pending = 0\<rparr>"

definition wa_startAwaitable :: "wait_all \<Rightarrow> wait_all outcome" where
  "wa_startAwaitable s = member s (Inr (s\<lparr>pending := pending s + 1\<rparr>))"

definition wa_awaitableCompleted :: "wait_all \<Rightarrow> wait_all outcome" where
  "wa_awaitableCompleted s = member s
     (let s' = s\<lparr>pending := pending s - 1\<rparr>
      in case continuation s' of
           None \<Rightarrow> Inr s'
         | Some c \<Rightarrow> if pending s' = 0 then resume c s' else Inr s')"

text \<open>
  The helper coroutine up to its \<open>co_await\<close>, and to its end when the awaitable is ready. Its closure exists until \<^verbatim>\<open>add\<close> returns.
\<close>

definition wa_add :: "bool \<Rightarrow> wait_all \<Rightarrow> wait_all outcome" where
  "wa_add ready s =
     bindE (wa_startAwaitable (s\<lparr>added := Suc (added s)\<rparr>)) (\<lambda>s'.
       if ready then wa_awaitableCompleted s' else Inr (suspend_helper (added s) s'))"

definition WaitAll :: "bool list \<Rightarrow> wait_all outcome" where
  "WaitAll readies = foldE wa_add readies WaitAll_empty"

definition wa_await_ready :: "wait_all \<Rightarrow> bool" where
  "wa_await_ready s \<longleftrightarrow> pending s = 0"

definition wa_co_await :: "nat \<Rightarrow> wait_all \<Rightarrow> wait_all outcome" where
  "wa_co_await c s = member s (Inr (if wa_await_ready s then s else await_suspend_wait c s))"

text \<open>What an event runs. A completion of an awaitable nobody waits for any more runs nothing.\<close>

fun wa_event :: "bool \<Rightarrow> wait_event \<Rightarrow> wait_all \<Rightarrow> wait_all outcome" where
  "wa_event intact (Add ready) s = wa_add ready s"
| "wa_event intact (Complete i) s = (if i \<in> helpers s then captured intact (wa_awaitableCompleted (finish_helper i s)) else Inr s)"
| "wa_event intact (CoAwait c) s = wa_co_await c s"
| "wa_event intact DestroyWait s = Inr (s\<lparr>live := False\<rparr>)"

subsection \<open>WaitAny\<close>

record wait_any = wait_base +
  started :: u64
  completed :: "u64 option"

definition WaitAny_empty :: wait_any where
  "WaitAny_empty =
     \<lparr>continuation = None, helpers = {}, added = 0, suspended = {}, resumptions = [], live = True,
      started = 0, completed = None\<rparr>"

definition wy_startAwaitable :: "wait_any \<Rightarrow> (u64 \<times> wait_any) outcome" where
  "wy_startAwaitable s = member s (let idx = started s in Inr (idx, s\<lparr>started := started s + 1\<rparr>))"

definition wy_awaitableCompleted :: "u64 \<Rightarrow> wait_any \<Rightarrow> wait_any outcome" where
  "wy_awaitableCompleted idx s = member s
     (let s' = (if completed s = None then s\<lparr>completed := Some idx\<rparr> else s)
      in case continuation s' of None \<Rightarrow> Inr s' | Some c \<Rightarrow> resume c s')"

text \<open>A helper keeps the index it got from \<^verbatim>\<open>startAwaitable\<close>, which is its position.\<close>

definition wy_add :: "bool \<Rightarrow> wait_any \<Rightarrow> wait_any outcome" where
  "wy_add ready s =
     bindE (wy_startAwaitable (s\<lparr>added := Suc (added s)\<rparr>)) (\<lambda>(idx, s').
       if ready then wy_awaitableCompleted idx s' else Inr (suspend_helper (unat idx) s'))"

definition WaitAny :: "bool list \<Rightarrow> wait_any outcome" where
  "WaitAny readies = foldE wy_add readies WaitAny_empty"

definition wy_await_ready :: "wait_any \<Rightarrow> bool" where
  "wy_await_ready s \<longleftrightarrow> completed s \<noteq> None"

definition wy_co_await :: "nat \<Rightarrow> wait_any \<Rightarrow> wait_any outcome" where
  "wy_co_await c s = member s (Inr (if wy_await_ready s then s else await_suspend_wait c s))"

text \<open>\<^verbatim>\<open>await_resume\<close>: \<^verbatim>\<open>value()\<close> of an empty optional throws inside \<^verbatim>\<open>noexcept\<close>, which ends the program.\<close>

definition wy_await_resume :: "wait_any \<Rightarrow> u64 outcome" where
  "wy_await_resume s = member s (case completed s of None \<Rightarrow> Inl Aborted | Some i \<Rightarrow> Inr i)"

fun wy_event :: "bool \<Rightarrow> wait_event \<Rightarrow> wait_any \<Rightarrow> wait_any outcome" where
  "wy_event intact (Add ready) s = wy_add ready s"
| "wy_event intact (Complete i) s =
     (if i \<in> helpers s then captured intact (wy_awaitableCompleted (of_nat i) (finish_helper i s)) else Inr s)"
| "wy_event intact (CoAwait c) s = wy_co_await c s"
| "wy_event intact DestroyWait s = Inr (s\<lparr>live := False\<rparr>)"

subsection \<open>Reference: what has been added and completed\<close>

text \<open>
  Read off the events alone: how many awaitables were added, which of them have not completed, and which
  one completed first.
\<close>

fun track :: "wait_event \<Rightarrow> nat \<times> nat set \<times> nat option \<Rightarrow> nat \<times> nat set \<times> nat option" where
  "track (Add ready) (n, Q, d) =
     (Suc n, if ready then Q else insert n Q, if ready \<and> d = None then Some n else d)"
| "track (Complete i) (n, Q, d) = (n, Q - {i}, if i \<in> Q \<and> d = None then Some i else d)"
| "track _ x = x"

definition history :: "wait_event list \<Rightarrow> nat \<times> nat set \<times> nat option" where
  "history evs = fold track evs (0, {}, None)"

definition outstanding :: "wait_event list \<Rightarrow> nat set" where
  "outstanding evs = fst (snd (history evs))"

definition first_completed :: "wait_event list \<Rightarrow> nat option" where
  "first_completed evs = snd (snd (history evs))"

text \<open>An awaitable completes after it was not ready when it was added.\<close>

definition late_completion :: "wait_event list \<Rightarrow> bool" where
  "late_completion evs \<longleftrightarrow> (\<exists>as i bs. evs = as @ Complete i # bs \<and> i \<in> outstanding as)"

text \<open>A client that has not awaited the object yet only adds awaitables, some of which complete.\<close>

definition before_await :: "wait_event list \<Rightarrow> bool" where
  "before_await evs \<longleftrightarrow> (\<forall>e\<in>set evs. is_Add e \<or> is_Complete e) \<and> length evs < 2 ^ 64"

lemma track_bounds:
  assumes "track e (n, Q, d) = (n', Q', d')" and "Q \<subseteq> {..<n}" "\<And>i. d = Some i \<Longrightarrow> i < n"
  shows "Q' \<subseteq> {..<n'} \<and> (\<forall>i. d' = Some i \<longrightarrow> i < n') \<and> n \<le> n' \<and> n' \<le> Suc n"
  using assms by (cases e) (auto split: if_splits)

lemma history_snoc: "history (evs @ [e]) = track e (history evs)"
  by (simp add: history_def)

lemma history_bounds:
  "history evs = (n, Q, d) \<Longrightarrow> Q \<subseteq> {..<n} \<and> (\<forall>i. d = Some i \<longrightarrow> i < n) \<and> n \<le> length evs"
proof (induction evs arbitrary: n Q d rule: rev_induct)
  case (snoc e evs)
  obtain n0 Q0 d0 where h: "history evs = (n0, Q0, d0)" by (cases "history evs")
  from snoc.IH [OF h] snoc.prems track_bounds [of e n0 Q0 d0 n Q d] h show ?case
    by (fastforce simp: history_snoc)
qed (simp add: history_def)

lemma outstanding_bounds: "finite (outstanding evs)" "card (outstanding evs) \<le> length evs"
proof -
  obtain n Q d where h: "history evs = (n, Q, d)" by (cases "history evs")
  from history_bounds [OF h] have Q: "Q \<subseteq> {..<n}" "n \<le> length evs" by auto
  then show "finite (outstanding evs)" by (auto simp: outstanding_def h intro: finite_subset)
  have "card Q \<le> card {..<n}" using Q(1) by (rule card_mono [rotated]) simp
  with Q(2) show "card (outstanding evs) \<le> length evs" by (simp add: outstanding_def h)
qed

lemma late_completion_Nil [simp]: "\<not> late_completion []"
  by (simp add: late_completion_def)

lemma late_completion_snoc:
  "late_completion (evs @ [e]) \<longleftrightarrow> late_completion evs \<or> (\<exists>i. e = Complete i \<and> i \<in> outstanding evs)"
proof
  assume "late_completion (evs @ [e])"
  then obtain as i bs where a: "evs @ [e] = as @ Complete i # bs" "i \<in> outstanding as" by (auto simp: late_completion_def)
  show "late_completion evs \<or> (\<exists>i. e = Complete i \<and> i \<in> outstanding evs)"
  proof (cases bs rule: rev_cases)
    case (snoc bs' b)
    with a(1) have "evs = as @ Complete i # bs'" by simp
    with a(2) show ?thesis unfolding late_completion_def by blast
  qed (use a in simp)
next
  assume "late_completion evs \<or> (\<exists>i. e = Complete i \<and> i \<in> outstanding evs)"
  then show "late_completion (evs @ [e])" by (fastforce simp: late_completion_def)
qed

lemma of_nat_card_insert: "finite Q \<Longrightarrow> n \<notin> Q \<Longrightarrow> (of_nat (card (insert n Q)) :: u64) = of_nat (card Q) + 1"
  by (simp add: add.commute)

lemma of_nat_card_remove: "finite Q \<Longrightarrow> i \<in> Q \<Longrightarrow> (of_nat (card (Q - {i})) :: u64) = of_nat (card Q) - 1"
  by (metis add_diff_cancel_left' card_Suc_Diff1 of_nat_Suc)

lemma of_nat_card_0: "finite Q \<Longrightarrow> card Q < 2 ^ 64 \<Longrightarrow> (of_nat (card Q) :: u64) = 0 \<longleftrightarrow> Q = {}"
proof -
  assume Q: "finite Q" "card Q < 2 ^ 64"
  have "(of_nat (card Q) :: u64) = 0 \<longleftrightarrow> unat (of_nat (card Q) :: u64) = 0" by (simp only: unat_eq_0)
  also have "\<dots> \<longleftrightarrow> Q = {}" unfolding unat_of_nat_u64 [OF Q(2)] using Q(1) by (rule card_0_eq)
  finally show ?thesis .
qed

subsection \<open>WaitAll follows the reference\<close>

definition all_idle :: "nat \<Rightarrow> nat set \<Rightarrow> wait_all" where
  "all_idle n Q =
     \<lparr>continuation = None, helpers = Q, added = n, suspended = {}, resumptions = [], live = True,
      pending = of_nat (card Q)\<rparr>"

definition all_awaited :: "nat \<Rightarrow> nat \<Rightarrow> nat set \<Rightarrow> wait_all" where
  "all_awaited c n Q =
     \<lparr>continuation = Some c, helpers = Q, added = n, suspended = (if Q = {} then {} else {c}),
      resumptions = (if Q = {} then [c] else []), live = True, pending = of_nat (card Q)\<rparr>"

lemmas wa_defs = captured_def member_def resume_def await_suspend_wait_def suspend_helper_def finish_helper_def
  wa_startAwaitable_def wa_awaitableCompleted_def wa_add_def wa_await_ready_def wa_co_await_def
  all_idle_def all_awaited_def

lemma all_idle_event:
  assumes "is_Add e \<or> is_Complete e" and "Q \<subseteq> {..<n}" and "track e (n, Q, d) = (n', Q', d')"
  shows "wa_event True e (all_idle n Q) = Inr (all_idle n' Q')"
proof (cases e)
  case (Add ready)
  have Q: "finite Q" "n \<notin> Q" using assms(2) by (auto intro: finite_subset)
  show ?thesis using Add assms(3) of_nat_card_insert [OF Q] by (auto simp: wa_defs Let_def)
next
  case (Complete i)
  have Q: "finite Q" using assms(2) by (rule finite_subset) simp
  show ?thesis using Complete assms(3) of_nat_card_remove [OF Q, of i] by (auto simp: wa_defs Let_def)
qed (use assms in auto)

lemma all_idle_run:
  assumes "\<forall>e\<in>set evs. is_Add e \<or> is_Complete e"
  shows "history evs = (n, Q, d) \<Longrightarrow> foldE (wa_event True) evs WaitAll_empty = Inr (all_idle n Q)"
  using assms
proof (induction evs arbitrary: n Q d rule: rev_induct)
  case Nil
  then show ?case by (simp add: history_def WaitAll_empty_def all_idle_def)
next
  case (snoc e evs)
  obtain n0 Q0 d0 where h: "history evs = (n0, Q0, d0)" by (cases "history evs")
  with snoc history_bounds [OF h] all_idle_event [of e Q0 n0 d0 n Q d] show ?case
    by (simp add: foldE_append history_snoc)
qed

lemma all_awaited_complete:
  assumes "finite Q" "card Q < 2 ^ 64"
  shows "wa_event True (Complete i) (all_awaited c n Q) = Inr (all_awaited c n (Q - {i}))"
proof (cases "i \<in> Q")
  case True
  have "card (Q - {i}) < 2 ^ 64" using assms by (metis card_Diff1_le le_less_trans)
  then have z: "(of_nat (card Q) - 1 :: u64) = 0 \<longleftrightarrow> Q - {i} = {}"
    using of_nat_card_0 [of "Q - {i}"] assms(1) of_nat_card_remove [OF assms(1) True] by simp
  show ?thesis
    using True z of_nat_card_remove [OF assms(1) True] by (auto simp: wa_defs Let_def)
qed (simp add: wa_defs)

lemma all_awaited_run:
  assumes "finite Q" "card Q < 2 ^ 64" and "\<forall>e\<in>set evs. is_Complete e"
  shows "foldE (wa_event True) evs (all_awaited c n Q) = Inr (all_awaited c n (fst (snd (fold track evs (n, Q, d)))))"
  using assms
proof (induction evs arbitrary: Q d)
  case (Cons e evs)
  then obtain i where e: "e = Complete i" by (cases e) auto
  have "card (Q - {i}) < 2 ^ 64" using Cons.prems by (metis card_Diff1_le le_less_trans)
  with Cons e show ?case by (simp add: all_awaited_complete del: wa_event.simps)
qed simp

lemma wa_event_gone:
  assumes "helpers s = {}" and "\<forall>e\<in>set evs. is_Complete e"
  shows "foldE (wa_event True) evs s = Inr s"
  using assms(2)
proof (induction evs)
  case (Cons e evs)
  then show ?case using assms(1) by (cases e) simp_all
qed simp

text \<open>
  Whatever happens, the suspended helpers are those of the outstanding awaitables; so without the storage of the closures, an
  execution is undefined from the first late completion on.
\<close>

lemma wa_helpers:
  "foldE (wa_event True) evs WaitAll_empty = Inr s \<Longrightarrow> helpers s = outstanding evs \<and> added s = fst (history evs)"
proof (induction evs arbitrary: s rule: rev_induct)
  case Nil
  then show ?case by (auto simp: WaitAll_empty_def outstanding_def history_def)
next
  case (snoc e evs)
  from snoc.prems obtain s1 where s1: "foldE (wa_event True) evs WaitAll_empty = Inr s1" "wa_event True e s1 = Inr s"
    by (auto simp: foldE_append bindE_eq_Inr)
  obtain n Q d where h: "history evs = (n, Q, d)" by (cases "history evs")
  with snoc.IH [OF s1(1)] s1(2) show ?case
    by (cases e) (auto simp: outstanding_def history_snoc wa_defs Let_def split: if_splits option.splits)
qed

lemma wa_strict:
  "foldE (wa_event True) evs WaitAll_empty = Inr s \<Longrightarrow>
   foldE (wa_event False) evs WaitAll_empty = (if late_completion evs then Inl UndefinedBehaviour else Inr s)"
proof (induction evs arbitrary: s rule: rev_induct)
  case (snoc e evs)
  from snoc.prems obtain s1 where s1: "foldE (wa_event True) evs WaitAll_empty = Inr s1" "wa_event True e s1 = Inr s"
    by (auto simp: foldE_append bindE_eq_Inr)
  have "wa_event False e s1 = (if \<exists>i. e = Complete i \<and> i \<in> outstanding evs then Inl UndefinedBehaviour else Inr s)"
    using s1(2) wa_helpers [OF s1(1)] by (cases e) (auto simp: captured_def)
  with snoc.IH [OF s1(1)] show ?case by (auto simp: foldE_append late_completion_snoc)
qed simp

subsection \<open>WaitAny follows the reference\<close>

definition any_idle :: "nat \<Rightarrow> nat set \<Rightarrow> nat option \<Rightarrow> wait_any" where
  "any_idle n Q d =
     \<lparr>continuation = None, helpers = Q, added = n, suspended = {}, resumptions = [], live = True,
      started = of_nat n, completed = map_option of_nat d\<rparr>"

lemmas wy_defs = captured_def member_def resume_def await_suspend_wait_def suspend_helper_def finish_helper_def
  wy_startAwaitable_def wy_awaitableCompleted_def wy_add_def wy_await_ready_def wy_co_await_def
  wy_await_resume_def any_idle_def

lemma any_idle_event:
  assumes "is_Add e \<or> is_Complete e" and "n < 2 ^ 64" and "track e (n, Q, d) = (n', Q', d')"
  shows "wy_event True e (any_idle n Q d) = Inr (any_idle n' Q' d')"
proof (cases e)
  case (Add ready)
  show ?thesis using Add assms(3) unat_of_nat_u64 [OF assms(2)]
    by (auto simp: wy_defs Let_def add.commute split: if_splits)
next
  case (Complete i)
  show ?thesis using Complete assms(3) by (auto simp: wy_defs Let_def split: if_splits)
qed (use assms in auto)

lemma any_idle_run:
  assumes "before_await evs"
  shows "history evs = (n, Q, d) \<Longrightarrow> foldE (wy_event True) evs WaitAny_empty = Inr (any_idle n Q d)"
  using assms
proof (induction evs arbitrary: n Q d rule: rev_induct)
  case Nil
  then show ?case by (simp add: history_def WaitAny_empty_def any_idle_def)
next
  case (snoc e evs)
  obtain n0 Q0 d0 where h: "history evs = (n0, Q0, d0)" by (cases "history evs")
  with snoc history_bounds [OF h] any_idle_event [of e n0 Q0 d0 n Q d] show ?case
    by (simp add: foldE_append history_snoc before_await_def)
qed

lemma any_strict:
  assumes "before_await evs"
  shows "foldE (wy_event False) evs WaitAny_empty =
    (if late_completion evs then Inl UndefinedBehaviour else foldE (wy_event True) evs WaitAny_empty)"
  using assms
proof (induction evs rule: rev_induct)
  case (snoc e evs)
  have b: "before_await evs" using snoc.prems by (simp add: before_await_def)
  obtain n Q d where h: "history evs = (n, Q, d)" by (cases "history evs")
  note r = any_idle_run [OF b h]
  have "wy_event False e (any_idle n Q d) =
      (if \<exists>i. e = Complete i \<and> i \<in> outstanding evs then Inl UndefinedBehaviour else wy_event True e (any_idle n Q d))"
    by (cases e) (auto simp: captured_def outstanding_def h any_idle_def)
  with snoc.IH [OF b] r show ?case
    by (cases "wy_event True e (any_idle n Q d)") (auto simp: foldE_append late_completion_snoc)
qed simp

lemma any_awaited:
  assumes "before_await pre" and h: "history pre = (n, Q, d)"
  shows "foldE (wy_event True) (pre @ CoAwait c # evs) WaitAny_empty =
    foldE (wy_event True) evs (if d = None then await_suspend_wait c (any_idle n Q None) else any_idle n Q d)"
  using any_idle_run [OF assms] by (auto simp: foldE_append wy_defs)

lemma any_gone:
  assumes "i \<in> helpers s" "\<not> live s"
  shows "wy_event True (Complete i) s = Inl UndefinedBehaviour"
  using assms by (simp add: wy_defs)

subsection \<open>Properties\<close>

text \<open>
  C18: What \<^verbatim>\<open>WaitAll\<close> does to a coroutine that adds any number of awaitables and then awaits the object. As C++ defines it, the
  execution is undefined as soon as an awaitable completes that was not ready when it was added, since its helper then reads
  the captured \<^verbatim>\<open>this\<close> out of a closure that is gone; without such a completion nothing is undefined. In an execution in which the
  storage of the closures is intact, the coroutine suspends if and only if some awaitables have not completed, and is resumed
  exactly once, by the completion of the last one, in whatever order they complete; once it has been resumed, or was not
  suspended, the object may be destroyed and nothing touches it any more.
\<close>

theorem wait_all_correct:
  assumes pre: "before_await pre" and post: "\<forall>e\<in>set post. is_Complete e" and late: "\<forall>e\<in>set late. is_Complete e"
  shows "foldE (wa_event False) (pre @ CoAwait c # post) WaitAll_empty =
      (if late_completion (pre @ CoAwait c # post) then Inl UndefinedBehaviour
       else foldE (wa_event True) (pre @ CoAwait c # post) WaitAll_empty) \<and>
    (\<exists>s. foldE (wa_event True) (pre @ CoAwait c # post) WaitAll_empty = Inr s \<and>
    helpers s = outstanding (pre @ post) \<and>
    suspended s = (if outstanding (pre @ post) = {} then {} else {c}) \<and>
    resumptions s = (if outstanding pre \<noteq> {} \<and> outstanding (pre @ post) = {} then [c] else []) \<and>
    (outstanding (pre @ post) = {} \<longrightarrow> foldE (wa_event True) (DestroyWait # late) s = Inr (s\<lparr>live := False\<rparr>)))"
proof -
  obtain n Q d where h: "history pre = (n, Q, d)" by (cases "history pre")
  have Q: "outstanding pre = Q" "finite Q" "card Q < 2 ^ 64"
    using outstanding_bounds [of pre] pre by (simp_all add: outstanding_def h before_await_def)
  have out: "outstanding (pre @ post) = fst (snd (fold track post (n, Q, d)))"
    using h by (simp add: outstanding_def history_def)
  have run: "foldE (wa_event True) pre WaitAll_empty = Inr (all_idle n Q)"
    using pre h by (intro all_idle_run) (simp_all add: before_await_def)
  define s where "s = (if Q = {} then all_idle n {} else all_awaited c n (outstanding (pre @ post)))"
  have "foldE (wa_event True) (CoAwait c # post) (all_idle n Q) = Inr s"
  proof (cases "Q = {}")
    case True
    with post show ?thesis by (simp add: s_def wa_defs wa_event_gone)
  next
    case False
    then have "wa_event True (CoAwait c) (all_idle n Q) = Inr (all_awaited c n Q)"
      using of_nat_card_0 [OF Q(2,3)] by (simp add: wa_defs)
    with False all_awaited_run [OF Q(2,3) post, of c n d] out show ?thesis by (simp add: s_def)
  qed
  moreover have "outstanding (pre @ post) = {}" if "Q = {}"
    using that post unfolding out by (induction post arbitrary: d) (auto simp: is_Complete_def)
  ultimately have ok: "foldE (wa_event True) (pre @ CoAwait c # post) WaitAll_empty = Inr s \<and> helpers s = outstanding (pre @ post) \<and>
    suspended s = (if outstanding (pre @ post) = {} then {} else {c}) \<and>
    resumptions s = (if outstanding pre \<noteq> {} \<and> outstanding (pre @ post) = {} then [c] else []) \<and>
    (outstanding (pre @ post) = {} \<longrightarrow> foldE (wa_event True) (DestroyWait # late) s = Inr (s\<lparr>live := False\<rparr>))"
    using run Q(1) late by (auto simp: foldE_append s_def wa_event_gone wa_defs)
  with wa_strict [OF conjunct1 [OF ok]] show ?thesis by auto
qed

theorem wait_all_correct_witness:
  "foldE (wa_event False) ([Add False, Add True, Add False] @ CoAwait 7 # [Complete 2, Complete 0]) WaitAll_empty = Inl UndefinedBehaviour \<and>
   (\<exists>s. foldE (wa_event True) ([Add False, Add True, Add False] @ CoAwait 7 # [Complete 2, Complete 0]) WaitAll_empty = Inr s \<and>
      helpers s = {} \<and> resumptions s = [7] \<and> suspended s = {})"
proof -
  let ?pre = "[Add False, Add True, Add False]"
  have b: "before_await ?pre" by (simp add: before_await_def)
  have o: "outstanding ?pre = {0, 2}" "outstanding (?pre @ [Complete 2, Complete 0]) = {}"
    by (auto simp: outstanding_def history_def)
  have "?pre @ CoAwait 7 # [Complete 2, Complete 0] = (?pre @ [CoAwait 7]) @ Complete 2 # [Complete 0]" "2 \<in> outstanding (?pre @ [CoAwait 7])"
    by (simp_all add: outstanding_def history_def)
  then have l: "late_completion (?pre @ CoAwait 7 # [Complete 2, Complete 0])" unfolding late_completion_def by blast
  have c: "\<forall>e\<in>set [Complete 2, Complete 0]. is_Complete e" "\<forall>e\<in>set []. is_Complete e" by simp_all
  note w = wait_all_correct [OF b c, of 7, unfolded o]
  from conjunct1 [OF w] l have "foldE (wa_event False) (?pre @ CoAwait 7 # [Complete 2, Complete 0]) WaitAll_empty = Inl UndefinedBehaviour"
    by (simp only: if_True)
  moreover from conjunct2 [OF w] have "\<exists>s. foldE (wa_event True) (?pre @ CoAwait 7 # [Complete 2, Complete 0]) WaitAll_empty = Inr s \<and>
      helpers s = {} \<and> resumptions s = [7] \<and> suspended s = {}" by auto
  ultimately show ?thesis ..
qed

text \<open>
  C36: What \<^verbatim>\<open>WaitAny\<close> reports. If an awaitable completed before the object is awaited, the coroutine does not suspend and gets
  the index of the one that completed first; otherwise it suspends. As C++ defines it, the execution is undefined as soon as an
  awaitable completes that was not ready when it was added, so that a coroutine that suspends is never resumed properly. In an
  execution in which the storage of the closures is intact, the next completion resumes it with its index.
\<close>

theorem wait_any_first:
  assumes pre: "before_await pre"
  shows "foldE (wy_event False) pre WaitAny_empty =
      (if late_completion pre then Inl UndefinedBehaviour else foldE (wy_event True) pre WaitAny_empty) \<and>
    (\<exists>s. foldE (wy_event True) (pre @ [CoAwait c]) WaitAny_empty = Inr s \<and> helpers s = outstanding pre \<and>
    (\<forall>i\<in>outstanding pre. wy_event False (Complete i) s = Inl UndefinedBehaviour) \<and>
    (case first_completed pre of
       Some i \<Rightarrow> suspended s = {} \<and> wy_await_resume s = Inr (of_nat i)
     | None \<Rightarrow> suspended s = {c} \<and>
         (\<forall>i\<in>outstanding pre. \<exists>s'. wy_event True (Complete i) s = Inr s' \<and> suspended s' = {} \<and>
            resumptions s' = [c] \<and> wy_await_resume s' = Inr (of_nat i))))"
proof -
  obtain n Q d where h: "history pre = (n, Q, d)" by (cases "history pre")
  then have "outstanding pre = Q" "first_completed pre = d" by (simp_all add: outstanding_def first_completed_def)
  with any_awaited [OF pre h, of c "[]"] any_strict [OF pre] show ?thesis
    by (auto simp: wy_defs Let_def split: option.splits)
qed

theorem wait_any_first_witness:
  "first_completed [Add False, Add True, Complete 0] = Some 1 \<and>
   (\<exists>s. foldE (wy_event True) ([Add False, Add True, Complete 0] @ [CoAwait 7]) WaitAny_empty = Inr s \<and>
      wy_await_resume s = Inr 1)"
proof -
  have b: "before_await [Add False, Add True, Complete 0]" by (simp add: before_await_def)
  have f: "first_completed [Add False, Add True, Complete 0] = Some 1"
    by (simp add: first_completed_def history_def)
  show ?thesis using wait_any_first [OF b, of 7] unfolding f by auto
qed

text \<open>
  \<^verbatim>\<open>WaitAny\<close> cannot be used safely with awaitables that all complete. Once the coroutine has been
  resumed by a completion, the completion of any other awaitable is undefined behaviour: while the object
  exists it resumes the coroutine a second time, and when the object has been destroyed, as the temporary
  of a \<^verbatim>\<open>co_await WaitAny { ... }\<close> is, it accesses the destroyed object. The latter also happens when the
  coroutine did not have to suspend.
\<close>

theorem wait_any_second_completion:
  assumes pre: "before_await pre" and i: "i \<in> outstanding pre" and j: "j \<in> outstanding pre" "j \<noteq> i"
  shows "(first_completed pre = None \<longrightarrow>
      foldE (wy_event True) (pre @ [CoAwait c, Complete i, Complete j]) WaitAny_empty = Inl UndefinedBehaviour) \<and>
    foldE (wy_event True) (pre @ [CoAwait c, Complete i, DestroyWait, Complete j]) WaitAny_empty = Inl UndefinedBehaviour"
proof -
  obtain n Q d where h: "history pre = (n, Q, d)" by (cases "history pre")
  have Q: "i \<in> Q" "j \<in> Q" "first_completed pre = d"
    using i j by (simp_all add: outstanding_def first_completed_def h)
  show ?thesis
    unfolding any_awaited [OF pre h] using Q j(2) by (auto simp: wy_defs Let_def)
qed

theorem wait_any_second_completion_witness:
  "foldE (wy_event True) ([Add False, Add False] @ [CoAwait 7, Complete 1, Complete 0]) WaitAny_empty = Inl UndefinedBehaviour"
proof -
  have b: "before_await [Add False, Add False]" by (simp add: before_await_def)
  have o: "outstanding [Add False, Add False] = {0, 1}" "first_completed [Add False, Add False] = None"
    by (auto simp: outstanding_def first_completed_def history_def)
  show ?thesis
    using wait_any_second_completion [OF b, of 1 0 7] unfolding o by simp
qed

end
