(* ===== verification/Task.thy ===== *)
theory Task
  imports Ownership
begin

text \<open>
  Tasks (\<^verbatim>\<open>task.hpp\<close>) and fire-and-forget coroutines (\<^verbatim>\<open>basiccoroutine.hpp\<close>). A task is a coroutine that
  starts suspended, runs when it is awaited, and at its end transfers control to the coroutine that awaits
  it, which takes the result out of the promise. The model keeps the coroutine frames in a store, so that
  resuming or destroying a frame that is gone, resuming a frame that is not suspended, and resuming a null
  handle are the outcome \<open>UndefinedBehaviour\<close>.

  The code of a coroutine is a tree: it returns, throws, awaits an operation, or awaits a task it creates by
  calling another coroutine function, with one branch per result. The main theorem says that awaiting tasks
  is the same as running their code in place: it is proved against trees that know no tasks.
\<close>

subsection \<open>Code of coroutines\<close>

datatype ('r, 'v) body =
    CoReturn 'v
  | CoThrow
  | CoAwaitOp 'r "'v \<Rightarrow> ('r, 'v) body"
  | CoAwaitTask "('r, 'v) body" "'v \<Rightarrow> ('r, 'v) body"

subsection \<open>Frames\<close>

text \<open>Where a coroutine is suspended; \<open>Active\<close> when it is running.\<close>

datatype ('r, 'v) suspension =
    Initial "('r, 'v) body"
  | AtOp "'v \<Rightarrow> ('r, 'v) body"
  | AtTask nat "'v \<Rightarrow> ('r, 'v) body"
  | Final
  | Active

text \<open>\<open>is_task\<close> tells the promise of a \<^verbatim>\<open>Task\<close> from that of a \<^verbatim>\<open>BasicCoroutine\<close>.\<close>

record ('r, 'v) frame =
  is_task :: bool
  promise_continuation :: "nat option"
  promise_result :: 'v
  susp :: "('r, 'v) suspension"

text \<open>
  \<open>current\<close> is the running coroutine with the rest of its code, \<open>pending_op\<close> the operation the event loop
  has to complete and the coroutine to resume then; \<open>issued\<close> records the operations, \<open>delivered\<close> the
  value that the outermost coroutine passes on.
\<close>

record ('r, 'v) coros =
  frames :: "nat \<rightharpoonup> ('r, 'v) frame"
  next_frame :: nat
  current :: "(nat \<times> ('r, 'v) body) option"
  pending_op :: "nat option"
  issued :: "'r list"
  delivered :: "'v option"

definition update_frame :: "nat \<Rightarrow> (('r, 'v) frame \<Rightarrow> ('r, 'v) frame) \<Rightarrow> ('r, 'v) coros \<Rightarrow> ('r, 'v) coros" where
  "update_frame f u s = s\<lparr>frames := (frames s)(f := map_option u (frames s f))\<rparr>"

definition with_frame :: "nat \<Rightarrow> ('r, 'v) coros \<Rightarrow> (('r, 'v) frame \<Rightarrow> 'b outcome) \<Rightarrow> 'b outcome" where
  "with_frame f s m = (case frames s f of None \<Rightarrow> Inl UndefinedBehaviour | Some fr \<Rightarrow> m fr)"

definition activate :: "nat \<Rightarrow> ('r, 'v) body \<Rightarrow> ('r, 'v) coros \<Rightarrow> ('r, 'v) coros" where
  "activate f b s = (update_frame f (\<lambda>fr. fr\<lparr>susp := Active\<rparr>) s)\<lparr>current := Some (f, b)\<rparr>"

definition suspend_at :: "nat \<Rightarrow> ('r, 'v) suspension \<Rightarrow> ('r, 'v) coros \<Rightarrow> ('r, 'v) coros" where
  "suspend_at f x s = (update_frame f (\<lambda>fr. fr\<lparr>susp := x\<rparr>) s)\<lparr>current := None\<rparr>"

subsection \<open>Tasks\<close>

text \<open>
  Calling a coroutine function: the frame is allocated with a default result, the task gets its handle, and
  \<^verbatim>\<open>initial_suspend\<close> suspends before the first statement.
\<close>

definition task_call :: "'v \<Rightarrow> ('r, 'v) body \<Rightarrow> ('r, 'v) coros \<Rightarrow> nat \<times> ('r, 'v) coros" where
  "task_call dflt b s =
     (next_frame s,
      s\<lparr>frames := (frames s)(next_frame s \<mapsto>
           \<lparr>is_task = True, promise_continuation = None, promise_result = dflt, susp = Initial b\<rparr>),
        next_frame := Suc (next_frame s)\<rparr>)"

text \<open>The destructor of a \<^verbatim>\<open>Task\<close>; only a suspended coroutine may be destroyed.\<close>

definition task_destroy :: "nat option \<Rightarrow> ('r, 'v) coros \<Rightarrow> ('r, 'v) coros outcome" where
  "task_destroy handle s =
     (case handle of
        None \<Rightarrow> Inr s
      | Some t \<Rightarrow> with_frame t s (\<lambda>fr.
          if susp fr = Active then Inl UndefinedBehaviour else Inr (s\<lparr>frames := (frames s)(t := None)\<rparr>)))"

definition task_await_resume :: "nat option \<Rightarrow> ('r, 'v) coros \<Rightarrow> 'v outcome" where
  "task_await_resume handle s =
     (case handle of None \<Rightarrow> Inl UndefinedBehaviour | Some t \<Rightarrow> with_frame t s (\<lambda>fr. Inr (promise_result fr)))"

text \<open>
  Resuming a coroutine. One that awaits a task continues with the result of that task; the task is a
  temporary that is destroyed at the end of the expression.
\<close>

definition resume_frame :: "nat \<Rightarrow> ('r, 'v) coros \<Rightarrow> ('r, 'v) coros outcome" where
  "resume_frame f s = with_frame f s (\<lambda>fr.
     case susp fr of
       Initial b \<Rightarrow> Inr (activate f b s)
     | AtTask t k \<Rightarrow> bindE (task_await_resume (Some t) s) (\<lambda>v. bindE (task_destroy (Some t) s) (\<lambda>s'. Inr (activate f (k v) s')))
     | _ \<Rightarrow> Inl UndefinedBehaviour)"

definition task_await_ready :: "nat option \<Rightarrow> ('r, 'v) coros \<Rightarrow> bool outcome" where
  "task_await_ready handle s =
     (case handle of None \<Rightarrow> Inr True | Some t \<Rightarrow> with_frame t s (\<lambda>fr. Inr (susp fr = Final)))"

text \<open>\<^verbatim>\<open>await_suspend\<close> remembers the caller and transfers control to the task.\<close>

definition task_await_suspend :: "nat \<Rightarrow> nat \<Rightarrow> ('r, 'v) coros \<Rightarrow> ('r, 'v) coros outcome" where
  "task_await_suspend t calling s = with_frame t s (\<lambda>_.
     resume_frame t (update_frame t (\<lambda>fr. fr\<lparr>promise_continuation := Some calling\<rparr>) s))"

definition co_await_task :: "nat \<Rightarrow> nat \<Rightarrow> ('v \<Rightarrow> ('r, 'v) body) \<Rightarrow> ('r, 'v) coros \<Rightarrow> ('r, 'v) coros outcome" where
  "co_await_task f t k s =
     bindE (task_await_ready (Some t) s) (\<lambda>ready.
       let s1 = suspend_at f (AtTask t k) s
       in if ready then resume_frame f s1 else task_await_suspend t f s1)"

text \<open>
  The end of a task: \<^verbatim>\<open>return_value\<close> stores the result, an exception stores nothing; then
  \<^verbatim>\<open>FinalAwaiter::await_suspend\<close> transfers control to the continuation, a null handle if there is none.
\<close>

definition return_value :: "nat \<Rightarrow> 'v \<Rightarrow> ('r, 'v) coros \<Rightarrow> ('r, 'v) coros" where
  "return_value f v = update_frame f (\<lambda>fr. fr\<lparr>promise_result := v\<rparr>)"

definition final_suspend :: "nat \<Rightarrow> ('r, 'v) coros \<Rightarrow> ('r, 'v) coros outcome" where
  "final_suspend f s = with_frame f s (\<lambda>fr.
     case promise_continuation fr of
       None \<Rightarrow> Inl UndefinedBehaviour
     | Some g \<Rightarrow> resume_frame g (suspend_at f Final s))"

text \<open>A \<^verbatim>\<open>BasicCoroutine\<close> does not suspend at its end; its frame is gone.\<close>

definition basic_end :: "nat \<Rightarrow> 'v option \<Rightarrow> ('r, 'v) coros \<Rightarrow> ('r, 'v) coros" where
  "basic_end f v s = s\<lparr>frames := (frames s)(f := None), current := None, delivered := v\<rparr>"

subsection \<open>Execution\<close>

fun coro_step :: "'v \<Rightarrow> nat \<Rightarrow> ('r, 'v) body \<Rightarrow> ('r, 'v) coros \<Rightarrow> ('r, 'v) coros outcome" where
  "coro_step dflt f (CoReturn v) s = with_frame f s (\<lambda>fr.
     if is_task fr then final_suspend f (return_value f v s) else Inr (basic_end f (Some v) s))"
| "coro_step dflt f CoThrow s = with_frame f s (\<lambda>fr.
     if is_task fr then final_suspend f s else Inr (basic_end f None s))"
| "coro_step dflt f (CoAwaitOp r k) s =
     Inr ((suspend_at f (AtOp k) s)\<lparr>pending_op := Some f, issued := issued s @ [r]\<rparr>)"
| "coro_step dflt f (CoAwaitTask b k) s = (let (t, s') = task_call dflt b s in co_await_task f t k s')"

text \<open>Execution until every coroutine is suspended or gone, with a bound on the number of steps.\<close>

fun settle :: "'v \<Rightarrow> nat \<Rightarrow> ('r, 'v) coros \<Rightarrow> ('r, 'v) coros outcome option" where
  "settle dflt n s =
     (case current s of
        None \<Rightarrow> Some (Inr s)
      | Some (f, b) \<Rightarrow>
          (case n of
             0 \<Rightarrow> None
           | Suc m \<Rightarrow> (case coro_step dflt f b s of Inl e \<Rightarrow> Some (Inl e) | Inr s' \<Rightarrow> settle dflt m s')))"

declare settle.simps [simp del]

text \<open>The event loop resumes the coroutine whose operation has completed.\<close>

definition resume_op :: "'v \<Rightarrow> ('r, 'v) coros \<Rightarrow> ('r, 'v) coros outcome" where
  "resume_op v s =
     (case pending_op s of
        None \<Rightarrow> Inr s
      | Some f \<Rightarrow> with_frame f s (\<lambda>fr.
          case susp fr of
            AtOp k \<Rightarrow> Inr (activate f (k v) (s\<lparr>pending_op := None\<rparr>))
          | _ \<Rightarrow> Inl UndefinedBehaviour))"

text \<open>
  \<^verbatim>\<open>fireAndForget(task)\<close>: an eager coroutine that owns the task, as its parameter, and awaits it. \<^verbatim>\<open>Task::callback\<close> awaits a task in the same
  way and does not own it: when the task it is called on is a temporary, see \<open>callback_temporary\<close> in \<open>Servers\<close>.
\<close>

definition fireAndForget :: "'v \<Rightarrow> ('r, 'v) body \<Rightarrow> ('r, 'v) coros" where
  "fireAndForget dflt b =
     \<lparr>frames = [0 \<mapsto> \<lparr>is_task = False, promise_continuation = None, promise_result = dflt, susp = Active\<rparr>],
      next_frame = 1, current = Some (0, CoAwaitTask b CoReturn), pending_op = None, issued = [], delivered = None\<rparr>"

fun drive :: "'v \<Rightarrow> nat \<Rightarrow> 'v list \<Rightarrow> ('r, 'v) coros \<Rightarrow> ('r, 'v) coros outcome option" where
  "drive dflt n [] s = settle dflt n s"
| "drive dflt n (v # vs) s =
     (case settle dflt n s of
        Some (Inr s') \<Rightarrow> (case resume_op v s' of Inl e \<Rightarrow> Some (Inl e) | Inr s'' \<Rightarrow> drive dflt n vs s'')
      | x \<Rightarrow> x)"

subsection \<open>Task objects\<close>

text \<open>
  The objects that own coroutine frames: construction by a call of a coroutine function, moves and
  destruction. \<open>t_frames\<close> are the frames that exist.
\<close>

record task_objects =
  t_handles :: "nat option option list"
  t_frames :: "nat set"
  t_next :: nat

datatype task_op =
    TaskCall
  | TaskDefault
  | TaskMove nat
  | TaskAssign nat nat
  | TaskDestroy nat

definition with_task :: "nat \<Rightarrow> task_objects \<Rightarrow> (nat option \<Rightarrow> 'b outcome) \<Rightarrow> 'b outcome" where
  "with_task i s m =
     (if i < length (t_handles s)
      then (case t_handles s ! i of None \<Rightarrow> Inl UndefinedBehaviour | Some h \<Rightarrow> m h)
      else Inl UndefinedBehaviour)"

definition destroy_handle :: "nat option \<Rightarrow> task_objects \<Rightarrow> task_objects outcome" where
  "destroy_handle h s = bindE (drop_handle h (t_frames s)) (\<lambda>F. Inr (s\<lparr>t_frames := F\<rparr>))"

text \<open>\<^verbatim>\<open>std::exchange(other.handle_, nullptr)\<close> reads the handle and leaves the other task empty.\<close>

definition Task_move :: "nat \<Rightarrow> nat option \<Rightarrow> task_objects \<Rightarrow> task_objects" where
  "Task_move j h s = s\<lparr>t_handles := (t_handles s)[j := Some None] @ [Some h]\<rparr>"

definition task_assign :: "nat \<Rightarrow> nat \<Rightarrow> task_objects \<Rightarrow> task_objects outcome" where
  "task_assign i j s = with_task i s (\<lambda>old. bindE (destroy_handle old s) (\<lambda>s'.
     with_task j s' (\<lambda>h. Inr (s'\<lparr>t_handles := (t_handles s')[j := Some None, i := Some h]\<rparr>))))"

primrec task_apply :: "task_op \<Rightarrow> task_objects \<Rightarrow> task_objects outcome" where
  "task_apply TaskCall s =
     Inr (s\<lparr>t_handles := t_handles s @ [Some (Some (t_next s))], t_frames := insert (t_next s) (t_frames s),
            t_next := Suc (t_next s)\<rparr>)"
| "task_apply TaskDefault s = Inr (s\<lparr>t_handles := t_handles s @ [Some None]\<rparr>)"
| "task_apply (TaskMove j) s = with_task j s (\<lambda>h. Inr (Task_move j h s))"
| "task_apply (TaskAssign i j) s = task_assign i j s"
| "task_apply (TaskDestroy i) s = with_task i s (\<lambda>h.
     bindE (destroy_handle h s) (\<lambda>s'. Inr (s'\<lparr>t_handles := (t_handles s')[i := None]\<rparr>)))"

subsection \<open>Reference: code without tasks\<close>

text \<open>
  A program that only issues operations: what a coroutine does when the code of every task is put in the
  place where the task is awaited. A task that throws delivers the default value of its result.
\<close>

datatype ('r, 'v) itree = IRet 'v | IOp 'r "'v \<Rightarrow> ('r, 'v) itree"

primrec bind_it :: "('r, 'v) itree \<Rightarrow> ('v \<Rightarrow> ('r, 'v) itree) \<Rightarrow> ('r, 'v) itree" where
  "bind_it (IRet v) k = k v"
| "bind_it (IOp r c) k = IOp r (\<lambda>v. bind_it (c v) k)"

primrec inline :: "'v \<Rightarrow> ('r, 'v) body \<Rightarrow> ('r, 'v) itree" where
  "inline dflt (CoReturn v) = IRet v"
| "inline dflt CoThrow = IRet dflt"
| "inline dflt (CoAwaitOp r k) = IOp r (\<lambda>v. inline dflt (k v))"
| "inline dflt (CoAwaitTask b k) = bind_it (inline dflt b) (\<lambda>v. inline dflt (k v))"

text \<open>The operations such a program issues when they complete with the given results, and its value.\<close>

fun it_run :: "('r, 'v) itree \<Rightarrow> 'v list \<Rightarrow> 'r list \<times> 'v option" where
  "it_run (IRet v) vs = ([], Some v)"
| "it_run (IOp r c) [] = ([r], None)"
| "it_run (IOp r c) (v # vs) = (let (rs, x) = it_run (c v) vs in (r # rs, x))"

lemma bind_it_assoc: "bind_it (bind_it t k) l = bind_it t (\<lambda>v. bind_it (k v) l)"
  by (induction t) simp_all

lemma bind_it_IRet: "bind_it t IRet = t"
  by (induction t) simp_all

subsection \<open>The chain of awaiting coroutines\<close>

text \<open>
  \<open>chain dflt F f K fs\<close>: task \<open>f\<close> is awaited by the next frame of \<open>fs\<close>, that one by the next, down to the
  fire-and-forget coroutine; \<open>K\<close> is what remains to be done once \<open>f\<close> delivers its result.
\<close>

inductive chain :: "'v \<Rightarrow> (nat \<rightharpoonup> ('r, 'v) frame) \<Rightarrow> nat \<Rightarrow> ('v \<Rightarrow> ('r, 'v) itree) \<Rightarrow> nat list \<Rightarrow> bool"
  for dflt :: 'v and F :: "nat \<rightharpoonup> ('r, 'v) frame" where
  outermost: "F f = Some fr \<Longrightarrow> is_task fr \<Longrightarrow> promise_continuation fr = Some g \<Longrightarrow> promise_result fr = dflt \<Longrightarrow>
     F g = Some gr \<Longrightarrow> \<not> is_task gr \<Longrightarrow> susp gr = AtTask f CoReturn \<Longrightarrow> f \<noteq> g \<Longrightarrow> chain dflt F f IRet [f, g]"
| awaited: "F f = Some fr \<Longrightarrow> is_task fr \<Longrightarrow> promise_continuation fr = Some g \<Longrightarrow> promise_result fr = dflt \<Longrightarrow>
     F g = Some gr \<Longrightarrow> susp gr = AtTask f k \<Longrightarrow> chain dflt F g K fs \<Longrightarrow> f \<notin> set fs \<Longrightarrow>
     chain dflt F f (\<lambda>v. bind_it (inline dflt (k v)) K) (f # fs)"

lemma chain_head: "chain dflt F f K fs \<Longrightarrow> f \<in> set fs \<and> F f \<noteq> None"
  by (erule chain.cases) auto

lemma chain_head_task:
  "chain dflt F f K fs \<Longrightarrow> \<exists>fr. F f = Some fr \<and> is_task fr \<and> promise_result fr = dflt"
  by (erule chain.cases) auto

lemma chain_agree:
  "chain dflt F f K fs \<Longrightarrow> (\<And>x. x \<in> set fs \<Longrightarrow> F' x = F x) \<Longrightarrow> chain dflt F' f K fs"
proof (induction rule: chain.induct)
  case (outermost f fr g gr)
  then show ?case by (intro chain.outermost [of F' f fr g dflt gr]) simp_all
next
  case (awaited f fr g gr k K fs)
  have "g \<in> set fs" using chain_head [OF awaited.hyps(7)] by simp
  with awaited show ?case by (intro chain.awaited [of F' f fr g dflt gr]) simp_all
qed

text \<open>The chain does not depend on where its first task is suspended, nor on frames outside it.\<close>

lemma chain_cong:
  assumes "chain dflt F f K fs" and "\<And>x. x \<in> set fs \<Longrightarrow> x \<noteq> f \<Longrightarrow> F' x = F x"
    and "F' f = map_option (\<lambda>fr. fr\<lparr>susp := x\<rparr>) (F f)"
  shows "chain dflt F' f K fs"
  using assms
proof (cases rule: chain.cases)
  case (outermost fr g gr)
  then show ?thesis using assms(2,3) by (auto intro!: chain.outermost)
next
  case (awaited fr g gr k K' fs')
  have "g \<in> set fs'" using chain_head [OF awaited(9)] by simp
  moreover have "F' x = F x" if "x \<in> set fs'" for x using that awaited(2,10) assms(2) by auto
  ultimately have "chain dflt F' f (\<lambda>v. bind_it (inline dflt (k v)) K') (f # fs')"
    using awaited assms(3) chain_agree [OF awaited(9), of F']
    by (intro chain.awaited [where fr = "fr\<lparr>susp := x\<rparr>" and g = g and gr = gr]) auto
  with awaited(1,2) show ?thesis by simp
qed

subsection \<open>Steps along the chain\<close>

definition coro_trans :: "'v \<Rightarrow> ('r, 'v) coros \<Rightarrow> ('r, 'v) coros \<Rightarrow> bool" where
  "coro_trans dflt s s' \<longleftrightarrow> (\<exists>f b. current s = Some (f, b) \<and> coro_step dflt f b s = Inr s')"

abbreviation coro_steps :: "'v \<Rightarrow> ('r, 'v) coros \<Rightarrow> ('r, 'v) coros \<Rightarrow> bool" where
  "coro_steps dflt \<equiv> (coro_trans dflt)\<^sup>*\<^sup>*"

text \<open>The frames are exactly those of the chain, and new frames are fresh.\<close>

definition owns_chain :: "'v \<Rightarrow> ('r, 'v) coros \<Rightarrow> nat \<Rightarrow> ('v \<Rightarrow> ('r, 'v) itree) \<Rightarrow> nat list \<Rightarrow> bool" where
  "owns_chain dflt s f K fs \<longleftrightarrow> chain dflt (frames s) f K fs \<and> dom (frames s) = set fs \<and>
     (\<forall>x\<in>set fs. x < next_frame s) \<and> delivered s = None"

definition runs_body :: "'v \<Rightarrow> ('r, 'v) coros \<Rightarrow> nat \<Rightarrow> ('r, 'v) body \<Rightarrow> ('v \<Rightarrow> ('r, 'v) itree) \<Rightarrow> nat list \<Rightarrow> bool" where
  "runs_body dflt s f b K fs \<longleftrightarrow> owns_chain dflt s f K fs \<and> current s = Some (f, b) \<and> pending_op s = None \<and>
     map_option susp (frames s f) = Some Active"

definition waiting :: "'v \<Rightarrow> ('r, 'v) coros \<Rightarrow> ('v \<Rightarrow> ('r, 'v) itree) \<Rightarrow> bool" where
  "waiting dflt s c \<longleftrightarrow> (\<exists>f k K fs. owns_chain dflt s f K fs \<and> current s = None \<and> pending_op s = Some f \<and>
     map_option susp (frames s f) = Some (AtOp k) \<and> c = (\<lambda>v. bind_it (inline dflt (k v)) K))"

definition finished :: "('r, 'v) coros \<Rightarrow> 'v \<Rightarrow> bool" where
  "finished s v \<longleftrightarrow> current s = None \<and> pending_op s = None \<and> frames s = Map.empty \<and> delivered s = Some v"

definition body_end :: "'v \<Rightarrow> ('r, 'v) body \<Rightarrow> 'v \<Rightarrow> bool" where
  "body_end dflt e v \<longleftrightarrow> e = CoReturn v \<or> e = CoThrow \<and> v = dflt"

lemmas coro_defs = update_frame_def with_frame_def activate_def suspend_at_def task_call_def task_destroy_def
  task_await_resume_def resume_frame_def task_await_ready_def task_await_suspend_def co_await_task_def return_value_def
  final_suspend_def basic_end_def

lemma step_end:
  assumes "body_end dflt e v" and h: "frames s h = Some hr" "is_task hr" "promise_continuation hr = Some g" "promise_result hr = dflt"
    and g: "frames s g = Some gr" "susp gr = AtTask h k" and "h \<noteq> g"
  shows "coro_step dflt h e s =
    Inr (s\<lparr>frames := (frames s)(h := None, g \<mapsto> gr\<lparr>susp := Active\<rparr>), current := Some (g, k v)\<rparr>)"
  using assms by (auto simp: body_end_def coro_defs fun_upd_twist)

lemma step_push:
  assumes r: "runs_body dflt s f (CoAwaitTask b k) K fs"
  obtains s1 fr where "coro_step dflt f (CoAwaitTask b k) s = Inr s1"
    "runs_body dflt s1 (next_frame s) b (\<lambda>v. bind_it (inline dflt (k v)) K) (next_frame s # fs)"
    "frames s f = Some fr" "susp fr = Active" "next_frame s \<noteq> f" "frames s (next_frame s) = None"
    "s1 = s\<lparr>frames := (frames s)(f \<mapsto> fr\<lparr>susp := AtTask (next_frame s) k\<rparr>,
        next_frame s \<mapsto> \<lparr>is_task = True, promise_continuation = Some f, promise_result = dflt, susp = Active\<rparr>),
      next_frame := Suc (next_frame s), current := Some (next_frame s, b)\<rparr>"
proof -
  let ?h = "next_frame s"
  let ?hr = "\<lparr>is_task = True, promise_continuation = Some f, promise_result = dflt, susp = Active\<rparr>"
  from r have ch: "chain dflt (frames s) f K fs" "dom (frames s) = set fs" "\<forall>x\<in>set fs. x < ?h" "delivered s = None"
    "pending_op s = None" by (simp_all add: runs_body_def owns_chain_def)
  from r obtain fr where fr: "frames s f = Some fr" "susp fr = Active" by (auto simp: runs_body_def)
  have h: "?h \<noteq> f" "?h \<notin> set fs" "frames s ?h = None" using ch(2,3) fr(1) by (blast, blast, blast)
  define s1 where "s1 = s\<lparr>frames := (frames s)(f \<mapsto> fr\<lparr>susp := AtTask ?h k\<rparr>, ?h \<mapsto> ?hr),
      next_frame := Suc ?h, current := Some (?h, b)\<rparr>"
  have step: "coro_step dflt f (CoAwaitTask b k) s = Inr s1"
    using fr h by (simp add: coro_defs s1_def fun_upd_twist [of f])
  have "chain dflt (frames s1) f K fs"
    by (rule chain_cong [OF ch(1), of _ "AtTask ?h k"]) (use h fr in \<open>auto simp: s1_def\<close>)
  then have "chain dflt (frames s1) ?h (\<lambda>v. bind_it (inline dflt (k v)) K) (?h # fs)"
    using h by (intro chain.awaited [where fr = ?hr and g = f and gr = "fr\<lparr>susp := AtTask ?h k\<rparr>"]) (simp_all add: s1_def)
  moreover have "dom (frames s1) = set (?h # fs)" "\<forall>x\<in>set (?h # fs). x < next_frame s1"
    using ch(2,3) fr(1) by (auto simp: s1_def)
  ultimately have "runs_body dflt s1 ?h b (\<lambda>v. bind_it (inline dflt (k v)) K) (?h # fs)"
    using ch(4,5) by (simp add: runs_body_def owns_chain_def s1_def)
  from that [OF step this fr h(1,3) s1_def] show thesis .
qed

text \<open>
  Code of a running task either comes to an operation, or to its end with all frames as they were.
\<close>

definition same_chain :: "('r, 'v) coros \<Rightarrow> ('r, 'v) coros \<Rightarrow> bool" where
  "same_chain s s' \<longleftrightarrow> frames s' = frames s \<and> issued s' = issued s \<and> next_frame s \<le> next_frame s' \<and>
     pending_op s' = None \<and> delivered s' = None"

lemma running_same:
  assumes "runs_body dflt s f b K fs" "same_chain s s'" "current s' = Some (f, b')"
  shows "runs_body dflt s' f b' K fs"
proof -
  have "x < next_frame s'" if "x \<in> set fs" for x
    using that assms(1,2) unfolding runs_body_def owns_chain_def same_chain_def by (meson order.strict_trans2)
  with assms show ?thesis by (simp add: runs_body_def owns_chain_def same_chain_def)
qed

lemma run_body:
  "runs_body dflt s f b K fs \<Longrightarrow>
   (\<exists>s' r c. coro_steps dflt s s' \<and> waiting dflt s' c \<and> issued s' = issued s @ [r] \<and>
      bind_it (inline dflt b) K = IOp r c) \<or>
   (\<exists>s' e v. coro_steps dflt s s' \<and> current s' = Some (f, e) \<and> body_end dflt e v \<and> same_chain s s' \<and>
      bind_it (inline dflt b) K = K v)"
proof (induction b arbitrary: s f K fs)
  case (CoReturn v)
  then show ?case
    by (intro disjI2 exI [of _ s] exI [of _ "CoReturn v"] exI [of _ v])
      (simp add: body_end_def same_chain_def runs_body_def owns_chain_def)
next
  case CoThrow
  then show ?case
    by (intro disjI2 exI [of _ s] exI [of _ CoThrow] exI [of _ dflt])
      (simp add: body_end_def same_chain_def runs_body_def owns_chain_def)
next
  case (CoAwaitOp r k)
  let ?s = "(suspend_at f (AtOp k) s)\<lparr>pending_op := Some f, issued := issued s @ [r]\<rparr>"
  have "coro_trans dflt s ?s" using CoAwaitOp.prems by (simp add: coro_trans_def runs_body_def)
  moreover have "waiting dflt ?s (\<lambda>v. bind_it (inline dflt (k v)) K)"
  proof -
    have fs: "frames ?s = (frames s)(f := map_option (\<lambda>fr. fr\<lparr>susp := AtOp k\<rparr>) (frames s f))"
      by (simp add: suspend_at_def update_frame_def)
    from CoAwaitOp.prems obtain fr where f: "frames s f = Some fr" and oc: "owns_chain dflt s f K fs"
      by (auto simp: runs_body_def)
    have "chain dflt (frames ?s) f K fs"
      by (rule chain_cong [of dflt "frames s" f K fs _ "AtOp k"]) (use oc in \<open>simp_all add: owns_chain_def fs\<close>)
    moreover have "dom (frames ?s) = dom (frames s)" using f unfolding fs by auto
    ultimately have "owns_chain dflt ?s f K fs"
      using oc by (simp add: owns_chain_def suspend_at_def update_frame_def)
    moreover have "map_option susp (frames ?s f) = Some (AtOp k)" using f unfolding fs by simp
    moreover have "current ?s = None" "pending_op ?s = Some f" by (simp_all add: suspend_at_def)
    ultimately show ?thesis unfolding waiting_def by blast
  qed
  ultimately show ?case by (intro disjI1 exI [of _ ?s]) (auto simp: coro_defs)
next
  case (CoAwaitTask b k)
  let ?h = "next_frame s" and ?K = "\<lambda>v. bind_it (inline dflt (k v)) K"
  from step_push [OF CoAwaitTask.prems] obtain s1 fr where
    step: "coro_step dflt f (CoAwaitTask b k) s = Inr s1" and r1: "runs_body dflt s1 ?h b ?K (?h # fs)"
    and f: "frames s f = Some fr" "susp fr = Active" "?h \<noteq> f" "frames s ?h = None"
    and s1: "s1 = s\<lparr>frames := (frames s)(f \<mapsto> fr\<lparr>susp := AtTask ?h k\<rparr>,
        ?h \<mapsto> \<lparr>is_task = True, promise_continuation = Some f, promise_result = dflt, susp = Active\<rparr>),
      next_frame := Suc ?h, current := Some (?h, b)\<rparr>" by blast
  have t1: "coro_trans dflt s s1" using CoAwaitTask.prems step by (auto simp: coro_trans_def runs_body_def)
  from CoAwaitTask.IH(1) [OF r1] show ?case
  proof (elim disjE exE conjE)
    fix s' r c assume "coro_steps dflt s1 s'" "waiting dflt s' c" "issued s' = issued s1 @ [r]"
      "bind_it (inline dflt b) ?K = IOp r c"
    then show ?thesis
      using t1 by (intro disjI1 exI [of _ s'] exI [of _ r] exI [of _ c]) (auto simp: bind_it_assoc s1)
  next
    fix s' e v assume s': "coro_steps dflt s1 s'" "current s' = Some (?h, e)" "body_end dflt e v" "same_chain s1 s'"
      and tv: "bind_it (inline dflt b) ?K = ?K v"
    define s2 where "s2 = s'\<lparr>frames := (frames s')(?h := None, f \<mapsto> fr\<lparr>susp := Active\<rparr>), current := Some (f, k v)\<rparr>"
    have "coro_step dflt ?h e s' = Inr s2"
      unfolding s2_def
      by (rule step_end [OF s'(3), where g = f and gr = "fr\<lparr>susp := AtTask ?h k\<rparr>" and k = k
            and hr = "\<lparr>is_task = True, promise_continuation = Some f, promise_result = dflt, susp = Active\<rparr>", simplified])
        (use s'(4) f(3) in \<open>simp_all add: same_chain_def s1\<close>)
    then have st: "coro_steps dflt s s2"
      using t1 s'(1,2) by (meson coro_trans_def converse_rtranclp_into_rtranclp rtranclp.rtrancl_into_rtrancl)
    have "fr\<lparr>susp := Active\<rparr> = fr" using f(2) by (cases fr) simp
    then have sc: "same_chain s s2"
      using s'(4) f CoAwaitTask.prems by (auto simp: same_chain_def s2_def s1 runs_body_def owns_chain_def fun_eq_iff)
    have "runs_body dflt s2 f (k v) K fs"
      by (rule running_same [OF CoAwaitTask.prems sc]) (simp add: s2_def)
    from CoAwaitTask.IH(2) [OF rangeI this] show ?thesis
    proof (elim disjE exE conjE)
      fix s3 r c assume "coro_steps dflt s2 s3" "waiting dflt s3 c" "issued s3 = issued s2 @ [r]"
        "bind_it (inline dflt (k v)) K = IOp r c"
      then show ?thesis
        using st sc tv by (intro disjI1 exI [of _ s3] exI [of _ r] exI [of _ c]) (auto simp: bind_it_assoc same_chain_def)
    next
      fix s3 e' v' assume "coro_steps dflt s2 s3" "current s3 = Some (f, e')" "body_end dflt e' v'" "same_chain s2 s3"
        "bind_it (inline dflt (k v)) K = K v'"
      then show ?thesis
        using st sc tv by (intro disjI2 exI [of _ s3] exI [of _ e'] exI [of _ v']) (auto simp: bind_it_assoc same_chain_def)
    qed
  qed
qed

text \<open>At the end of a task the frame that awaits it takes over, down to the fire-and-forget coroutine.\<close>

lemma run_chain:
  "runs_body dflt s f b K fs \<Longrightarrow>
   (\<exists>s' r c. coro_steps dflt s s' \<and> waiting dflt s' c \<and> issued s' = issued s @ [r] \<and>
      bind_it (inline dflt b) K = IOp r c) \<or>
   (\<exists>s' v. coro_steps dflt s s' \<and> finished s' v \<and> issued s' = issued s \<and> bind_it (inline dflt b) K = IRet v)"
proof (induction fs arbitrary: s f b K rule: length_induct)
  case (1 fs)
  from run_body [OF "1.prems"] show ?case
  proof (elim disjE)
    assume "\<exists>s' e v. coro_steps dflt s s' \<and> current s' = Some (f, e) \<and> body_end dflt e v \<and> same_chain s s' \<and>
      bind_it (inline dflt b) K = K v"
    then obtain s1 e v where s1: "coro_steps dflt s s1" "current s1 = Some (f, e)" "body_end dflt e v"
      "same_chain s s1" and tree: "bind_it (inline dflt b) K = K v" by blast
    have fr: "frames s1 = frames s" "issued s1 = issued s" using s1(4) by (simp_all add: same_chain_def)
    have r1: "owns_chain dflt s1 f K fs" "pending_op s1 = None"
      using running_same [OF "1.prems" s1(4,2)] by (simp_all add: runs_body_def)
    from r1(1) have "chain dflt (frames s1) f K fs" by (simp add: owns_chain_def)
    then show ?thesis
    proof (cases rule: chain.cases)
      case (outermost hr g gr)
      let ?s2 = "s1\<lparr>frames := (frames s1)(f := None, g \<mapsto> gr\<lparr>susp := Active\<rparr>), current := Some (g, CoReturn v)\<rparr>"
      have "coro_step dflt f e s1 = Inr ?s2" using outermost by (intro step_end [OF s1(3)]) simp_all
      then have "coro_steps dflt s ?s2" using s1(1,2) by (meson coro_trans_def rtranclp.rtrancl_into_rtrancl)
      moreover have "coro_trans dflt ?s2 (basic_end g (Some v) ?s2)"
        using outermost by (simp add: coro_trans_def with_frame_def)
      moreover have "frames s1 x = None" if "x \<noteq> f" "x \<noteq> g" for x
        using r1(1) that outermost(2) by (auto simp: owns_chain_def)
      then have "finished (basic_end g (Some v) ?s2) v"
        using r1(2) by (auto simp: finished_def basic_end_def fun_eq_iff)
      moreover have "issued (basic_end g (Some v) ?s2) = issued s" using fr by (simp add: basic_end_def)
      moreover have "bind_it (inline dflt b) K = IRet v" using tree outermost(1) by simp
      ultimately show ?thesis by (meson rtranclp.rtrancl_into_rtrancl)
    next
      case (awaited hr g gr k K' fs')
      have gf: "g \<noteq> f" "g \<in> set fs'" using chain_head [OF awaited(9)] awaited(10) by auto
      let ?s2 = "s1\<lparr>frames := (frames s1)(f := None, g \<mapsto> gr\<lparr>susp := Active\<rparr>), current := Some (g, k v)\<rparr>"
      have "coro_step dflt f e s1 = Inr ?s2" using awaited gf by (intro step_end [OF s1(3)]) simp_all
      then have st: "coro_steps dflt s ?s2" using s1(1,2) by (meson coro_trans_def rtranclp.rtrancl_into_rtrancl)
      have "chain dflt (frames ?s2) g K' fs'"
        by (rule chain_cong [OF awaited(9), of _ Active]) (use awaited(7,10) gf in auto)
      moreover have "dom (frames ?s2) = set fs'" using r1(1) awaited(2,10) gf by (auto simp: owns_chain_def)
      ultimately have "owns_chain dflt ?s2 g K' fs'" using r1(1) awaited(2) by (simp add: owns_chain_def)
      then have "runs_body dflt ?s2 g (k v) K' fs'" using r1(2) by (simp add: runs_body_def)
      moreover have "length fs' < length fs" using awaited(2) by simp
      ultimately have "(\<exists>s' r c. coro_steps dflt ?s2 s' \<and> waiting dflt s' c \<and> issued s' = issued ?s2 @ [r] \<and>
          bind_it (inline dflt (k v)) K' = IOp r c) \<or>
        (\<exists>s' v'. coro_steps dflt ?s2 s' \<and> finished s' v' \<and> issued s' = issued ?s2 \<and> bind_it (inline dflt (k v)) K' = IRet v')"
        using "1.IH" by blast
      moreover have "issued ?s2 = issued s" using fr by simp
      moreover have "bind_it (inline dflt b) K = bind_it (inline dflt (k v)) K'" using tree awaited(1) by simp
      ultimately show ?thesis
      proof (elim disjE exE conjE)
        fix s' r c assume "coro_steps dflt ?s2 s'" "waiting dflt s' c" "issued s' = issued ?s2 @ [r]"
          "bind_it (inline dflt (k v)) K' = IOp r c" "issued ?s2 = issued s"
          "bind_it (inline dflt b) K = bind_it (inline dflt (k v)) K'"
        then show ?thesis using rtranclp_trans [OF st] by (intro disjI1 exI [of _ s'] exI [of _ r] exI [of _ c]) simp
      next
        fix s' v' assume "coro_steps dflt ?s2 s'" "finished s' v'" "issued s' = issued ?s2"
          "bind_it (inline dflt (k v)) K' = IRet v'" "issued ?s2 = issued s"
          "bind_it (inline dflt b) K = bind_it (inline dflt (k v)) K'"
        then show ?thesis using rtranclp_trans [OF st] by (intro disjI2 exI [of _ s'] exI [of _ v']) simp
      qed
    qed
  qed blast
qed

lemma settle_steps:
  assumes "coro_steps dflt s s'" "current s' = None"
  shows "\<exists>N. \<forall>n\<ge>N. settle dflt n s = Some (Inr s')"
  using assms
proof (induction rule: converse_rtranclp_induct)
  case base
  then show ?case by (simp add: settle.simps)
next
  case (step s s1)
  then obtain N where N: "settle dflt n s1 = Some (Inr s')" if "n \<ge> N" for n by blast
  from step(1) obtain f b where fb: "current s = Some (f, b)" "coro_step dflt f b s = Inr s1"
    by (auto simp: coro_trans_def)
  have "settle dflt n s = Some (Inr s')" if "n \<ge> Suc N" for n
    using that N [of "n - 1"] fb by (cases n) (simp_all add: settle.simps)
  then show ?case by blast
qed

lemma resume_waiting:
  assumes "waiting dflt s c"
  obtains s' f b K fs where "resume_op v s = Inr s'" "runs_body dflt s' f b K fs" "c v = bind_it (inline dflt b) K"
    "issued s' = issued s"
proof -
  from assms obtain f k K fs fr where w: "owns_chain dflt s f K fs" "pending_op s = Some f" "frames s f = Some fr"
    "susp fr = AtOp k" "c = (\<lambda>v. bind_it (inline dflt (k v)) K)" by (auto simp: waiting_def)
  let ?s = "activate f (k v) (s\<lparr>pending_op := None\<rparr>)"
  have F: "frames ?s = (frames s)(f \<mapsto> fr\<lparr>susp := Active\<rparr>)" using w(3) by (simp add: activate_def update_frame_def)
  have "chain dflt (frames ?s) f K fs"
    by (rule chain_cong [of dflt "frames s" f K fs _ Active]) (use w(1,3) in \<open>simp_all add: F owns_chain_def\<close>)
  moreover have "dom (frames ?s) = dom (frames s)" using w(3) unfolding F by auto
  ultimately have "owns_chain dflt ?s f K fs" using w(1) by (simp add: owns_chain_def activate_def update_frame_def)
  moreover have "map_option susp (frames ?s f) = Some Active" unfolding F by simp
  ultimately have "runs_body dflt ?s f (k v) K fs" by (simp add: runs_body_def activate_def update_frame_def)
  moreover have "resume_op v s = Inr ?s" using w by (simp add: resume_op_def with_frame_def)
  moreover have "issued ?s = issued s" by (simp add: activate_def update_frame_def)
  ultimately show thesis using that w(5) by blast
qed

text \<open>Driving a chain of coroutines with the results of the operations.\<close>

lemma drive_finished: "finished s v \<Longrightarrow> drive dflt n vs s = Some (Inr s)"
  by (induction vs) (simp_all add: finished_def settle.simps resume_op_def)

lemma drive_step:
  assumes "\<And>n. n \<ge> N \<Longrightarrow> settle dflt n s = Some (Inr s')" "current s' = None" "n \<ge> N"
  shows "drive dflt n vs s = drive dflt n vs s'"
proof (cases vs)
  case Nil
  then show ?thesis using assms by (simp add: settle.simps [of _ _ s'])
next
  case (Cons v vs')
  have "settle dflt n s' = Some (Inr s')" using assms(2) by (simp add: settle.simps)
  with Cons assms(1,3) show ?thesis by simp
qed

lemma drive_running:
  assumes "coro_steps dflt s0 s" "runs_body dflt s f b K fs"
  shows "\<exists>N. \<forall>n\<ge>N. \<exists>s'. drive dflt n vs s0 = Some (Inr s') \<and>
    issued s' = issued s @ fst (it_run (bind_it (inline dflt b) K) vs) \<and>
    delivered s' = snd (it_run (bind_it (inline dflt b) K) vs) \<and>
    (frames s' = Map.empty \<longleftrightarrow> delivered s' \<noteq> None)"
  using assms
proof (induction vs arbitrary: s0 s f b K fs)
  case Nil
  from run_chain [OF Nil(2)] show ?case
  proof (elim disjE exE conjE)
    fix s1 r c assume s1: "coro_steps dflt s s1" "waiting dflt s1 c" "issued s1 = issued s @ [r]"
      "bind_it (inline dflt b) K = IOp r c"
    have w: "current s1 = None" "delivered s1 = None" "frames s1 \<noteq> Map.empty"
      using s1(2) chain_head by (fastforce simp: waiting_def owns_chain_def)+
    from settle_steps [OF rtranclp_trans [OF Nil(1) s1(1)] w(1)] obtain N where "\<And>n. n \<ge> N \<Longrightarrow> settle dflt n s0 = Some (Inr s1)" by blast
    with s1(3,4) w show ?thesis by (intro exI [of _ N]) auto
  next
    fix s1 v assume s1: "coro_steps dflt s s1" "finished s1 v" "issued s1 = issued s" "bind_it (inline dflt b) K = IRet v"
    from settle_steps [OF rtranclp_trans [OF Nil(1) s1(1)]] s1(2) obtain N where "\<And>n. n \<ge> N \<Longrightarrow> settle dflt n s0 = Some (Inr s1)"
      by (auto simp: finished_def)
    with s1 show ?thesis by (intro exI [of _ N]) (auto simp: finished_def)
  qed
next
  case (Cons v vs)
  from run_chain [OF Cons.prems(2)] show ?case
  proof (elim disjE exE conjE)
    fix s1 r c assume s1: "coro_steps dflt s s1" "waiting dflt s1 c" "issued s1 = issued s @ [r]"
      "bind_it (inline dflt b) K = IOp r c"
    have cur: "current s1 = None" using s1(2) by (auto simp: waiting_def)
    from settle_steps [OF rtranclp_trans [OF Cons.prems(1) s1(1)] cur] obtain N where N: "\<And>n. n \<ge> N \<Longrightarrow> settle dflt n s0 = Some (Inr s1)" by blast
    from resume_waiting [OF s1(2), of v] obtain s2 f' b' K' fs' where s2: "resume_op v s1 = Inr s2"
      "runs_body dflt s2 f' b' K' fs'" "c v = bind_it (inline dflt b') K'" "issued s2 = issued s1" by blast
    from Cons.IH [OF rtranclp.rtrancl_refl s2(2)] obtain M where M: "\<And>n. n \<ge> M \<Longrightarrow> \<exists>s'. drive dflt n vs s2 = Some (Inr s') \<and>
      issued s' = issued s2 @ fst (it_run (bind_it (inline dflt b') K') vs) \<and>
      delivered s' = snd (it_run (bind_it (inline dflt b') K') vs) \<and> (frames s' = Map.empty \<longleftrightarrow> delivered s' \<noteq> None)" by blast
    have "drive dflt n (v # vs) s0 = drive dflt n vs s2" if "n \<ge> N" for n using N [OF that] s2(1) by simp
    then show ?thesis
      using M s1(3,4) s2(3,4)
      by (intro exI [of _ "max N M"]) (auto simp: case_prod_unfold Let_def)
  next
    fix s1 x assume s1: "coro_steps dflt s s1" "finished s1 x" "issued s1 = issued s" "bind_it (inline dflt b) K = IRet x"
    have cur: "current s1 = None" using s1(2) by (simp add: finished_def)
    from settle_steps [OF rtranclp_trans [OF Cons.prems(1) s1(1)] cur] obtain N where N: "\<And>n. n \<ge> N \<Longrightarrow> settle dflt n s0 = Some (Inr s1)" by blast
    have "drive dflt n (v # vs) s0 = Some (Inr s1)" if "n \<ge> N" for n
      by (rule trans [OF drive_step [OF N cur that] drive_finished [OF s1(2)]])
    with s1(2-4) show ?thesis by (intro exI [of _ N]) (auto simp: finished_def)
  qed
qed

lemma fireAndForget_running:
  "\<exists>s1. coro_step dflt 0 (CoAwaitTask b CoReturn) (fireAndForget dflt b) = Inr s1 \<and> runs_body dflt s1 1 b IRet [1, 0] \<and> issued s1 = []"
proof -
  let ?hr = "\<lparr>is_task = True, promise_continuation = Some 0, promise_result = dflt, susp = Active\<rparr>"
  let ?gr = "\<lparr>is_task = False, promise_continuation = None, promise_result = dflt, susp = AtTask 1 CoReturn\<rparr>"
  let ?s = "\<lparr>frames = [0 \<mapsto> ?gr, 1 \<mapsto> ?hr], next_frame = 2, current = Some (1, b), pending_op = None,
    issued = [], delivered = None\<rparr>"
  have "coro_step dflt 0 (CoAwaitTask b CoReturn) (fireAndForget dflt b) = Inr ?s"
    by (simp add: fireAndForget_def coro_defs numeral_2_eq_2)
  moreover have "chain dflt (frames ?s) 1 IRet [1, 0]"
    by (rule chain.outermost [where fr = ?hr and gr = ?gr]) simp_all
  then have "runs_body dflt ?s 1 b IRet [1, 0]" by (auto simp: runs_body_def owns_chain_def)
  ultimately show ?thesis by (intro exI [of _ ?s]) simp
qed

subsection \<open>Properties\<close>

text \<open>
  C7: Awaiting tasks is running their code in place. A coroutine whose code calls and awaits tasks to any
  depth, started with \<^verbatim>\<open>fireAndForget\<close> and driven by any results of the operations it awaits, issues exactly the
  operations, in the order and with the value at the end, of the program in which the code of every task
  stands where the task is awaited. It gets from one operation to the next in finitely many steps, nothing
  on the way is undefined behaviour, every frame is destroyed by the time it delivers its value, and a task
  that throws delivers the default value of its result type without any other sign of the exception.
\<close>

theorem task_inline_equivalence:
  "\<exists>N. \<forall>n\<ge>N. \<exists>s. drive dflt n vs (fireAndForget dflt b) = Some (Inr s) \<and>
     issued s = fst (it_run (inline dflt b) vs) \<and> delivered s = snd (it_run (inline dflt b) vs) \<and>
     (frames s = Map.empty \<longleftrightarrow> delivered s \<noteq> None)"
proof -
  from fireAndForget_running [of dflt b] obtain s1 where
    s1: "coro_step dflt 0 (CoAwaitTask b CoReturn) (fireAndForget dflt b) = Inr s1" "runs_body dflt s1 1 b IRet [1, 0]"
    "issued s1 = []" by blast
  have "coro_steps dflt (fireAndForget dflt b) s1"
    using s1(1) by (intro r_into_rtranclp) (auto simp: coro_trans_def fireAndForget_def)
  from drive_running [OF this s1(2), of vs] show ?thesis unfolding bind_it_IRet s1(3) append_Nil .
qed

text \<open>A task that receives and throws when the connection was closed, awaited by one that sends.\<close>

definition echo_once :: "(string, int) body" where
  "echo_once = CoAwaitTask (CoAwaitOp ''recv'' (\<lambda>n. if n = 0 then CoThrow else CoReturn n)) (\<lambda>n. CoAwaitOp ''send'' CoReturn)"

theorem task_inline_equivalence_witness:
  "\<exists>n s. drive 99 n [0, 5] (fireAndForget 99 echo_once) = Some (Inr s) \<and> issued s = [''recv'', ''send''] \<and> delivered s = Some 5"
proof -
  from task_inline_equivalence [of 99 "[0, 5]" echo_once] obtain N where
    "\<forall>n\<ge>N. \<exists>s. drive 99 n [0, 5] (fireAndForget 99 echo_once) = Some (Inr s) \<and>
       issued s = fst (it_run (inline 99 echo_once) [0, 5]) \<and> delivered s = snd (it_run (inline 99 echo_once) [0, 5]) \<and>
       (frames s = Map.empty \<longleftrightarrow> delivered s \<noteq> None)" by blast
  then obtain s where "drive 99 N [0, 5] (fireAndForget 99 echo_once) = Some (Inr s)"
    "issued s = fst (it_run (inline 99 echo_once) [0, 5])" "delivered s = snd (it_run (inline 99 echo_once) [0, 5])" by blast
  then show ?thesis by (intro exI [of _ N] exI [of _ s]) (simp add: echo_once_def)
qed

subsection \<open>Ownership of frames\<close>

definition task_alive :: "task_objects \<Rightarrow> nat \<Rightarrow> bool" where
  "task_alive s i \<longleftrightarrow> i < length (t_handles s) \<and> t_handles s ! i \<noteq> None"

text \<open>What a client may do: use objects that exist, and not move a task to itself.\<close>

definition task_allowed :: "task_op \<Rightarrow> task_objects \<Rightarrow> bool" where
  "task_allowed oper s =
     (case oper of
        TaskMove j \<Rightarrow> task_alive s j
      | TaskAssign i j \<Rightarrow> task_alive s i \<and> task_alive s j \<and> i \<noteq> j
      | TaskDestroy i \<Rightarrow> task_alive s i
      | _ \<Rightarrow> True)"

definition task_owned :: "task_objects \<Rightarrow> bool" where
  "task_owned s \<longleftrightarrow> handles_ok (t_handles s) (t_frames s) (t_next s)"

lemma task_aliveE:
  assumes "task_alive s i"
  obtains h where "i < length (t_handles s)" "t_handles s ! i = Some h"
  using assms by (auto simp: task_alive_def)

text \<open>Destroying the frame of an object and leaving the object empty or gone.\<close>

lemma destroy_owned:
  assumes "task_owned s" "i < length (t_handles s)" "t_handles s ! i = Some h" "handle_of x = {#}"
  obtains F where "destroy_handle h s = Inr (s\<lparr>t_frames := F\<rparr>)" "handles_ok ((t_handles s)[i := x]) F (t_next s)"
  using drop_handle_ok [OF _ assms(2-4), of "t_frames s" "t_next s"] assms(1)
  by (auto simp: task_owned_def destroy_handle_def)

lemma task_apply_ok:
  assumes inv: "task_owned s" and ok: "task_allowed oper s"
  shows "\<exists>s'. task_apply oper s = Inr s' \<and> task_owned s'"
proof (cases oper)
  case TaskCall
  with inv show ?thesis by (simp add: task_owned_def handles_fresh)
next
  case TaskDefault
  with inv show ?thesis by (simp add: task_owned_def handles_empty)
next
  case (TaskMove j)
  with ok have "task_alive s j" by (simp add: task_allowed_def)
  then obtain h where "j < length (t_handles s)" "t_handles s ! j = Some h"
    by (rule task_aliveE)
  with inv TaskMove handles_move_new [of "t_handles s" "t_frames s" "t_next s" j] show ?thesis
    by (simp add: task_owned_def Task_move_def with_task_def)
next
  case (TaskAssign i j)
  with ok have a: "task_alive s i" "task_alive s j" "i \<noteq> j" by (simp_all add: task_allowed_def)
  from a(1) obtain h where i: "i < length (t_handles s)" "t_handles s ! i = Some h"
    by (rule task_aliveE)
  from a(2) obtain g where j: "j < length (t_handles s)" "t_handles s ! j = Some g"
    by (rule task_aliveE)
  obtain F where F: "destroy_handle h s = Inr (s\<lparr>t_frames := F\<rparr>)" "handles_ok ((t_handles s)[i := Some None]) F (t_next s)"
    by (rule destroy_owned [OF inv i, of "Some None"]) simp_all
  have "handles_ok ((t_handles s)[i := Some None, j := Some None, i := Some g]) F (t_next s)"
    using handles_move [OF F(2), of i j] i(1) j(1,2) a(3) by simp
  moreover have "(t_handles s)[i := Some None, j := Some None, i := Some g] = (t_handles s)[j := Some None, i := Some g]"
    using a(3) by (simp add: list_update_swap)
  ultimately show ?thesis using TaskAssign F(1) i j by (simp add: task_assign_def task_owned_def with_task_def)
next
  case (TaskDestroy i)
  with ok have "task_alive s i" by (simp add: task_allowed_def)
  then obtain h where i: "i < length (t_handles s)" "t_handles s ! i = Some h"
    by (rule task_aliveE)
  obtain F where "destroy_handle h s = Inr (s\<lparr>t_frames := F\<rparr>)" "handles_ok ((t_handles s)[i := None]) F (t_next s)"
    by (rule destroy_owned [OF inv i, of None]) simp_all
  with TaskDestroy i show ?thesis by (simp add: task_owned_def with_task_def)
qed

interpretation task: safe_owner task_apply task_allowed task_owned
proof unfold_locales
  fix s x s' assume "task_owned s" "task_allowed x s" "task_apply x s = Inr s'"
  then show "task_owned s'" using task_apply_ok by fastforce
next
  fix s x assume "task_owned s" "task_allowed x s"
  then show "\<exists>s'. task_apply x s = Inr s'" using task_apply_ok by blast
qed

definition no_tasks :: task_objects where
  "no_tasks = \<lparr>t_handles = [], t_frames = {}, t_next = 0\<rparr>"

lemma no_tasks_owned: "task_owned no_tasks"
  by (simp add: task_owned_def no_tasks_def handles_ok_def)

text \<open>
  C20: Coroutine frames have exactly one owner. After any history of calls, moves, move assignments and
  destructions of tasks that exist, in which no task is moved to itself, the frames that exist are exactly
  the ones tasks own, each by one task; no frame is destroyed twice on the way, and none is left when all
  tasks are gone. The condition is needed: \<open>task_self_move\<close> shows that assigning a task to itself destroys its frame twice.
\<close>

theorem task_ownership:
  assumes "admissible task_apply task_allowed ops no_tasks"
  shows "\<exists>s. foldE task_apply ops no_tasks = Inr s \<and> held handle_of (t_handles s) = mset_set (t_frames s) \<and>
    ((\<forall>i<length (t_handles s). t_handles s ! i = None) \<longrightarrow> t_frames s = {})"
proof -
  from task.history_safe [OF no_tasks_owned assms] obtain s where
    s: "foldE task_apply ops no_tasks = Inr s" "handles_ok (t_handles s) (t_frames s) (t_next s)"
    by (auto simp: task_owned_def)
  have "held handle_of xs = {#}" if "\<forall>i<length xs. xs ! i = None" for xs
    using that by (induction xs) (auto simp: nth_Cons All_less_Suc2)
  with s handles_finite [OF s(2)] show ?thesis by (auto simp: handles_ok_def mset_set_empty_iff)
qed

theorem task_ownership_witness:
  "\<exists>s. foldE task_apply [TaskCall, TaskMove 0, TaskCall, TaskAssign 1 2, TaskDestroy 0, TaskDestroy 1] no_tasks = Inr s \<and>
     held handle_of (t_handles s) = mset_set (t_frames s) \<and> t_frames s = {}"
proof -
  let ?ops = "[TaskCall, TaskMove 0, TaskCall, TaskAssign 1 2, TaskDestroy 0, TaskDestroy 1]"
  note defs = no_tasks_def task_allowed_def task_alive_def with_task_def Task_move_def task_assign_def
    destroy_handle_def drop_handle_def
  have "admissible task_apply task_allowed ?ops no_tasks" by (simp add: defs)
  from task_ownership [OF this] show ?thesis by (auto simp: defs)
qed

text \<open>
  Moving a task to itself destroys its frame and keeps the dangling handle: the destructor is then
  undefined behaviour.
\<close>

lemma task_self_move: "foldE task_apply [TaskCall, TaskAssign 0 0, TaskDestroy 0] no_tasks = Inl UndefinedBehaviour"
  by (simp add: no_tasks_def with_task_def task_assign_def destroy_handle_def drop_handle_def)

end
