(* ===== verification/Callable.thy ===== *)
theory Callable
  imports Ownership
begin

text \<open>
  The move-only function wrapper (\<^verbatim>\<open>function.hpp\<close>): every \<^verbatim>\<open>Function\<close> holds a \<^verbatim>\<open>unique_ptr\<close> to a heap-allocated
  callable, or none. The signature and the code of the stored callable are left open; the model follows which
  callable is stored where, which one a call reaches, and when one is deleted.
\<close>

subsection \<open>Objects and operations\<close>

record function_objects =
  fn_slots :: "nat option option list"
  fn_live :: "nat set"
  fn_next :: nat
  fn_called :: "nat list"

datatype function_op =
    FnDefault
  | FnNew
  | FnMove nat
  | FnAssignFunc nat
  | FnAssign nat nat
  | FnAssignNull nat
  | FnCall nat
  | FnDestroy nat

definition with_function :: "nat \<Rightarrow> function_objects \<Rightarrow> (nat option \<Rightarrow> 'b outcome) \<Rightarrow> 'b outcome" where
  "with_function i s m =
     (if i < length (fn_slots s)
      then (case fn_slots s ! i of None \<Rightarrow> Inl UndefinedBehaviour | Some h \<Rightarrow> m h)
      else Inl UndefinedBehaviour)"

definition function_bool :: "nat option \<Rightarrow> bool" where
  "function_bool callable \<longleftrightarrow> callable \<noteq> None"

text \<open>\<^verbatim>\<open>unique_ptr::reset\<close>: the new pointer is stored, then the old callable is deleted.\<close>

definition unique_reset :: "nat \<Rightarrow> nat option \<Rightarrow> function_objects \<Rightarrow> function_objects outcome" where
  "unique_reset i p s = with_function i s (\<lambda>old.
     bindE (drop_handle old (fn_live s)) (\<lambda>L. Inr (s\<lparr>fn_slots := (fn_slots s)[i := Some p], fn_live := L\<rparr>)))"

definition new_callable :: "function_objects \<Rightarrow> nat \<times> function_objects" where
  "new_callable s = (fn_next s, s\<lparr>fn_live := insert (fn_next s) (fn_live s), fn_next := Suc (fn_next s)\<rparr>)"

definition Function_new :: "function_objects \<Rightarrow> function_objects" where
  "Function_new s = (let (f, s') = new_callable s in s'\<lparr>fn_slots := fn_slots s' @ [Some (Some f)]\<rparr>)"

definition Function_move :: "nat \<Rightarrow> function_objects \<Rightarrow> function_objects outcome" where
  "Function_move j s = with_function j s (\<lambda>h.
     Inr (s\<lparr>fn_slots := (fn_slots s)[j := Some None] @ [Some h]\<rparr>))"

definition function_assign_func :: "nat \<Rightarrow> function_objects \<Rightarrow> function_objects outcome" where
  "function_assign_func i s = (let (f, s') = new_callable s in unique_reset i (Some f) s')"

text \<open>Move assignment of a \<^verbatim>\<open>unique_ptr\<close>: \<^verbatim>\<open>reset(other.release())\<close>.\<close>

definition function_assign :: "nat \<Rightarrow> nat \<Rightarrow> function_objects \<Rightarrow> function_objects outcome" where
  "function_assign i j s = with_function j s (\<lambda>h. unique_reset i h (s\<lparr>fn_slots := (fn_slots s)[j := Some None]\<rparr>))"

text \<open>The call goes through the pointer without looking at it.\<close>

definition function_call :: "nat \<Rightarrow> function_objects \<Rightarrow> function_objects outcome" where
  "function_call i s = with_function i s (\<lambda>h.
     case h of
       None \<Rightarrow> Inl UndefinedBehaviour
     | Some f \<Rightarrow> if f \<in> fn_live s then Inr (s\<lparr>fn_called := fn_called s @ [f]\<rparr>) else Inl UndefinedBehaviour)"

primrec function_apply :: "function_op \<Rightarrow> function_objects \<Rightarrow> function_objects outcome" where
  "function_apply FnDefault s = Inr (s\<lparr>fn_slots := fn_slots s @ [Some None]\<rparr>)"
| "function_apply FnNew s = Inr (Function_new s)"
| "function_apply (FnMove j) s = Function_move j s"
| "function_apply (FnAssignFunc i) s = function_assign_func i s"
| "function_apply (FnAssign i j) s = function_assign i j s"
| "function_apply (FnAssignNull i) s = unique_reset i None s"
| "function_apply (FnCall i) s = function_call i s"
| "function_apply (FnDestroy i) s =
     bindE (unique_reset i None s) (\<lambda>s'. Inr (s'\<lparr>fn_slots := (fn_slots s')[i := None]\<rparr>))"

subsection \<open>Ownership of callables\<close>

definition fn_alive :: "function_objects \<Rightarrow> nat \<Rightarrow> bool" where
  "fn_alive s i \<longleftrightarrow> i < length (fn_slots s) \<and> fn_slots s ! i \<noteq> None"

text \<open>A client uses objects that exist and calls only those that hold a callable.\<close>

definition function_allowed :: "function_op \<Rightarrow> function_objects \<Rightarrow> bool" where
  "function_allowed oper s =
     (case oper of
        FnMove j \<Rightarrow> fn_alive s j
      | FnAssignFunc i \<Rightarrow> fn_alive s i
      | FnAssign i j \<Rightarrow> fn_alive s i \<and> fn_alive s j
      | FnAssignNull i \<Rightarrow> fn_alive s i
      | FnCall i \<Rightarrow> fn_alive s i \<and> function_bool (the (fn_slots s ! i))
      | FnDestroy i \<Rightarrow> fn_alive s i
      | _ \<Rightarrow> True)"

definition function_owned :: "function_objects \<Rightarrow> bool" where
  "function_owned s \<longleftrightarrow> handles_ok (fn_slots s) (fn_live s) (fn_next s)"

lemma fn_aliveE:
  assumes "fn_alive s i"
  obtains h where "i < length (fn_slots s)" "fn_slots s ! i = Some h"
  using assms by (auto simp: fn_alive_def)

text \<open>Resetting an object to nothing, which the other assignments start from.\<close>

lemma reset_null:
  assumes "function_owned s" "fn_alive s i"
  obtains L where "unique_reset i None s = Inr (s\<lparr>fn_slots := (fn_slots s)[i := Some None], fn_live := L\<rparr>)"
    "handles_ok ((fn_slots s)[i := Some None]) L (fn_next s)"
proof -
  from assms(2) obtain h where i: "i < length (fn_slots s)" "fn_slots s ! i = Some h" by (rule fn_aliveE)
  from drop_handle_ok [OF _ i, of "fn_live s" "fn_next s" "Some None"] assms(1) i that show thesis
    by (auto simp: function_owned_def unique_reset_def with_function_def)
qed

lemma assign_func_owned:
  assumes "function_owned s" "fn_alive s i"
  shows "\<exists>s'. function_assign_func i s = Inr s' \<and> function_owned s'"
proof -
  from assms(2) obtain h where i: "i < length (fn_slots s)" "fn_slots s ! i = Some h" by (rule fn_aliveE)
  have ok: "handles_ok (fn_slots s) (fn_live s) (fn_next s)" using assms(1) by (simp add: function_owned_def)
  from drop_handle_ok [OF ok i, of "Some None"] obtain L where
    L: "drop_handle h (fn_live s) = Inr L" "handles_ok ((fn_slots s)[i := Some None]) L (fn_next s)" by auto
  have "drop_handle h (insert (fn_next s) (fn_live s)) = Inr (insert (fn_next s) L)"
  proof (cases h)
    case (Some r)
    with handles_live [OF ok i(1)] i(2) ok L(1) show ?thesis
      by (auto simp: drop_handle_def handles_ok_def split: if_splits)
  qed (use L(1) in \<open>simp add: drop_handle_def\<close>)
  moreover have "handles_ok ((fn_slots s)[i := Some (Some (fn_next s))]) (insert (fn_next s) L) (Suc (fn_next s))"
    using handles_fill [OF L(2), of i] i(1) by simp
  ultimately show ?thesis
    using i by (simp add: function_assign_func_def new_callable_def unique_reset_def with_function_def function_owned_def)
qed

lemma assign_owned:
  assumes "function_owned s" "fn_alive s i" "fn_alive s j"
  shows "\<exists>s'. function_assign i j s = Inr s' \<and> function_owned s'"
proof -
  from assms(2) obtain h where i: "i < length (fn_slots s)" "fn_slots s ! i = Some h" by (rule fn_aliveE)
  from assms(3) obtain g where j: "j < length (fn_slots s)" "fn_slots s ! j = Some g" by (rule fn_aliveE)
  have ok: "handles_ok (fn_slots s) (fn_live s) (fn_next s)" using assms(1) by (simp add: function_owned_def)
  show ?thesis
  proof (cases "i = j")
    case True
    with i j have "(fn_slots s)[i := Some g] = fn_slots s" by (simp add: list_update_same_conv)
    with True j ok show ?thesis
      by (simp add: function_assign_def with_function_def unique_reset_def drop_handle_def function_owned_def)
  next
    case False
    from drop_handle_ok [OF ok i, of "Some None"] obtain L where
      L: "drop_handle h (fn_live s) = Inr L" "handles_ok ((fn_slots s)[i := Some None]) L (fn_next s)" by auto
    have "handles_ok ((fn_slots s)[i := Some None, j := Some None, i := Some g]) L (fn_next s)"
      using handles_move [OF L(2), of i j] i(1) j False by simp
    moreover have "(fn_slots s)[i := Some None, j := Some None, i := Some g] = (fn_slots s)[j := Some None, i := Some g]"
      using False by (simp add: list_update_swap)
    ultimately show ?thesis
      using L(1) i j False by (simp add: function_assign_def with_function_def unique_reset_def function_owned_def)
  qed
qed

lemma function_apply_ok:
  assumes inv: "function_owned s" and ok: "function_allowed oper s"
  shows "\<exists>s'. function_apply oper s = Inr s' \<and> function_owned s'"
proof (cases oper)
  case FnDefault
  with inv show ?thesis by (simp add: function_owned_def handles_empty)
next
  case FnNew
  with inv show ?thesis by (simp add: function_owned_def Function_new_def new_callable_def handles_fresh)
next
  case (FnMove j)
  with ok have "fn_alive s j" by (simp add: function_allowed_def)
  then obtain h where "j < length (fn_slots s)" "fn_slots s ! j = Some h" by (rule fn_aliveE)
  with inv FnMove handles_move_new [of "fn_slots s" "fn_live s" "fn_next s" j] show ?thesis
    by (simp add: function_owned_def Function_move_def with_function_def)
next
  case (FnAssignFunc i)
  with ok assign_func_owned [OF inv] show ?thesis by (simp add: function_allowed_def)
next
  case (FnAssign i j)
  with ok assign_owned [OF inv] show ?thesis by (simp add: function_allowed_def)
next
  case (FnAssignNull i)
  with ok have "fn_alive s i" by (simp add: function_allowed_def)
  obtain L where "unique_reset i None s = Inr (s\<lparr>fn_slots := (fn_slots s)[i := Some None], fn_live := L\<rparr>)"
    "handles_ok ((fn_slots s)[i := Some None]) L (fn_next s)" by (rule reset_null [OF inv \<open>fn_alive s i\<close>])
  with FnAssignNull show ?thesis by (simp add: function_owned_def)
next
  case (FnCall i)
  with ok have a: "fn_alive s i" "function_bool (the (fn_slots s ! i))" by (simp_all add: function_allowed_def)
  from a(1) obtain h where i: "i < length (fn_slots s)" "fn_slots s ! i = Some h" by (rule fn_aliveE)
  with a(2) obtain f where f: "h = Some f" by (auto simp: function_bool_def)
  have "f \<in> fn_live s" using handles_live [OF _ i(1)] inv i(2) f by (simp add: function_owned_def)
  with FnCall i f inv show ?thesis by (simp add: function_call_def with_function_def function_owned_def)
next
  case (FnDestroy i)
  with ok have "fn_alive s i" by (simp add: function_allowed_def)
  from reset_null [OF inv this] obtain L where
    L: "unique_reset i None s = Inr (s\<lparr>fn_slots := (fn_slots s)[i := Some None], fn_live := L\<rparr>)"
    "handles_ok ((fn_slots s)[i := Some None]) L (fn_next s)" .
  from \<open>fn_alive s i\<close> have "i < length (fn_slots s)" by (simp add: fn_alive_def)
  then have "handles_ok ((fn_slots s)[i := None]) L (fn_next s)"
    using handles_replace [OF L(2), of i None] by simp
  with L(1) FnDestroy show ?thesis by (simp add: function_owned_def)
qed

interpretation callable: safe_owner function_apply function_allowed function_owned
proof unfold_locales
  fix s x s' assume "function_owned s" "function_allowed x s" "function_apply x s = Inr s'"
  then show "function_owned s'" using function_apply_ok by fastforce
next
  fix s x assume "function_owned s" "function_allowed x s"
  then show "\<exists>s'. function_apply x s = Inr s'" using function_apply_ok by blast
qed

definition no_functions :: function_objects where
  "no_functions = \<lparr>fn_slots = [], fn_live = {}, fn_next = 0, fn_called = []\<rparr>"

lemma no_functions_owned: "function_owned no_functions"
  by (simp add: function_owned_def no_functions_def handles_ok_def)

text \<open>
  C37: A callable belongs to exactly one \<^verbatim>\<open>Function\<close> until it is deleted. After any history of constructions, moves,
  assignments (to itself included), calls of functions that hold something, and destructions, the callables
  that exist are exactly those some object holds, each held once, and nothing on the way was undefined: no
  callable is deleted twice or called after it is gone.
\<close>

theorem function_ownership:
  assumes "admissible function_apply function_allowed ops no_functions"
  shows "\<exists>s. foldE function_apply ops no_functions = Inr s \<and> held handle_of (fn_slots s) = mset_set (fn_live s)"
  using callable.history_safe [OF no_functions_owned assms] by (auto simp: function_owned_def handles_ok_def)

theorem function_ownership_witness:
  "\<exists>s. foldE function_apply [FnNew, FnMove 0, FnCall 1, FnAssign 1 1, FnAssignFunc 1, FnCall 1] no_functions = Inr s \<and>
     held handle_of (fn_slots s) = mset_set (fn_live s) \<and> fn_called s = [0, 1] \<and> fn_live s = {1}"
proof -
  let ?ops = "[FnNew, FnMove 0, FnCall 1, FnAssign 1 1, FnAssignFunc 1, FnCall 1]"
  note defs = no_functions_def function_allowed_def fn_alive_def with_function_def Function_new_def new_callable_def
    Function_move_def function_call_def function_assign_def function_assign_func_def unique_reset_def drop_handle_def
    function_bool_def
  have "admissible function_apply function_allowed ?ops no_functions" by (simp add: defs)
  from function_ownership [OF this] show ?thesis by (auto simp: defs)
qed

end
