(* ===== verification/ThreadPool.thy ===== *)
theory ThreadPool
  imports Aiopp_Prelude
begin

text \<open>
  The thread pool (\<^verbatim>\<open>threadpool.hpp\<close>, \<^verbatim>\<open>threadpool.cpp\<close>): worker threads that wait on a condition variable
  for tasks, threads that push tasks, and the destructor. Every lock operation, every access to
  \<^verbatim>\<open>running_\<close> and every notification is one step. Waiting on the condition variable is two steps: the
  predicate is evaluated with the lock held, and then the thread releases the lock and blocks in one
  step; a blocked thread is woken by a notification or spuriously.
\<close>

subsection \<open>State\<close>

datatype 'f worker_pc = WLoad | WAcquire | WPred | WBlock | WWaiting | WWoken | WCheck | WRun 'f | WDone

datatype 'f push_pc = PIdle | PLock 'f | PPush 'f | PNotify

datatype dtor_pc = DNone | DNotify | DJoin | DDone

datatype lock_owner = Worker nat | Pusher nat

record 'f pool =
  running :: bool
  num_threads :: nat
  workers :: "nat \<Rightarrow> 'f worker_pc"
  pushers :: "nat \<Rightarrow> 'f push_pc"
  dtor :: dtor_pc
  tasks :: "'f list"
  tasksMutex :: "lock_owner option"
  front_of_empty :: bool
  pushed :: "'f list"
  started :: "'f list"

definition ThreadPool :: "nat \<Rightarrow> 'f pool" where
  "ThreadPool numThreads =
     (let n = max 1 numThreads in
      \<lparr>running = True, num_threads = n, workers = (\<lambda>w. if w < n then WLoad else WDone),
       pushers = (\<lambda>_. PIdle), dtor = DNone, tasks = [], tasksMutex = None, front_of_empty = False,
       pushed = [], started = []\<rparr>)"

subsection \<open>Steps\<close>

definition set_worker :: "nat \<Rightarrow> 'f worker_pc \<Rightarrow> 'f pool \<Rightarrow> 'f pool" where
  "set_worker w pc s = s\<lparr>workers := (workers s)(w := pc)\<rparr>"

definition worker_load :: "nat \<Rightarrow> 'f pool \<Rightarrow> 'f pool" where
  "worker_load w s = set_worker w (if running s then WAcquire else WDone) s"

definition worker_acquire :: "nat \<Rightarrow> 'f pool \<Rightarrow> 'f pool" where
  "worker_acquire w s = set_worker w WPred (s\<lparr>tasksMutex := Some (Worker w)\<rparr>)"

definition worker_pred :: "nat \<Rightarrow> 'f pool \<Rightarrow> 'f pool" where
  "worker_pred w s = set_worker w (if tasks s \<noteq> [] \<or> \<not> running s then WCheck else WBlock) s"

definition worker_block :: "nat \<Rightarrow> 'f pool \<Rightarrow> 'f pool" where
  "worker_block w s = set_worker w WWaiting (s\<lparr>tasksMutex := None\<rparr>)"

definition worker_wake :: "nat \<Rightarrow> 'f pool \<Rightarrow> 'f pool" where
  "worker_wake w s = set_worker w WWoken s"

text \<open>The second load of \<^verbatim>\<open>running_\<close> and, if it is set, taking the first task and unlocking.\<close>

definition worker_check :: "nat \<Rightarrow> 'f pool \<Rightarrow> 'f pool" where
  "worker_check w s =
     (if running s
      then (case tasks s of
              [] \<Rightarrow> s\<lparr>front_of_empty := True\<rparr>
            | f # fs \<Rightarrow> set_worker w (WRun f) (s\<lparr>tasks := fs, started := started s @ [f], tasksMutex := None\<rparr>))
      else set_worker w WLoad (s\<lparr>tasksMutex := None\<rparr>))"

definition worker_run :: "nat \<Rightarrow> 'f pool \<Rightarrow> 'f pool" where
  "worker_run w s = set_worker w WLoad s"

definition push_call :: "nat \<Rightarrow> 'f \<Rightarrow> 'f pool \<Rightarrow> 'f pool" where
  "push_call t f s = s\<lparr>pushers := (pushers s)(t := PLock f)\<rparr>"

definition push_lock :: "nat \<Rightarrow> 'f \<Rightarrow> 'f pool \<Rightarrow> 'f pool" where
  "push_lock t f s = s\<lparr>tasksMutex := Some (Pusher t), pushers := (pushers s)(t := PPush f)\<rparr>"

definition push_task :: "nat \<Rightarrow> 'f \<Rightarrow> 'f pool \<Rightarrow> 'f pool" where
  "push_task t f s =
     s\<lparr>tasks := tasks s @ [f], pushed := pushed s @ [f], tasksMutex := None, pushers := (pushers s)(t := PNotify)\<rparr>"

text \<open>\<^verbatim>\<open>notify_one\<close> wakes one blocked thread, if there is one.\<close>

definition push_notify :: "nat \<Rightarrow> nat option \<Rightarrow> 'f pool \<Rightarrow> 'f pool" where
  "push_notify t woken s =
     (case woken of None \<Rightarrow> s | Some w \<Rightarrow> worker_wake w s)\<lparr>pushers := (pushers s)(t := PIdle)\<rparr>"

definition dtor_stop :: "'f pool \<Rightarrow> 'f pool" where
  "dtor_stop s = s\<lparr>running := False, dtor := DNotify\<rparr>"

definition dtor_notify :: "'f pool \<Rightarrow> 'f pool" where
  "dtor_notify s = s\<lparr>workers := (\<lambda>w. if workers s w = WWaiting then WWoken else workers s w), dtor := DJoin\<rparr>"

definition dtor_join :: "'f pool \<Rightarrow> 'f pool" where
  "dtor_join s = s\<lparr>dtor := DDone\<rparr>"

lemmas pool_ops [step_simps] = set_worker_def worker_load_def worker_acquire_def worker_pred_def worker_block_def
  worker_wake_def worker_check_def worker_run_def push_call_def push_lock_def push_task_def push_notify_def
  dtor_stop_def dtor_notify_def dtor_join_def

inductive pool_step :: "'f pool \<Rightarrow> 'f pool \<Rightarrow> bool" where
  load: "workers s w = WLoad \<Longrightarrow> pool_step s (worker_load w s)"
| acquire: "workers s w = WAcquire \<or> workers s w = WWoken \<Longrightarrow> tasksMutex s = None \<Longrightarrow> pool_step s (worker_acquire w s)"
| pred: "workers s w = WPred \<Longrightarrow> pool_step s (worker_pred w s)"
| block: "workers s w = WBlock \<Longrightarrow> pool_step s (worker_block w s)"
| spurious: "workers s w = WWaiting \<Longrightarrow> pool_step s (worker_wake w s)"
| check: "workers s w = WCheck \<Longrightarrow> pool_step s (worker_check w s)"
| run_task: "workers s w = WRun f \<Longrightarrow> pool_step s (worker_run w s)"
| push_call: "pushers s t = PIdle \<Longrightarrow> pool_step s (push_call t f s)"
| push_lock: "pushers s t = PLock f \<Longrightarrow> tasksMutex s = None \<Longrightarrow> pool_step s (push_lock t f s)"
| push_task: "pushers s t = PPush f \<Longrightarrow> pool_step s (push_task t f s)"
| notify_some: "pushers s t = PNotify \<Longrightarrow> workers s w = WWaiting \<Longrightarrow> pool_step s (push_notify t (Some w) s)"
| notify_none: "pushers s t = PNotify \<Longrightarrow> \<forall>w. workers s w \<noteq> WWaiting \<Longrightarrow> pool_step s (push_notify t None s)"
| stop: "dtor s = DNone \<Longrightarrow> pool_step s (dtor_stop s)"
| notify_all: "dtor s = DNotify \<Longrightarrow> pool_step s (dtor_notify s)"
| join: "dtor s = DJoin \<Longrightarrow> \<forall>w<num_threads s. workers s w = WDone \<Longrightarrow> pool_step s (dtor_join s)"

subsection \<open>Invariant\<close>

fun holds_lock :: "'f worker_pc \<Rightarrow> bool" where
  "holds_lock WPred \<longleftrightarrow> True"
| "holds_lock WBlock \<longleftrightarrow> True"
| "holds_lock WCheck \<longleftrightarrow> True"
| "holds_lock _ \<longleftrightarrow> False"

fun in_critical :: "'f pool \<Rightarrow> lock_owner \<Rightarrow> bool" where
  "in_critical s (Worker w) \<longleftrightarrow> holds_lock (workers s w)"
| "in_critical s (Pusher t) \<longleftrightarrow> (\<exists>f. pushers s t = PPush f)"

abbreviation pool_mutex_inv :: "'f pool \<Rightarrow> bool" where
  "pool_mutex_inv s \<equiv> mutex_ok (tasksMutex s) (in_critical s)"

text \<open>
  A worker past the predicate has a task or sees the shutdown, a worker about to block has seen no
  task; a queued task is about to be announced or some worker is awake.
\<close>

fun awake :: "'f worker_pc \<Rightarrow> bool" where
  "awake WWaiting \<longleftrightarrow> False"
| "awake WBlock \<longleftrightarrow> False"
| "awake WDone \<longleftrightarrow> False"
| "awake _ \<longleftrightarrow> True"

lemma in_critical_iff:
  "in_critical s p \<longleftrightarrow> (case p of Worker w \<Rightarrow> holds_lock (workers s w) | Pusher t \<Rightarrow> (\<exists>f. pushers s t = PPush f))"
  by (cases p) simp_all

subsection \<open>The mutex\<close>

lemma pool_mutex_step:
  assumes inv: "pool_mutex_inv s" and chk: "\<forall>w. workers s w = WCheck \<and> running s \<longrightarrow> tasks s \<noteq> []"
    and step: "pool_step s s'"
  shows "pool_mutex_inv s'"
  using step
proof cases
  case (acquire w)
  then show ?thesis using mutex_ok_acquire [OF inv [unfolded acquire(3)], of "in_critical s'" "Worker w"]
    by (auto simp: pool_ops in_critical_iff split: lock_owner.splits)
next
  case (block w)
  then show ?thesis using mutex_ok_release [OF inv, of "Worker w" "in_critical s'"]
    by (auto simp: pool_ops in_critical_iff split: lock_owner.splits)
next
  case (check w)
  with chk have "running s \<longrightarrow> tasks s \<noteq> []" by blast
  with check show ?thesis using mutex_ok_release [OF inv, of "Worker w" "in_critical s'"]
    by (auto simp: pool_ops in_critical_iff split: lock_owner.splits list.splits)
next
  case (push_lock t f)
  then show ?thesis using mutex_ok_acquire [OF inv [unfolded push_lock(3)], of "in_critical s'" "Pusher t"]
    by (auto simp: pool_ops in_critical_iff split: lock_owner.splits)
next
  case (push_task t f)
  then show ?thesis using mutex_ok_release [OF inv, of "Pusher t" "in_critical s'"]
    by (auto simp: pool_ops in_critical_iff split: lock_owner.splits)
qed (use mutex_ok_keep [OF inv] in \<open>auto simp: pool_ops in_critical_iff split: lock_owner.splits\<close>)

subsection \<open>Tasks\<close>

definition queue_inv :: "'f pool \<Rightarrow> bool" where
  "queue_inv s \<longleftrightarrow> \<not> front_of_empty s \<and> pushed s = started s @ tasks s \<and>
     (\<forall>w. workers s w = WCheck \<and> running s \<longrightarrow> tasks s \<noteq> []) \<and> (\<forall>w. workers s w = WBlock \<longrightarrow> tasks s = [])"

lemma queue_inv_keep:
  assumes "queue_inv s" "front_of_empty s' = front_of_empty s" "pushed s' = pushed s" "started s' = started s" "tasks s' = tasks s"
    and "running s' \<Longrightarrow> running s" "\<And>w. workers s' w = WCheck \<Longrightarrow> workers s w = WCheck"
    and "\<And>w. workers s' w = WBlock \<Longrightarrow> workers s w = WBlock"
  shows "queue_inv s'"
  using assms by (simp add: queue_inv_def) blast

lemma queue_step:
  assumes inv: "queue_inv s" and mx: "pool_mutex_inv s" and step: "pool_step s s'"
  shows "queue_inv s'"
  using step
proof cases
  case (pred w)
  then show ?thesis using inv by (auto simp: queue_inv_def pool_ops split: if_splits)
next
  case (check w)
  have alone: "v = w" if "holds_lock (workers s v)" for v
    using mutex_ok_unique [OF mx, of "Worker w" "Worker v"] check that by simp
  have "workers s v \<noteq> WCheck" "workers s v \<noteq> WBlock" if "v \<noteq> w" for v using alone [of v] that by auto
  then show ?thesis using inv check by (auto simp: queue_inv_def pool_ops split: list.splits if_splits)
next
  case (push_task t f)
  have "\<not> holds_lock (workers s w)" for w
    using mutex_ok_unique [OF mx, of "Pusher t" "Worker w"] push_task by auto
  then have "workers s w \<noteq> WCheck" "workers s w \<noteq> WBlock" for w by (metis holds_lock.simps(3), metis holds_lock.simps(2))
  then show ?thesis using inv push_task by (auto simp: queue_inv_def pool_ops)
qed (rule queue_inv_keep [OF inv]; auto simp: pool_ops split: if_splits option.splits)+

definition threads_inv :: "'f pool \<Rightarrow> bool" where
  "threads_inv s \<longleftrightarrow> 0 < num_threads s \<and> (\<forall>w<num_threads s. workers s w = WDone \<longrightarrow> \<not> running s) \<and>
     (\<forall>w\<ge>num_threads s. workers s w = WDone)"

lemma threads_inv_keep:
  assumes "threads_inv s" "num_threads s' = num_threads s" "running s' \<Longrightarrow> running s"
    and "\<And>w. workers s w = WDone \<Longrightarrow> workers s' w = WDone"
    and "\<And>w. workers s' w = WDone \<Longrightarrow> workers s w = WDone \<or> \<not> running s'"
  shows "threads_inv s'"
  using assms unfolding threads_inv_def by metis

lemma threads_step:
  assumes inv: "threads_inv s" and step: "pool_step s s'"
  shows "threads_inv s'"
  using step
  by cases (rule threads_inv_keep [OF inv]; auto simp: pool_ops split: if_splits option.splits list.splits)+

definition announced :: "'f pool \<Rightarrow> bool" where
  "announced s \<longleftrightarrow> (running s \<and> tasks s \<noteq> [] \<longrightarrow> (\<exists>t. pushers s t = PNotify) \<or> (\<exists>w. awake (workers s w)))"

lemma announced_awake: "awake (workers s w) \<Longrightarrow> announced s"
  unfolding announced_def by blast

lemma announced_idle: "\<not> running s \<or> tasks s = [] \<Longrightarrow> announced s"
  by (auto simp: announced_def)

lemma announced_keep:
  assumes "announced s" "running s' = running s" "tasks s' = tasks s" "workers s' = workers s"
    and "\<And>t. pushers s t = PNotify \<Longrightarrow> pushers s' t = PNotify"
  shows "announced s'"
  using assms unfolding announced_def by metis

lemma announced_step:
  assumes inv: "announced s" and q: "queue_inv s" and th: "threads_inv s" and step: "pool_step s s'"
  shows "announced s'"
  using step
proof cases
  case (load w)
  then show ?thesis
    by (cases "running s") (auto simp: pool_ops intro: announced_idle announced_awake [of _ w])
next
  case (pred w)
  then show ?thesis
    by (cases "tasks s = []") (auto simp: pool_ops intro: announced_idle announced_awake [of _ w])
next
  case (block w)
  with q have "tasks s = []" by (auto simp: queue_inv_def)
  with block show ?thesis by (intro announced_idle) (simp add: pool_ops)
next
  case (check w)
  with q show ?thesis
    by (cases "running s") (auto simp: pool_ops queue_inv_def split: list.splits intro: announced_idle announced_awake [of _ w])
next
  case (push_task t f)
  then have "pushers s' t = PNotify" by (simp add: pool_ops)
  then show ?thesis unfolding announced_def by blast
next
  case (notify_none t)
  show ?thesis
  proof (cases "running s \<and> tasks s \<noteq> []")
    case True
    then have "workers s 0 \<noteq> WBlock" "workers s 0 \<noteq> WDone" "workers s 0 \<noteq> WWaiting"
      using q th notify_none(3) by (auto simp: queue_inv_def threads_inv_def)
    then have "awake (workers s' 0)" using notify_none(1) by (cases "workers s 0") (simp_all add: pool_ops)
    then show ?thesis by (rule announced_awake)
  next
    case False
    with notify_none(1) show ?thesis by (intro announced_idle) (auto simp: pool_ops)
  qed
next
  case (notify_all)
  with inv show ?thesis unfolding announced_def by (auto simp: pool_ops)
next
  case (push_call t f)
  then show ?thesis by (intro announced_keep [OF inv]) (auto simp: pool_ops)
next
  case (push_lock t f)
  then show ?thesis by (intro announced_keep [OF inv]) (auto simp: pool_ops)
next
  case stop
  then show ?thesis by (intro announced_idle) (simp add: pool_ops)
next
  case join
  then show ?thesis by (intro announced_keep [OF inv]) (auto simp: pool_ops)
qed (auto simp: pool_ops intro: announced_awake)

definition pool_inv :: "'f pool \<Rightarrow> bool" where
  "pool_inv s \<longleftrightarrow> pool_mutex_inv s \<and> queue_inv s \<and> threads_inv s \<and> announced s"

interpretation pool: invariant_system "\<lambda>s. \<exists>n. s = ThreadPool n" pool_step pool_inv
proof unfold_locales
  fix s :: "'f pool" assume "\<exists>n. s = ThreadPool n"
  then show "pool_inv s"
    by (auto simp: pool_inv_def ThreadPool_def Let_def mutex_ok_free in_critical_iff queue_inv_def threads_inv_def
      announced_def split: lock_owner.splits if_splits)
next
  fix s s' :: "'f pool" assume inv: "pool_inv s" and step: "pool_step s s'"
  then have "\<forall>w. workers s w = WCheck \<and> running s \<longrightarrow> tasks s \<noteq> []" by (simp add: pool_inv_def queue_inv_def)
  with inv step show "pool_inv s'"
    unfolding pool_inv_def using pool_mutex_step queue_step threads_step announced_step by blast
qed

abbreviation pool_reach :: "'f pool \<Rightarrow> bool" where
  "pool_reach \<equiv> reach (\<lambda>s. \<exists>n. s = ThreadPool n) pool_step"

subsection \<open>Concrete runs\<close>

text \<open>
  One worker that found no task and is about to block; a task pushed then; and, instead, the destructor
  storing and notifying before the worker blocks.
\<close>

definition about_to_block :: "nat pool" where
  "about_to_block = worker_pred 0 (worker_acquire 0 (worker_load 0 (ThreadPool 1)))"

definition task_queued :: "nat pool" where
  "task_queued = push_notify 0 (Some 0) (push_task 0 5 (push_lock 0 5 (push_call 0 5 (worker_block 0 about_to_block))))"

definition stranded :: "nat pool" where
  "stranded = worker_block 0 (dtor_notify (dtor_stop about_to_block))"

lemmas pool_runs = about_to_block_def task_queued_def stranded_def ThreadPool_def Let_def pool_ops

lemma about_to_block_reach: "pool_reach about_to_block"
proof -
  have "pool_reach (ThreadPool 1 :: nat pool)" by (rule reach_init) blast
  then have "pool_reach (worker_load 0 (ThreadPool 1) :: nat pool)"
    by (rule reach_step) (rule pool_step.load, simp add: ThreadPool_def)
  then have "pool_reach (worker_acquire 0 (worker_load 0 (ThreadPool 1)) :: nat pool)"
    by (rule reach_step) (rule pool_step.acquire, simp_all add: pool_runs)
  then show ?thesis unfolding about_to_block_def
    by (rule reach_step) (rule pool_step.pred, simp add: pool_runs)
qed

lemma task_queued_reach: "pool_reach task_queued"
proof -
  have "pool_reach (worker_block 0 about_to_block)"
    using about_to_block_reach by (rule reach_step) (rule pool_step.block, simp add: pool_runs)
  then have "pool_reach (push_call 0 5 (worker_block 0 about_to_block))"
    by (rule reach_step) (rule pool_step.push_call, simp add: pool_runs)
  then have "pool_reach (push_lock 0 5 (push_call 0 5 (worker_block 0 about_to_block)))"
    by (rule reach_step) (rule pool_step.push_lock, simp_all add: pool_runs)
  then have "pool_reach (push_task 0 5 (push_lock 0 5 (push_call 0 5 (worker_block 0 about_to_block))))"
    by (rule reach_step) (rule pool_step.push_task, simp add: pool_runs)
  then show ?thesis unfolding task_queued_def
    by (rule reach_step) (rule pool_step.notify_some, simp_all add: pool_runs)
qed

lemma stranded_reach: "pool_reach stranded"
proof -
  have "pool_reach (dtor_stop about_to_block)"
    using about_to_block_reach by (rule reach_step) (rule pool_step.stop, simp add: pool_runs)
  then have "pool_reach (dtor_notify (dtor_stop about_to_block))"
    by (rule reach_step) (rule pool_step.notify_all, simp add: pool_runs)
  then show ?thesis unfolding stranded_def
    by (rule reach_step) (rule pool_step.block, simp add: pool_runs)
qed

lemma stranded_state:
  "stranded = \<lparr>running = False, num_threads = 1, workers = (\<lambda>w. if w = 0 then WWaiting else WDone),
     pushers = (\<lambda>_. PIdle), dtor = DJoin, tasks = [], tasksMutex = None, front_of_empty = False, pushed = [], started = []\<rparr>"
  by (simp add: pool_runs fun_eq_iff)

subsection \<open>Properties\<close>

text \<open>
  Under every interleaving of workers, pushing threads, spurious wakeups and the destructor, every
  task is started at most once and tasks are started in the order in which they were pushed; no worker
  ever takes the first element of an empty queue, although \<^verbatim>\<open>running_\<close> is read again after the wait.
\<close>

theorem pool_tasks_in_order:
  assumes "pool_reach s"
  shows "pushed s = started s @ tasks s \<and> \<not> front_of_empty s"
  using pool.reach_inv [OF assms] by (simp add: pool_inv_def queue_inv_def)

theorem pool_tasks_in_order_witness:
  "pushed task_queued = [5] \<and> pushed task_queued = started task_queued @ tasks task_queued"
proof -
  have "pushed task_queued = [5]" by (simp add: pool_runs)
  with pool_tasks_in_order [OF task_queued_reach] show ?thesis by blast
qed

text \<open>
  C40: While the pool is running a queued task is never stranded: if no thread is between pushing and
  notifying, some worker is awake, neither blocked nor about to block.
\<close>

theorem pool_task_not_stranded:
  assumes "pool_reach s" and "running s" "tasks s \<noteq> []" and "\<forall>t. pushers s t \<noteq> PNotify"
  shows "\<exists>w<num_threads s. awake (workers s w)"
proof -
  have inv: "threads_inv s" "announced s" using pool.reach_inv [OF assms(1)] by (simp_all add: pool_inv_def)
  with assms(2-4) obtain w where w: "awake (workers s w)" unfolding announced_def by blast
  with inv(1) have "w < num_threads s" unfolding threads_inv_def by (metis awake.simps(3) not_le)
  with w show ?thesis by blast
qed

theorem pool_task_not_stranded_witness: "\<exists>w<num_threads task_queued. awake (workers task_queued w)"
  by (rule pool_task_not_stranded [OF task_queued_reach]) (simp_all add: pool_runs)

text \<open>
  C31: The destructor can wait forever. It stores \<^verbatim>\<open>running_\<close> without holding the mutex, so the store and
  the notification can fall between a worker's evaluation of the predicate and its blocking. Then the
  destructor waits to join a worker that is blocked, nobody is left to notify it, and only a spurious
  wakeup or another thread's \<^verbatim>\<open>push\<close> leads out of that state.
\<close>

theorem pool_destructor_deadlock:
  "\<exists>s :: nat pool. pool_reach s \<and> dtor s = DJoin \<and> workers s 0 = WWaiting \<and> 0 < num_threads s \<and>
     Collect (pool_step s) \<subseteq> insert (worker_wake 0 s) {push_call t f s |t f. True}"
proof (intro exI [of _ stranded] conjI subsetI)
  show "pool_reach stranded" by (rule stranded_reach)
  fix s' assume "s' \<in> Collect (pool_step stranded)"
  then have "pool_step stranded s'" by simp
  then show "s' \<in> insert (worker_wake 0 stranded) {push_call t f stranded |t f. True}"
    by cases (auto simp: stranded_state split: if_splits)
qed (simp_all add: stranded_state)

end
