(* ===== verification/Channel.thy ===== *)
theory Channel
  imports Aiopp_Prelude
begin

text \<open>
  Event file descriptors (\<^verbatim>\<open>eventfd.hpp\<close>, \<^verbatim>\<open>eventfd.cpp\<close>) and the channel between threads built on one
  (\<^verbatim>\<open>channel.hpp\<close>). Any number of threads send; receivers are coroutines that wait for the event file
  descriptor and then take a message. Each access to the mutex, the queue and the event file descriptor
  is one step. The kernel's event file descriptor is a parameter with its documented behaviour as a
  named hypothesis. When the read operation itself fails, the code calls \<^verbatim>\<open>std::abort\<close>: such an execution ends
  there and is a prefix of one of the model. A task of \<^verbatim>\<open>receive\<close> that is destroyed while it waits leaves a read behind, which the
  kernel cancels or completes.
\<close>

subsection \<open>Event file descriptors\<close>

text \<open>
  \<open>ef_read\<close> is \<open>None\<close> while a read would block, \<open>ef_write\<close> while a write would block; \<open>ef_create\<close> takes
  the semaphore flag.
\<close>

record 'e eventfd_api =
  ef_create :: "bool \<Rightarrow> 'e"
  ef_read :: "'e \<Rightarrow> (u64 \<times> 'e) option"
  ef_write :: "'e \<Rightarrow> u64 \<Rightarrow> 'e option"

text \<open>
  The manual page of \<^verbatim>\<open>eventfd\<close> in semaphore mode, in terms of the value of the counter: it starts at 0,
  a read blocks exactly at 0 and otherwise returns 1 and decrements, a write of 1 increments or blocks.
\<close>

definition semaphore_ok :: "'e eventfd_api \<Rightarrow> ('e \<Rightarrow> nat) \<Rightarrow> bool" where
  "semaphore_ok E count \<longleftrightarrow>
     count (ef_create E True) = 0 \<and>
     (\<forall>e. ef_read E e = None \<longleftrightarrow> count e = 0) \<and>
     (\<forall>e v e'. ef_read E e = Some (v, e') \<longrightarrow> v = 1 \<and> Suc (count e') = count e) \<and>
     (\<forall>e e'. ef_write E e 1 = Some e' \<longrightarrow> count e' = Suc (count e))"

subsection \<open>System calls on the descriptor\<close>

text \<open>
  \<^verbatim>\<open>EventFd\<close> as an owner of a descriptor: the constructor and \<^verbatim>\<open>write\<close> assert that the system call succeeded. The calls are
  parameters that take and return the state \<open>'s\<close> of the kernel.
\<close>

record 's eventfd_sys =
  sys_eventfd :: "int \<Rightarrow> int \<Rightarrow> 's \<Rightarrow> int \<times> 's"
  sys_eventfd_write :: "int \<Rightarrow> u64 \<Rightarrow> 's \<Rightarrow> int \<times> 's"

datatype eventfd_flags = FlagNone | FlagSemaphore

text \<open>Linux: the value of \<^verbatim>\<open>EFD_SEMAPHORE\<close>.\<close>

fun eventfd_flag :: "eventfd_flags \<Rightarrow> int" where
  "eventfd_flag FlagNone = 0"
| "eventfd_flag FlagSemaphore = 1"

definition EventFd :: "'s eventfd_sys \<Rightarrow> eventfd_flags \<Rightarrow> 's \<Rightarrow> (int \<times> 's) outcome" where
  "EventFd S flags k = (let (fd, k') = sys_eventfd S 0 (eventfd_flag flags) k in assertE (fd \<noteq> - 1) (Inr (fd, k')))"

definition EventFd_write :: "'s eventfd_sys \<Rightarrow> int \<Rightarrow> u64 \<Rightarrow> 's \<Rightarrow> 's outcome" where
  "EventFd_write S fd v k = (let (res, k') = sys_eventfd_write S fd v k in assertE (res = 0) (Inr k'))"

subsection \<open>State\<close>

text \<open>
  A thread is inside \<open>send\<close>; a coroutine is inside \<open>receive\<close>. \<open>ch_destroyed\<close> counts the coroutines that were destroyed while
  they waited, \<open>ch_orphans\<close> their reads that are still pending, \<open>ch_lost\<close> those that completed.
\<close>

datatype 'm send_pc = SIdle | SLock 'm | SPush 'm | SWrite

datatype recv_pc = RIdle | RRead | RLock | RPop

datatype party = Sender nat | Receiver nat

record ('m, 'e) channel =
  ch_mutex :: "party option"
  messages :: "'m list"
  ch_event :: 'e
  senders :: "nat \<Rightarrow> 'm send_pc"
  receivers :: "nat \<Rightarrow> recv_pc"
  assert_failed :: bool
  sent :: "'m list"
  received :: "'m list"
  ch_orphans :: nat
  ch_lost :: nat
  ch_destroyed :: nat

definition Channel :: "'e eventfd_api \<Rightarrow> ('m, 'e) channel" where
  "Channel E =
     \<lparr>ch_mutex = None, messages = [], ch_event = ef_create E True, senders = (\<lambda>_. SIdle),
      receivers = (\<lambda>_. RIdle), assert_failed = False, sent = [], received = [],
      ch_orphans = 0, ch_lost = 0, ch_destroyed = 0\<rparr>"

subsection \<open>Steps\<close>

definition send_call :: "nat \<Rightarrow> 'm \<Rightarrow> ('m, 'e) channel \<Rightarrow> ('m, 'e) channel" where
  "send_call t m s = s\<lparr>senders := (senders s)(t := SLock m)\<rparr>"

definition send_lock :: "nat \<Rightarrow> 'm \<Rightarrow> ('m, 'e) channel \<Rightarrow> ('m, 'e) channel" where
  "send_lock t m s = s\<lparr>ch_mutex := Some (Sender t), senders := (senders s)(t := SPush m)\<rparr>"

text \<open>The message is pushed and the lock released at the end of the block.\<close>

definition send_push :: "nat \<Rightarrow> 'm \<Rightarrow> ('m, 'e) channel \<Rightarrow> ('m, 'e) channel" where
  "send_push t m s =
     s\<lparr>messages := messages s @ [m], sent := sent s @ [m], ch_mutex := None,
       senders := (senders s)(t := SWrite)\<rparr>"

definition send_write :: "nat \<Rightarrow> 'e \<Rightarrow> ('m, 'e) channel \<Rightarrow> ('m, 'e) channel" where
  "send_write t e s = s\<lparr>ch_event := e, senders := (senders s)(t := SIdle)\<rparr>"

definition receive_call :: "nat \<Rightarrow> ('m, 'e) channel \<Rightarrow> ('m, 'e) channel" where
  "receive_call r s = s\<lparr>receivers := (receivers s)(r := RRead)\<rparr>"

definition receive_read :: "nat \<Rightarrow> 'e \<Rightarrow> ('m, 'e) channel \<Rightarrow> ('m, 'e) channel" where
  "receive_read r e s = s\<lparr>ch_event := e, receivers := (receivers s)(r := RLock)\<rparr>"

definition pop_lock :: "nat \<Rightarrow> ('m, 'e) channel \<Rightarrow> ('m, 'e) channel" where
  "pop_lock r s = s\<lparr>ch_mutex := Some (Receiver r), receivers := (receivers s)(r := RPop)\<rparr>"

definition pop_front :: "nat \<Rightarrow> ('m, 'e) channel \<Rightarrow> ('m, 'e) channel" where
  "pop_front r s =
     (case messages s of
        [] \<Rightarrow> s\<lparr>assert_failed := True\<rparr>
      | m # ms \<Rightarrow> s\<lparr>messages := ms, received := received s @ [m], ch_mutex := None,
                   receivers := (receivers s)(r := RIdle)\<rparr>)"

text \<open>
  A task of \<^verbatim>\<open>receive\<close> is destroyed while its read is pending: \<^verbatim>\<open>~OperationAwaiter\<close> cancels the read and its handler. The
  cancellation may come too late: then the read completes, and nobody takes a message for it.
\<close>

definition receive_destroy :: "nat \<Rightarrow> ('m, 'e) channel \<Rightarrow> ('m, 'e) channel" where
  "receive_destroy r s = s\<lparr>receivers := (receivers s)(r := RIdle), ch_orphans := Suc (ch_orphans s), ch_destroyed := Suc (ch_destroyed s)\<rparr>"

definition orphan_cancelled :: "('m, 'e) channel \<Rightarrow> ('m, 'e) channel" where
  "orphan_cancelled s = s\<lparr>ch_orphans := ch_orphans s - 1\<rparr>"

definition orphan_read :: "'e \<Rightarrow> ('m, 'e) channel \<Rightarrow> ('m, 'e) channel" where
  "orphan_read e s = s\<lparr>ch_event := e, ch_orphans := ch_orphans s - 1, ch_lost := Suc (ch_lost s)\<rparr>"

lemmas channel_ops = receive_destroy_def orphan_cancelled_def orphan_read_def send_call_def send_lock_def send_push_def send_write_def receive_call_def
  receive_read_def pop_lock_def pop_front_def

inductive channel_step :: "'e eventfd_api \<Rightarrow> ('m, 'e) channel \<Rightarrow> ('m, 'e) channel \<Rightarrow> bool"
  for E :: "'e eventfd_api" where
  send_call: "senders s t = SIdle \<Longrightarrow> channel_step E s (send_call t m s)"
| send_lock: "senders s t = SLock m \<Longrightarrow> ch_mutex s = None \<Longrightarrow> channel_step E s (send_lock t m s)"
| send_push: "senders s t = SPush m \<Longrightarrow> channel_step E s (send_push t m s)"
| send_write: "senders s t = SWrite \<Longrightarrow> ef_write E (ch_event s) 1 = Some e \<Longrightarrow> channel_step E s (send_write t e s)"
| receive_call: "receivers s r = RIdle \<Longrightarrow> channel_step E s (receive_call r s)"
| receive_read: "receivers s r = RRead \<Longrightarrow> ef_read E (ch_event s) = Some (v, e) \<Longrightarrow> channel_step E s (receive_read r e s)"
| pop_lock: "receivers s r = RLock \<Longrightarrow> ch_mutex s = None \<Longrightarrow> channel_step E s (pop_lock r s)"
| pop_front: "receivers s r = RPop \<Longrightarrow> channel_step E s (pop_front r s)"
| receive_destroy: "receivers s r = RRead \<Longrightarrow> channel_step E s (receive_destroy r s)"
| orphan_cancelled: "0 < ch_orphans s \<Longrightarrow> channel_step E s (orphan_cancelled s)"
| orphan_read: "0 < ch_orphans s \<Longrightarrow> ef_read E (ch_event s) = Some (v, e) \<Longrightarrow> channel_step E s (orphan_read e s)"

subsection \<open>Invariant\<close>

text \<open>
  The mutex is held exactly by the thread that is about to access the queue. Every message in the
  queue is accounted for by the counter of the event file descriptor, by a sender that still has to
  write to it, by a receiver that has read from it and not taken its message yet, or by a read whose task is gone.
\<close>

fun critical :: "('m, 'e) channel \<Rightarrow> party \<Rightarrow> bool" where
  "critical s (Sender t) \<longleftrightarrow> (\<exists>m. senders s t = SPush m)"
| "critical s (Receiver r) \<longleftrightarrow> receivers s r = RPop"

definition unwritten :: "('m, 'e) channel \<Rightarrow> nat set" where
  "unwritten s = {t. senders s t = SWrite}"

definition entitled :: "('m, 'e) channel \<Rightarrow> nat set" where
  "entitled s = {r. receivers s r = RLock \<or> receivers s r = RPop}"

definition token_inv :: "('e \<Rightarrow> nat) \<Rightarrow> ('m, 'e) channel \<Rightarrow> bool" where
  "token_inv count s \<longleftrightarrow> finite (unwritten s) \<and> finite (entitled s) \<and>
     length (messages s) = count (ch_event s) + card (unwritten s) + card (entitled s) + ch_lost s \<and>
     ch_orphans s + ch_lost s \<le> ch_destroyed s"

definition channel_inv :: "('e \<Rightarrow> nat) \<Rightarrow> ('m, 'e) channel \<Rightarrow> bool" where
  "channel_inv count s \<longleftrightarrow> mutex_ok (ch_mutex s) (critical s) \<and> token_inv count s \<and> \<not> assert_failed s \<and>
     sent s = received s @ messages s"

lemma critical_iff:
  "critical s p \<longleftrightarrow> (case p of Sender t \<Rightarrow> (\<exists>m. senders s t = SPush m) | Receiver r \<Rightarrow> receivers s r = RPop)"
  by (cases p) simp_all

lemmas token_defs = unwritten_def entitled_def channel_ops

lemma card_remove: "finite A \<Longrightarrow> x \<in> A \<Longrightarrow> Suc (card (A - {x})) = card A"
  by (rule card_Suc_Diff1)

lemma channel_invD:
  assumes "channel_inv count s"
  shows "mutex_ok (ch_mutex s) (critical s)" "finite (unwritten s)" "finite (entitled s)" "\<not> assert_failed s" "sent s = received s @ messages s"
    "length (messages s) = count (ch_event s) + card (unwritten s) + card (entitled s) + ch_lost s" "ch_orphans s + ch_lost s \<le> ch_destroyed s"
  using assms by (simp_all add: channel_inv_def token_inv_def)

lemma channel_invI:
  assumes "mutex_ok (ch_mutex s) (critical s)" "finite (unwritten s)" "finite (entitled s)" "\<not> assert_failed s" "sent s = received s @ messages s"
    "length (messages s) = count (ch_event s) + card (unwritten s) + card (entitled s) + ch_lost s" "ch_orphans s + ch_lost s \<le> ch_destroyed s"
  shows "channel_inv count s"
  using assms by (simp add: channel_inv_def token_inv_def)

text \<open>Steps that move no message and no token.\<close>

lemma inv_neutral:
  assumes inv: "channel_inv count s" and m: "mutex_ok (ch_mutex s') (critical s')" and "unwritten s' = unwritten s" "entitled s' = entitled s"
    and "messages s' = messages s" "ch_event s' = ch_event s" "sent s' = sent s" "received s' = received s"
      "assert_failed s' = assert_failed s" "ch_lost s' = ch_lost s" "ch_orphans s' + ch_lost s \<le> ch_destroyed s'"
  shows "channel_inv count s'"
  by (rule channel_invI) (use assms(3-) m channel_invD [OF inv] in simp_all)

lemma inv_send_call:
  assumes inv: "channel_inv count s" and pc: "senders s t = SIdle"
  shows "channel_inv count (send_call t m s)"
proof (rule inv_neutral [OF inv])
  show "mutex_ok (ch_mutex (send_call t m s)) (critical (send_call t m s))"
    using mutex_ok_keep [OF channel_invD(1) [OF inv]] pc by (auto simp: channel_ops critical_iff split: party.splits)
qed (use pc channel_invD(7) [OF inv] in \<open>auto simp: token_defs\<close>)

lemma inv_send_lock:
  assumes inv: "channel_inv count s" and pc: "senders s t = SLock m" and free: "ch_mutex s = None"
  shows "channel_inv count (send_lock t m s)"
proof (rule inv_neutral [OF inv])
  show "mutex_ok (ch_mutex (send_lock t m s)) (critical (send_lock t m s))"
    using mutex_ok_acquire [OF channel_invD(1) [OF inv, unfolded free], of "critical (send_lock t m s)" "Sender t"]
    by (auto simp: channel_ops critical_iff split: party.splits)
qed (use pc channel_invD(7) [OF inv] in \<open>auto simp: token_defs\<close>)

lemma inv_send_push:
  assumes inv: "channel_inv count s" and pc: "senders s t = SPush m"
  shows "channel_inv count (send_push t m s)"
proof -
  let ?s = "send_push t m s"
  note d = channel_invD [OF inv]
  have "mutex_ok (ch_mutex ?s) (critical ?s)"
    using mutex_ok_release [OF d(1), of "Sender t" "critical ?s"] pc
    by (auto simp: channel_ops critical_iff split: party.splits)
  moreover have "unwritten ?s = insert t (unwritten s)" "t \<notin> unwritten s" "entitled ?s = entitled s"
    using pc by (auto simp: token_defs)
  ultimately show ?thesis
    using d by (intro channel_invI) (simp_all, simp_all add: channel_ops)
qed

lemma inv_send_write:
  assumes inv: "channel_inv count s" and pc: "senders s t = SWrite"
    and w: "count e = Suc (count (ch_event s))"
  shows "channel_inv count (send_write t e s)"
proof -
  let ?s = "send_write t e s"
  note d = channel_invD [OF inv]
  have "mutex_ok (ch_mutex ?s) (critical ?s)"
    using mutex_ok_keep [OF d(1)] pc by (auto simp: channel_ops critical_iff split: party.splits)
  moreover have "unwritten ?s = unwritten s - {t}" "t \<in> unwritten s" "entitled ?s = entitled s"
    using pc by (auto simp: token_defs)
  moreover from this(2) have "Suc (card (unwritten s - {t})) = card (unwritten s)" by (rule card_remove [OF d(2)])
  moreover have "messages ?s = messages s" "ch_event ?s = e" "sent ?s = sent s" "received ?s = received s"
    "assert_failed ?s = assert_failed s" "ch_lost ?s = ch_lost s" "ch_orphans ?s = ch_orphans s" "ch_destroyed ?s = ch_destroyed s" by (simp_all add: channel_ops)
  ultimately show ?thesis using d w by (intro channel_invI) (simp_all only: finite_Diff simp_thms)
qed

lemma inv_receive_call:
  assumes inv: "channel_inv count s" and pc: "receivers s r = RIdle"
  shows "channel_inv count (receive_call r s)"
proof (rule inv_neutral [OF inv])
  show "mutex_ok (ch_mutex (receive_call r s)) (critical (receive_call r s))"
    using mutex_ok_keep [OF channel_invD(1) [OF inv]] pc by (auto simp: channel_ops critical_iff split: party.splits)
qed (use pc channel_invD(7) [OF inv] in \<open>auto simp: token_defs\<close>)

lemma inv_receive_read:
  assumes inv: "channel_inv count s" and pc: "receivers s r = RRead"
    and w: "Suc (count e) = count (ch_event s)"
  shows "channel_inv count (receive_read r e s)"
proof -
  let ?s = "receive_read r e s"
  note d = channel_invD [OF inv]
  have "mutex_ok (ch_mutex ?s) (critical ?s)"
    using mutex_ok_keep [OF d(1)] pc by (auto simp: channel_ops critical_iff split: party.splits)
  moreover have "entitled ?s = insert r (entitled s)" "r \<notin> entitled s" "unwritten ?s = unwritten s"
    using pc by (auto simp: token_defs)
  moreover have "messages ?s = messages s" "ch_event ?s = e" "sent ?s = sent s" "received ?s = received s"
    "assert_failed ?s = assert_failed s" "ch_lost ?s = ch_lost s" "ch_orphans ?s = ch_orphans s" "ch_destroyed ?s = ch_destroyed s" by (simp_all add: channel_ops)
  ultimately show ?thesis using d w by (intro channel_invI) simp_all
qed

lemma inv_pop_lock:
  assumes inv: "channel_inv count s" and pc: "receivers s r = RLock" and free: "ch_mutex s = None"
  shows "channel_inv count (pop_lock r s)"
proof (rule inv_neutral [OF inv])
  show "mutex_ok (ch_mutex (pop_lock r s)) (critical (pop_lock r s))"
    using mutex_ok_acquire [OF channel_invD(1) [OF inv, unfolded free], of "critical (pop_lock r s)" "Receiver r"]
    by (auto simp: channel_ops critical_iff split: party.splits)
qed (use pc channel_invD(7) [OF inv] in \<open>auto simp: token_defs\<close>)

lemma inv_pop_front:
  assumes inv: "channel_inv count s" and pc: "receivers s r = RPop"
  shows "channel_inv count (pop_front r s)"
proof -
  let ?s = "pop_front r s"
  note d = channel_invD [OF inv]
  have r: "r \<in> entitled s" using pc by (simp add: entitled_def)
  have c: "Suc (card (entitled s - {r})) = card (entitled s)" by (rule card_remove [OF d(3) r])
  with d(6) obtain m ms where ms: "messages s = m # ms" by (cases "messages s") auto
  have "mutex_ok (ch_mutex ?s) (critical ?s)"
    using mutex_ok_release [OF d(1), of "Receiver r" "critical ?s"] pc
    by (auto simp: channel_ops ms critical_iff split: party.splits)
  moreover have "unwritten ?s = unwritten s" "entitled ?s = entitled s - {r}" by (auto simp: token_defs ms)
  moreover have "messages ?s = ms" "ch_event ?s = ch_event s" "sent ?s = sent s" "received ?s = received s @ [m]"
    "assert_failed ?s = assert_failed s" "ch_lost ?s = ch_lost s" "ch_orphans ?s = ch_orphans s" "ch_destroyed ?s = ch_destroyed s" by (simp_all add: channel_ops ms)
  ultimately show ?thesis using d c ms by (intro channel_invI) (simp_all only: finite_Diff simp_thms append.assoc append.simps list.size add_Suc_right)
qed

lemma inv_receive_destroy:
  assumes inv: "channel_inv count s" and pc: "receivers s r = RRead"
  shows "channel_inv count (receive_destroy r s)"
proof (rule inv_neutral [OF inv])
  show "mutex_ok (ch_mutex (receive_destroy r s)) (critical (receive_destroy r s))"
    using mutex_ok_keep [OF channel_invD(1) [OF inv]] pc by (auto simp: channel_ops critical_iff split: party.splits)
qed (use pc channel_invD(7) [OF inv] in \<open>auto simp: token_defs\<close>)

lemma inv_orphans:
  assumes inv: "channel_inv count s" and o: "0 < ch_orphans s"
  shows "channel_inv count (orphan_cancelled s)" "Suc (count e) = count (ch_event s) \<Longrightarrow> channel_inv count (orphan_read e s)"
proof -
  note d = channel_invD [OF inv]
  have c: "critical (orphan_cancelled s) = critical s" "critical (orphan_read e s) = critical s"
    by (rule ext, simp add: channel_ops critical_iff split: party.splits)+
  have u: "unwritten (orphan_cancelled s) = unwritten s" "unwritten (orphan_read e s) = unwritten s"
    "entitled (orphan_cancelled s) = entitled s" "entitled (orphan_read e s) = entitled s" by (simp_all add: token_defs)
  show "channel_inv count (orphan_cancelled s)"
    by (rule channel_invI) (unfold c u, use d o in \<open>simp_all add: channel_ops\<close>)
  assume "Suc (count e) = count (ch_event s)"
  then show "channel_inv count (orphan_read e s)"
    by (intro channel_invI) (unfold c u, use d o in \<open>simp_all add: channel_ops\<close>)
qed

interpretation channel: invariant_system "\<lambda>s. s = Channel E" "channel_step E" "\<lambda>s. \<forall>count. semaphore_ok E count \<longrightarrow> channel_inv count s"
  for E :: "'e eventfd_api"
proof unfold_locales
  fix s :: "('m, 'e) channel" assume "s = Channel E"
  then show "\<forall>count. semaphore_ok E count \<longrightarrow> channel_inv count s"
    by (simp add: Channel_def channel_inv_def mutex_ok_free critical_iff token_inv_def unwritten_def entitled_def semaphore_ok_def split: party.splits)
next
  fix s s' :: "('m, 'e) channel"
  assume inv: "\<forall>count. semaphore_ok E count \<longrightarrow> channel_inv count s" and step: "channel_step E s s'"
  show "\<forall>count. semaphore_ok E count \<longrightarrow> channel_inv count s'"
  proof (intro allI impI)
    fix count assume ok: "semaphore_ok E count"
    with inv have "channel_inv count s" by blast
    with step ok show "channel_inv count s'"
      by cases (auto simp: semaphore_ok_def intro: inv_send_call inv_send_lock inv_send_push inv_send_write
        inv_receive_call inv_receive_read inv_pop_lock inv_pop_front inv_receive_destroy inv_orphans)
  qed
qed

abbreviation channel_reach :: "'e eventfd_api \<Rightarrow> ('m, 'e) channel \<Rightarrow> bool" where
  "channel_reach E \<equiv> reach (\<lambda>s. s = Channel E) (channel_step E)"

lemma channel_reach_inv: "semaphore_ok E count \<Longrightarrow> channel_reach E s \<Longrightarrow> channel_inv count s"
  using channel.reach_inv by blast

subsection \<open>A concrete event file descriptor and a run\<close>

definition nat_eventfd :: "nat eventfd_api" where
  "nat_eventfd =
     \<lparr>ef_create = (\<lambda>_. 0), ef_read = (\<lambda>e. if e = 0 then None else Some (1, e - 1)),
      ef_write = (\<lambda>e v. Some (e + unat v))\<rparr>"

lemma nat_eventfd_ok: "semaphore_ok nat_eventfd (\<lambda>e. e)"
  by (auto simp: semaphore_ok_def nat_eventfd_def)

definition one_sent :: "(int, nat) channel" where
  "one_sent = send_write 0 1 (send_push 0 42 (send_lock 0 42 (send_call 0 42 (Channel nat_eventfd))))"

definition one_received :: "(int, nat) channel" where
  "one_received = pop_front 0 (pop_lock 0 (receive_read 0 0 (receive_call 0 one_sent)))"

lemmas channel_runs = one_sent_def one_received_def Channel_def nat_eventfd_def channel_ops

lemma reach_send:
  assumes r: "channel_reach E s" and "senders s t = SIdle" "ch_mutex s = None" "ef_write E (ch_event s) 1 = Some e"
  shows "channel_reach E (send_write t e (send_push t m (send_lock t m (send_call t m s))))"
proof -
  note ops = channel_ops
  from r have "channel_reach E (send_call t m s)"
    by (rule reach_step) (rule channel_step.send_call [OF assms(2)])
  then have "channel_reach E (send_lock t m (send_call t m s))"
    by (rule reach_step) (rule channel_step.send_lock, simp_all add: ops assms)
  then have "channel_reach E (send_push t m (send_lock t m (send_call t m s)))"
    by (rule reach_step) (rule channel_step.send_push, simp add: ops)
  then show ?thesis
    by (rule reach_step) (rule channel_step.send_write, simp_all add: ops assms)
qed

lemma reach_receive:
  assumes r: "channel_reach E s" and "receivers s x = RIdle" "ch_mutex s = None" "ef_read E (ch_event s) = Some (v, e)"
  shows "channel_reach E (pop_front x (pop_lock x (receive_read x e (receive_call x s))))"
proof -
  note ops = channel_ops
  from r have "channel_reach E (receive_call x s)"
    by (rule reach_step) (rule channel_step.receive_call [OF assms(2)])
  then have "channel_reach E (receive_read x e (receive_call x s))"
    by (rule reach_step) (rule channel_step.receive_read [where v = v], simp_all add: ops assms)
  then have "channel_reach E (pop_lock x (receive_read x e (receive_call x s)))"
    by (rule reach_step) (rule channel_step.pop_lock, simp_all add: ops assms)
  then show ?thesis
    by (rule reach_step) (rule channel_step.pop_front, simp add: ops)
qed

lemma one_sent_reach: "channel_reach nat_eventfd one_sent"
  unfolding one_sent_def by (rule reach_send, rule reach_init) (simp_all add: channel_runs)

lemma one_received_reach: "channel_reach nat_eventfd one_received"
  unfolding one_received_def
  by (rule reach_receive [OF one_sent_reach, where v = 1]) (simp_all add: channel_runs)

subsection \<open>The demonstration of the channel\<close>

text \<open>
  The threads of \<^verbatim>\<open>examples/channel.cpp\<close> on the channel: the coroutine \<^verbatim>\<open>sender\<close> (number 0) and the function it pushes to the
  thread pool (number 1) send one message each again and again, two receivers call \<^verbatim>\<open>receive\<close> again and again. Sleeping
  and timeouts only restrict the interleavings.
\<close>

inductive demo_step :: "'e eventfd_api \<Rightarrow> (string, 'e) channel \<Rightarrow> (string, 'e) channel \<Rightarrow> bool" for E :: "'e eventfd_api" where
  hello: "senders s 0 = SIdle \<Longrightarrow> demo_step E s (send_call 0 ''Hello!'' s)"
| whattup: "senders s 1 = SIdle \<Longrightarrow> demo_step E s (send_call 1 ''Whattup'' s)"
| receive: "r = 1 \<or> r = 2 \<Longrightarrow> receivers s r = RIdle \<Longrightarrow> demo_step E s (receive_call r s)"
| inside: "channel_step E s s' \<Longrightarrow> (\<And>t m. senders s' t = SLock m \<Longrightarrow> senders s t = SLock m) \<Longrightarrow>
    (\<And>r. receivers s' r = RRead \<Longrightarrow> receivers s r = RRead) \<Longrightarrow> ch_orphans s' = ch_orphans s \<Longrightarrow> demo_step E s s'"

definition demo_messages :: "string set" where
  "demo_messages = {''Hello!'', ''Whattup''}"

definition demo_inv :: "(string, 'e) channel \<Rightarrow> bool" where
  "demo_inv s \<longleftrightarrow> set (sent s) \<subseteq> demo_messages \<and> (\<forall>t m. senders s t = SLock m \<or> senders s t = SPush m \<longrightarrow> m \<in> demo_messages)"

lemma demo_channel_step: "demo_step E s s' \<Longrightarrow> channel_step E s s'"
  by (induction rule: demo_step.induct) (auto intro: channel_step.send_call channel_step.receive_call)

lemma inside_messages:
  assumes "channel_step E s s'" and c: "\<And>t m. senders s' t = SLock m \<Longrightarrow> senders s t = SLock m" and inv: "demo_inv s"
  shows "demo_inv s'"
  using assms(1)
proof cases
  case (send_call t m)
  with c [of t m] show ?thesis by (simp add: channel_ops)
next
  case (pop_front r)
  then show ?thesis using inv by (cases "messages s") (simp_all add: demo_inv_def channel_ops)
qed (use inv in \<open>auto simp: demo_inv_def channel_ops\<close>)

interpretation demo: invariant_system "\<lambda>s. s = Channel E" "demo_step E" demo_inv
  for E :: "'e eventfd_api"
proof unfold_locales
  fix s :: "(string, 'e) channel" assume "s = Channel E"
  then show "demo_inv s" by (simp add: demo_inv_def Channel_def)
next
  fix s s' :: "(string, 'e) channel" assume inv: "demo_inv s" and "demo_step E s s'"
  from this(2) show "demo_inv s'"
  proof cases
    case inside
    show ?thesis by (rule inside_messages [OF inside(1,2) inv])
  qed (use inv in \<open>auto simp: demo_inv_def demo_messages_def send_call_def receive_call_def\<close>)
qed

text \<open>The receivers get the messages of the two threads and no others, in the order in which they were sent.\<close>

lemma demo_delivers:
  assumes "semaphore_ok E count" and "reach (\<lambda>s. s = Channel E) (demo_step E) s"
  shows "sent s = received s @ messages s" "set (received s) \<subseteq> demo_messages" "\<not> assert_failed s"
proof -
  from assms(2) have "channel_reach E s"
    by (induction rule: reach.induct) (auto intro: reach_init reach_step dest: demo_channel_step)
  from channel_reach_inv [OF assms(1) this] show e: "sent s = received s @ messages s" "\<not> assert_failed s"
    by (simp_all add: channel_inv_def)
  have "demo_inv s" by (rule demo.reach_inv [OF assms(2)])
  with e(1) show "set (received s) \<subseteq> demo_messages" by (simp add: demo_inv_def)
qed

subsection \<open>Properties\<close>

text \<open>
  C17: Messages arrive once each and in the order in which they were pushed, under every interleaving of
  senders and receivers, and the assertion in \<^verbatim>\<open>pop\<close> that the queue is not empty never fails.
\<close>

theorem channel_fifo:
  assumes "semaphore_ok E count" and "channel_reach E s"
  shows "\<not> assert_failed s \<and> sent s = received s @ messages s"
  using channel_reach_inv [OF assms] by (simp add: channel_inv_def)

theorem channel_fifo_witness:
  "received one_received = [42] \<and> \<not> assert_failed one_received \<and>
   sent one_received = received one_received @ messages one_received"
proof -
  have "received one_received = [42]" by (simp add: channel_runs)
  with channel_fifo [OF nat_eventfd_ok one_received_reach] show ?thesis by simp
qed

text \<open>
  C28: No wakeup is lost: whenever nobody is in the middle of a \<^verbatim>\<open>send\<close> and every started \<^verbatim>\<open>receive\<close> is still
  waiting, the pending reads can complete exactly when there are messages, as many of them as messages. This holds
  as long as no task of \<^verbatim>\<open>receive\<close> was destroyed while it waited. Every one that was may lose one wakeup, and no other does.
\<close>

theorem channel_no_lost_wakeup:
  assumes "semaphore_ok E count" and "channel_reach E s"
    and "\<forall>t. senders s t = SIdle" and "\<forall>r. receivers s r = RIdle \<or> receivers s r = RRead"
  shows "count (ch_event s) + ch_lost s = length (messages s) \<and> ch_lost s \<le> ch_destroyed s \<and>
    (ch_destroyed s = 0 \<longrightarrow> count (ch_event s) = length (messages s) \<and> (ef_read E (ch_event s) = None \<longleftrightarrow> messages s = []))"
proof -
  have "unwritten s = {}" using assms(3) by (simp add: unwritten_def)
  moreover have "entitled s = {}" unfolding entitled_def using assms(4) by (metis (mono_tags, lifting) Collect_empty_eq recv_pc.distinct)
  ultimately have l: "length (messages s) = count (ch_event s) + ch_lost s" "ch_lost s \<le> ch_destroyed s"
    using channel_invD(6,7) [OF channel_reach_inv [OF assms(1,2)]] by simp_all
  moreover have "ef_read E (ch_event s) = None \<longleftrightarrow> count (ch_event s) = 0"
    using assms(1) unfolding semaphore_ok_def by blast
  ultimately show ?thesis by auto
qed

theorem channel_no_lost_wakeup_witness:
  "ch_event one_sent = length (messages one_sent) \<and> ef_read nat_eventfd (ch_event one_sent) \<noteq> None"
proof -
  have "\<forall>t. senders one_sent t = SIdle" "\<forall>r. receivers one_sent r = RIdle \<or> receivers one_sent r = RRead"
    "messages one_sent = [42]" "ch_destroyed one_sent = 0" by (simp_all add: channel_runs)
  with channel_no_lost_wakeup [OF nat_eventfd_ok one_sent_reach this(1,2)] show ?thesis by fastforce
qed

text \<open>
  A task of \<^verbatim>\<open>receive\<close> that is destroyed while it waits, as one that lost a race against a timeout is, can take a wakeup with it: a
  message is in the queue, nobody is in the middle of a call, and the next \<^verbatim>\<open>receive\<close> waits.
\<close>

definition wakeup_lost :: "(int, nat) channel" where
  "wakeup_lost = orphan_read 0 (send_write 0 1 (send_push 0 42 (send_lock 0 42 (send_call 0 42
     (receive_destroy 0 (receive_call 0 (Channel nat_eventfd)))))))"

theorem destroyed_receive_loses_wakeup:
  "channel_reach nat_eventfd wakeup_lost \<and> messages wakeup_lost = [42] \<and> ef_read nat_eventfd (ch_event wakeup_lost) = None \<and>
   (\<forall>t. senders wakeup_lost t = SIdle) \<and> (\<forall>r. receivers wakeup_lost r = RIdle)"
proof -
  let ?c = "receive_call 0 (Channel nat_eventfd) :: (int, nat) channel"
  have "channel_reach nat_eventfd (Channel nat_eventfd :: (int, nat) channel)" by (rule reach_init) (rule refl)
  then have "channel_reach nat_eventfd ?c" by (rule reach_step) (rule channel_step.receive_call, simp add: Channel_def)
  then have "channel_reach nat_eventfd (receive_destroy 0 ?c)"
    by (rule reach_step) (rule channel_step.receive_destroy, simp add: channel_ops)
  then have "channel_reach nat_eventfd (send_write 0 1 (send_push 0 42 (send_lock 0 42 (send_call 0 42 (receive_destroy 0 ?c)))))"
    by (rule reach_send) (simp_all add: channel_runs)
  then have "channel_reach nat_eventfd wakeup_lost"
    unfolding wakeup_lost_def by (rule reach_step) (rule channel_step.orphan_read [where v = 1], simp_all add: channel_runs)
  then show ?thesis by (simp add: wakeup_lost_def channel_runs)
qed

end
