(* ===== verification/Future.thy ===== *)
theory Future
  imports Channel
begin

text \<open>
  Promises and futures (\<^verbatim>\<open>future.hpp\<close>) and waiting for one in a coroutine (\<^verbatim>\<open>IoQueue::wait\<close> in
  \<^verbatim>\<open>ioqueue.hpp\<close>). One thread sets the promise while a coroutine waits. The critical sections only touch
  the shared value, so each is one step. A failing read operation aborts the process, as for the channel. The parameter \<open>is_void\<close> selects the specialisation for \<^verbatim>\<open>void\<close>,
  whose \<^verbatim>\<open>set\<close> differs.
\<close>

subsection \<open>State\<close>

datatype 'a set_pc = SetIdle | SetValue 'a | SetNotify | SetWrite | SetDone

datatype 'a wait_pc = WaitReady | WaitRead | WaitGet | WaitReturned 'a

record ('a, 'e) shared_state =
  sh_value :: "'a option"
  sh_event :: 'e
  setter :: "'a set_pc"
  waiter :: "'a wait_pc"
  sh_failed :: bool

text \<open>
  The manual page of \<^verbatim>\<open>eventfd\<close> without the semaphore flag: a read blocks exactly at 0 and otherwise
  returns the counter and resets it, a write of 1 increments or blocks.
\<close>

definition counter_ok :: "'e eventfd_api \<Rightarrow> ('e \<Rightarrow> nat) \<Rightarrow> bool" where
  "counter_ok E count \<longleftrightarrow>
     count (ef_create E False) = 0 \<and>
     (\<forall>e. ef_read E e = None \<longleftrightarrow> count e = 0) \<and>
     (\<forall>e v e'. ef_read E e = Some (v, e') \<longrightarrow> v = of_nat (count e) \<and> count e' = 0) \<and>
     (\<forall>e e'. ef_write E e 1 = Some e' \<longrightarrow> count e' = Suc (count e))"

definition Promise :: "'e eventfd_api \<Rightarrow> ('a, 'e) shared_state" where
  "Promise E = \<lparr>sh_value = None, sh_event = ef_create E False, setter = SetIdle, waiter = WaitReady, sh_failed = False\<rparr>"

subsection \<open>Steps\<close>

definition promise_set_call :: "'a \<Rightarrow> ('a, 'e) shared_state \<Rightarrow> ('a, 'e) shared_state" where
  "promise_set_call v s = s\<lparr>setter := SetValue v\<rparr>"

definition promise_set_value :: "'a \<Rightarrow> ('a, 'e) shared_state \<Rightarrow> ('a, 'e) shared_state" where
  "promise_set_value v s =
     (if sh_value s = None then s\<lparr>sh_value := Some v, setter := SetNotify\<rparr> else s\<lparr>sh_failed := True\<rparr>)"

definition promise_notify :: "bool \<Rightarrow> ('a, 'e) shared_state \<Rightarrow> ('a, 'e) shared_state" where
  "promise_notify is_void s = s\<lparr>setter := (if is_void then SetDone else SetWrite)\<rparr>"

definition promise_write :: "'e \<Rightarrow> ('a, 'e) shared_state \<Rightarrow> ('a, 'e) shared_state" where
  "promise_write e s = s\<lparr>sh_event := e, setter := SetDone\<rparr>"

definition future_ready :: "('a, 'e) shared_state \<Rightarrow> bool" where
  "future_ready s \<longleftrightarrow> sh_value s \<noteq> None"

definition wait_ready :: "('a, 'e) shared_state \<Rightarrow> ('a, 'e) shared_state" where
  "wait_ready s = s\<lparr>waiter := (if future_ready s then WaitGet else WaitRead)\<rparr>"

definition wait_read :: "u64 \<Rightarrow> 'e \<Rightarrow> ('a, 'e) shared_state \<Rightarrow> ('a, 'e) shared_state" where
  "wait_read v e s = (if v = 1 then s\<lparr>sh_event := e, waiter := WaitGet\<rparr> else s\<lparr>sh_event := e, sh_failed := True\<rparr>)"

text \<open>\<^verbatim>\<open>get\<close> waits on the condition variable until there is a value.\<close>

definition future_get :: "'a \<Rightarrow> ('a, 'e) shared_state \<Rightarrow> ('a, 'e) shared_state" where
  "future_get x s = s\<lparr>waiter := WaitReturned x\<rparr>"

lemmas future_ops [step_simps] = promise_set_call_def promise_set_value_def promise_notify_def promise_write_def
  future_ready_def wait_ready_def wait_read_def future_get_def

inductive future_step :: "'e eventfd_api \<Rightarrow> bool \<Rightarrow> ('a, 'e) shared_state \<Rightarrow> ('a, 'e) shared_state \<Rightarrow> bool"
  for E :: "'e eventfd_api" and is_void :: bool where
  set_call: "setter s = SetIdle \<Longrightarrow> future_step E is_void s (promise_set_call v s)"
| set_value: "setter s = SetValue v \<Longrightarrow> future_step E is_void s (promise_set_value v s)"
| notify: "setter s = SetNotify \<Longrightarrow> future_step E is_void s (promise_notify is_void s)"
| set_write: "setter s = SetWrite \<Longrightarrow> ef_write E (sh_event s) 1 = Some e \<Longrightarrow> future_step E is_void s (promise_write e s)"
| ready: "waiter s = WaitReady \<Longrightarrow> future_step E is_void s (wait_ready s)"
| read: "waiter s = WaitRead \<Longrightarrow> ef_read E (sh_event s) = Some (v, e) \<Longrightarrow> future_step E is_void s (wait_read v e s)"
| get: "waiter s = WaitGet \<Longrightarrow> sh_value s = Some x \<Longrightarrow> future_step E is_void s (future_get x s)"

subsection \<open>Invariant\<close>

definition future_inv :: "bool \<Rightarrow> ('e \<Rightarrow> nat) \<Rightarrow> ('a, 'e) shared_state \<Rightarrow> bool" where
  "future_inv is_void count s \<longleftrightarrow>
     \<not> sh_failed s \<and>
     (sh_value s = None \<longleftrightarrow> setter s = SetIdle \<or> (\<exists>v. setter s = SetValue v)) \<and>
     (waiter s = WaitGet \<longrightarrow> sh_value s \<noteq> None) \<and>
     (\<forall>x. waiter s = WaitReturned x \<longrightarrow> sh_value s = Some x) \<and>
     (setter s \<noteq> SetDone \<longrightarrow> count (sh_event s) = 0) \<and>
     (is_void \<longrightarrow> count (sh_event s) = 0 \<and> setter s \<noteq> SetWrite) \<and>
     (\<not> is_void \<and> setter s = SetDone \<longrightarrow>
        count (sh_event s) \<le> 1 \<and> (waiter s = WaitReady \<or> waiter s = WaitRead \<longrightarrow> count (sh_event s) = 1))"

lemma future_inv_step:
  assumes E: "counter_ok E count" and inv: "future_inv is_void count s" and step: "future_step E is_void s s'"
  shows "future_inv is_void count s'"
  using step
proof cases
  case (set_write e)
  then have "count e = Suc (count (sh_event s))" using E by (simp add: counter_ok_def)
  with set_write inv show ?thesis by (auto simp: future_inv_def future_ops)
next
  case (read v e)
  then have c: "v = of_nat (count (sh_event s))" "count e = 0" "count (sh_event s) \<noteq> 0"
    using E unfolding counter_ok_def by (blast, blast, metis option.distinct(1))
  then have "setter s = SetDone" "\<not> is_void" "count (sh_event s) = 1"
    using inv read(2) by (auto simp: future_inv_def)
  with c read inv show ?thesis by (auto simp: future_inv_def future_ops)
qed (use inv in \<open>auto simp: future_inv_def future_ops split: if_splits\<close>)

interpretation future: invariant_system "\<lambda>s. s = Promise E" "future_step E is_void"
    "\<lambda>s. \<forall>count. counter_ok E count \<longrightarrow> future_inv is_void count s"
  for E :: "'e eventfd_api" and is_void :: bool
proof unfold_locales
  fix s :: "('a, 'e) shared_state" assume "s = Promise E"
  then show "\<forall>count. counter_ok E count \<longrightarrow> future_inv is_void count s"
    by (simp add: Promise_def future_inv_def counter_ok_def)
next
  fix s s' :: "('a, 'e) shared_state"
  assume "\<forall>count. counter_ok E count \<longrightarrow> future_inv is_void count s" "future_step E is_void s s'"
  then show "\<forall>count. counter_ok E count \<longrightarrow> future_inv is_void count s'" using future_inv_step by blast
qed

abbreviation future_reach :: "'e eventfd_api \<Rightarrow> bool \<Rightarrow> ('a, 'e) shared_state \<Rightarrow> bool" where
  "future_reach E is_void \<equiv> reach (\<lambda>s. s = Promise E) (future_step E is_void)"

lemma future_reach_inv: "counter_ok E count \<Longrightarrow> future_reach E is_void s \<Longrightarrow> future_inv is_void count s"
  using future.reach_inv by blast

subsection \<open>A concrete event file descriptor and a run\<close>

definition nat_counter :: "nat eventfd_api" where
  "nat_counter =
     \<lparr>ef_create = (\<lambda>_. 0), ef_read = (\<lambda>e. if e = 0 then None else Some (of_nat e, 0)),
      ef_write = (\<lambda>e v. Some (e + unat v))\<rparr>"

lemma nat_counter_ok: "counter_ok nat_counter (\<lambda>e. e)"
  by (auto simp: counter_ok_def nat_counter_def)

text \<open>The coroutine waits before the promise is set; then all steps of \<^verbatim>\<open>set\<close>.\<close>

definition waiting_then_set :: "(int, nat) shared_state" where
  "waiting_then_set =
     promise_write 1 (promise_notify False (promise_set_value 9 (promise_set_call 9 (wait_ready (Promise nat_counter)))))"

lemma promise_set_reach:
  assumes "future_reach E b s" "setter s = SetIdle" "sh_value s = None"
  shows "future_reach E b (promise_notify b (promise_set_value v (promise_set_call v s)))"
proof -
  from assms(1) have "future_reach E b (promise_set_call v s)"
    by (rule reach_step) (rule future_step.set_call [OF assms(2)])
  then have "future_reach E b (promise_set_value v (promise_set_call v s))"
    by (rule reach_step) (rule future_step.set_value, simp add: future_ops)
  then show ?thesis
    by (rule reach_step) (rule future_step.notify, simp add: future_ops assms)
qed

lemma waiting_reach: "future_reach E b (wait_ready (Promise E))"
  by (rule reach_step [OF reach_init], rule refl, rule future_step.ready) (simp add: Promise_def)

lemma waiting_then_set_reach: "future_reach nat_counter False waiting_then_set"
proof -
  have "future_reach nat_counter False (promise_notify False (promise_set_value 9 (promise_set_call 9 (wait_ready (Promise nat_counter)))))"
    by (rule promise_set_reach [OF waiting_reach]) (simp_all add: future_ops Promise_def)
  then show ?thesis unfolding waiting_then_set_def
    by (rule reach_step) (rule future_step.set_write, simp_all add: future_ops Promise_def nat_counter_def)
qed

subsection \<open>Properties\<close>

text \<open>
  C29: Waiting for a future in a coroutine returns the value the promise was set to, and nothing else,
  under every interleaving with the thread that sets it; \<^verbatim>\<open>get\<close> is only reached when the value is there,
  so the event loop is never blocked, the value read from the event file descriptor is always 1, and
  no assertion fails.
\<close>

theorem future_wait_correct:
  assumes "counter_ok E count" and "future_reach E is_void s"
  shows "\<not> sh_failed s \<and> (waiter s = WaitGet \<longrightarrow> sh_value s \<noteq> None) \<and>
    (\<forall>x. waiter s = WaitReturned x \<longrightarrow> sh_value s = Some x)"
  using future_reach_inv [OF assms] unfolding future_inv_def by blast

theorem future_wait_correct_witness: "\<not> sh_failed waiting_then_set \<and> sh_value waiting_then_set = Some 9"
  using future_wait_correct [OF nat_counter_ok waiting_then_set_reach]
  by (simp add: waiting_then_set_def future_ops Promise_def)

text \<open>
  C39: For a future with a value, the waiting coroutine can always go on once \<^verbatim>\<open>set\<close> has returned: if it
  has not returned yet, one of its steps is possible, whenever it checked \<^verbatim>\<open>ready\<close>.
\<close>

theorem future_wait_progress:
  assumes "counter_ok E count" and "future_reach E False s" and "setter s = SetDone"
    and "\<forall>x. waiter s \<noteq> WaitReturned x"
  shows "\<exists>s'. future_step E False s s' \<and> waiter s' \<noteq> waiter s"
proof -
  have inv: "future_inv False count s" by (rule future_reach_inv [OF assms(1,2)])
  show ?thesis
  proof (cases "waiter s")
    case WaitReady
    then have "future_step E False s (wait_ready s)" by (rule future_step.ready)
    then show ?thesis using WaitReady by (intro exI [of _ "wait_ready s"]) (simp add: future_ops)
  next
    case WaitRead
    then have "count (sh_event s) = 1" using inv assms(3) by (simp add: future_inv_def)
    then have "ef_read E (sh_event s) \<noteq> None" using assms(1) unfolding counter_ok_def by (metis zero_neq_one)
    then obtain v e where r: "ef_read E (sh_event s) = Some (v, e)" by auto
    moreover from this have "v = 1" using assms(1) \<open>count (sh_event s) = 1\<close> unfolding counter_ok_def by fastforce
    moreover have "future_step E False s (wait_read v e s)" by (rule future_step.read [OF WaitRead r])
    ultimately show ?thesis using WaitRead by (intro exI [of _ "wait_read v e s"]) (simp add: future_ops)
  next
    case WaitGet
    then obtain x where x: "sh_value s = Some x" using inv by (auto simp: future_inv_def)
    have "future_step E False s (future_get x s)" by (rule future_step.get [OF WaitGet x])
    then show ?thesis using WaitGet by (intro exI [of _ "future_get x s"]) (simp add: future_ops)
  next
    case (WaitReturned x)
    with assms(4) show ?thesis by blast
  qed
qed

theorem future_wait_progress_witness:
  "\<exists>s'. future_step nat_counter False waiting_then_set s' \<and> waiter s' \<noteq> waiter waiting_then_set"
  by (rule future_wait_progress [OF nat_counter_ok waiting_then_set_reach])
    (simp_all add: waiting_then_set_def future_ops Promise_def)

text \<open>
  C30: A future of \<^verbatim>\<open>void\<close> can hang its coroutine for good: the specialised \<^verbatim>\<open>set\<close> never writes to the event
  file descriptor, so if the coroutine started to wait before the promise was set, \<^verbatim>\<open>set\<close> returns and no
  step of anybody is possible any more.
\<close>

theorem future_void_hangs:
  assumes "counter_ok E count"
  shows "\<exists>s :: (unit, 'e) shared_state. future_reach E True s \<and> setter s = SetDone \<and> waiter s = WaitRead \<and>
    (\<forall>s'. \<not> future_step E True s s')"
proof -
  define s :: "(unit, 'e) shared_state" where
    "s = promise_notify True (promise_set_value () (promise_set_call () (wait_ready (Promise E))))"
  have reach: "future_reach E True s"
    unfolding s_def by (rule promise_set_reach [OF waiting_reach]) (simp_all add: future_ops Promise_def)
  have st: "setter s = SetDone" "waiter s = WaitRead" "sh_event s = ef_create E False"
    by (simp_all add: s_def future_ops Promise_def)
  have "ef_read E (ef_create E False) = None" using assms by (simp add: counter_ok_def)
  then have "\<not> future_step E True s s'" for s' using st by (auto elim: future_step.cases)
  with reach st show ?thesis by blast
qed

theorem future_void_hangs_witness:
  "\<exists>s :: (unit, nat) shared_state. future_reach nat_counter True s \<and> waiter s = WaitRead \<and>
     (\<forall>s'. \<not> future_step nat_counter True s s')"
  using future_void_hangs [OF nat_counter_ok] by blast

end
