(* ===== verification/Socket.thy ===== *)
theory Socket
  imports Aiopp_Prelude
begin

text \<open>
  Addresses and sockets (\<^verbatim>\<open>socket.hpp\<close>, \<^verbatim>\<open>socket.cpp\<close>): IPv4 addresses with ports, their text form and
  their \<^verbatim>\<open>sockaddr_in\<close>, and the functions that create sockets. The functions of the C library and the
  system calls are parameters; \<^verbatim>\<open>std::string\<close>, \<^verbatim>\<open>std::to_string\<close> and \<^verbatim>\<open>std::from_chars\<close> are modelled.
\<close>

subsection \<open>Addresses\<close>

datatype SocketType = Tcp | Udp

text \<open>An address in network byte order.\<close>

type_synonym IpAddress = u32

definition IpAddress_octets :: "u8 \<Rightarrow> u8 \<Rightarrow> u8 \<Rightarrow> u8 \<Rightarrow> IpAddress" where
  "IpAddress_octets o0 o1 o2 o3 =
     ucast o0 OR push_bit 8 (ucast o1) OR push_bit 16 (ucast o2) OR push_bit 24 (ucast o3)"

record IpAddressPort =
  address :: IpAddress
  port :: u16

record sockaddr_in =
  sin_family :: int
  sin_port :: u16
  s_addr :: u32

text \<open>The functions of the C library on addresses, and the constant \<^verbatim>\<open>AF_INET\<close>.\<close>

record inet_api =
  inet_aton :: "string \<Rightarrow> u32 option"
  inet_ntoa :: "u32 \<Rightarrow> string"
  htons :: "u16 \<Rightarrow> u16"
  ntohs :: "u16 \<Rightarrow> u16"
  AF_INET :: int

text \<open>
  What is documented of them: \<^verbatim>\<open>inet_aton\<close> reads the dotted notation \<^verbatim>\<open>inet_ntoa\<close> writes, which consists of
  digits and dots, and the conversions of the byte order are inverse to each other.
\<close>

definition inet_ok :: "inet_api \<Rightarrow> bool" where
  "inet_ok A \<longleftrightarrow>
     (\<forall>ip. inet_aton A (inet_ntoa A ip) = Some ip \<and> CHR '':'' \<notin> set (inet_ntoa A ip)) \<and>
     (\<forall>x. ntohs A (htons A x) = x)"

definition ip_parse :: "inet_api \<Rightarrow> string \<Rightarrow> IpAddress option" where
  "ip_parse A str = (case inet_aton A str of None \<Rightarrow> None | Some ip \<Rightarrow> Some ip)"

definition ip_toString :: "inet_api \<Rightarrow> IpAddress \<Rightarrow> string" where
  "ip_toString A ip = inet_ntoa A ip"

subsection \<open>Decimal numbers\<close>

definition is_digit :: "char \<Rightarrow> bool" where
  "is_digit c \<longleftrightarrow> 48 \<le> (of_char c :: nat) \<and> (of_char c :: nat) \<le> 57"

definition digit_value :: "char \<Rightarrow> nat" where
  "digit_value c = of_char c - 48"

definition digit_char :: "nat \<Rightarrow> char" where
  "digit_char d = char_of (d + 48)"

fun to_string :: "nat \<Rightarrow> string" where
  "to_string n = (if n < 10 then [digit_char n] else to_string (n div 10) @ [digit_char (n mod 10)])"

declare to_string.simps [simp del]

definition decimal_value :: "string \<Rightarrow> nat" where
  "decimal_value ds = foldl (\<lambda>n c. 10 * n + digit_value c) 0 ds"

datatype errc = NoError | InvalidArgument | ResultOutOfRange

text \<open>
  \<^verbatim>\<open>std::from_chars\<close> for a 16-bit unsigned number: the number of characters read, the error and the value,
  which stays what it was on an error.
\<close>

definition from_chars_u16 :: "string \<Rightarrow> u16 \<Rightarrow> nat \<times> errc \<times> u16" where
  "from_chars_u16 cs v =
     (let ds = takeWhile is_digit cs
      in if ds = [] then (0, InvalidArgument, v)
         else if 2 ^ 16 \<le> decimal_value ds then (length ds, ResultOutOfRange, v)
         else (length ds, NoError, of_nat (decimal_value ds)))"

subsection \<open>Addresses with ports\<close>

text \<open>
  The bounds of the port's text are formed with \<^verbatim>\<open>front()\<close> and \<^verbatim>\<open>back()\<close>, which is undefined behaviour when it
  is empty.
\<close>

definition ipp_parse :: "inet_api \<Rightarrow> string \<Rightarrow> IpAddressPort option outcome" where
  "ipp_parse A str =
     (let ipStr = takeWhile (\<lambda>c. c \<noteq> CHR '':'') str
      in if CHR '':'' \<notin> set str then Inr None
         else case ip_parse A ipStr of
                None \<Rightarrow> Inr None
              | Some ip \<Rightarrow>
                  (let portSv = drop (Suc (length ipStr)) str
                   in if portSv = [] then Inl UndefinedBehaviour
                      else let (n, ec, p) = from_chars_u16 portSv 0
                           in if ec \<noteq> NoError \<or> n \<noteq> length portSv then Inr None
                              else Inr (Some \<lparr>address = ip, port = p\<rparr>)))"

definition ipp_toString :: "inet_api \<Rightarrow> IpAddressPort \<Rightarrow> string" where
  "ipp_toString A a = ip_toString A (address a) @ '':'' @ to_string (unat (port a))"

definition getSockAddr :: "inet_api \<Rightarrow> IpAddressPort \<Rightarrow> sockaddr_in" where
  "getSockAddr A a = \<lparr>sin_family = AF_INET A, sin_port = htons A (port a), s_addr = address a\<rparr>"

definition IpAddressPort_sockaddr :: "inet_api \<Rightarrow> sockaddr_in \<Rightarrow> IpAddressPort" where
  "IpAddressPort_sockaddr A sa = \<lparr>address = s_addr sa, port = ntohs A (sin_port sa)\<rparr>"

subsection \<open>Sockets\<close>

text \<open>
  The system calls on a state \<open>'k\<close> of the kernel. An \<^verbatim>\<open>Fd\<close> that goes out of scope closes its descriptor; the
  result of a function is the descriptor inside the returned \<^verbatim>\<open>Fd\<close>, \<open>-1\<close> for an empty one.
\<close>

record 'k socket_api =
  sys_socket :: "int \<Rightarrow> int \<Rightarrow> int \<Rightarrow> 'k \<Rightarrow> int \<times> 'k"
  sys_setsockopt :: "int \<Rightarrow> 'k \<Rightarrow> int \<times> 'k"
  sys_bind :: "int \<Rightarrow> sockaddr_in \<Rightarrow> 'k \<Rightarrow> int \<times> 'k"
  sys_listen :: "int \<Rightarrow> int \<Rightarrow> 'k \<Rightarrow> int \<times> 'k"
  sys_close :: "int \<Rightarrow> 'k \<Rightarrow> 'k"
  SOCK_STREAM :: int
  SOCK_DGRAM :: int
  inet :: inet_api

definition getSocketType :: "'k socket_api \<Rightarrow> SocketType \<Rightarrow> int" where
  "getSocketType S t = (case t of Tcp \<Rightarrow> SOCK_STREAM S | Udp \<Rightarrow> SOCK_DGRAM S)"

text \<open>Leaving the scope of an \<^verbatim>\<open>Fd\<close>.\<close>

definition drop_fd :: "'k socket_api \<Rightarrow> int \<Rightarrow> 'k \<Rightarrow> 'k" where
  "drop_fd S fd k = (if fd \<noteq> - 1 then sys_close S fd k else k)"

definition createSocket :: "'k socket_api \<Rightarrow> SocketType \<Rightarrow> 'k \<Rightarrow> int \<times> 'k" where
  "createSocket S t k = sys_socket S (AF_INET (inet S)) (getSocketType S t) 0 k"

definition bind_socket :: "'k socket_api \<Rightarrow> int \<Rightarrow> IpAddressPort \<Rightarrow> 'k \<Rightarrow> bool \<times> 'k" where
  "bind_socket S fd a k =
     (let (res, k') = sys_bind S fd \<lparr>sin_family = AF_INET (inet S), sin_port = htons (inet S) (port a), s_addr = address a\<rparr> k
      in (res \<noteq> - 1, k'))"

definition createSocket_bound :: "'k socket_api \<Rightarrow> SocketType \<Rightarrow> IpAddressPort \<Rightarrow> bool \<Rightarrow> 'k \<Rightarrow> int \<times> 'k" where
  "createSocket_bound S t a reuseAddr k =
     (let (fd, k1) = createSocket S t k
      in if fd = - 1 then (fd, k1)
         else let (ok, k2) = (if reuseAddr then let (res, k') = sys_setsockopt S fd k1 in (res \<noteq> - 1, k') else (True, k1))
              in if \<not> ok then (- 1, drop_fd S fd k2)
                 else let (bound, k3) = bind_socket S fd a k2
                      in if \<not> bound then (- 1, drop_fd S fd k3) else (fd, k3))"

definition createUdpSocket :: "'k socket_api \<Rightarrow> IpAddressPort \<Rightarrow> 'k \<Rightarrow> int \<times> 'k" where
  "createUdpSocket S a k =
     (let (fd, k1) = createSocket S Udp k; (bound, k2) = bind_socket S fd a k1
      in if \<not> bound then (- 1, drop_fd S fd k2) else (fd, k2))"

definition createTcpListenSocket :: "'k socket_api \<Rightarrow> IpAddressPort \<Rightarrow> int \<Rightarrow> 'k \<Rightarrow> int \<times> 'k" where
  "createTcpListenSocket S a backlog k =
     (let (fd, k1) = createSocket_bound S Tcp a True k
      in if fd = - 1 then (fd, k1)
         else let (res, k2) = sys_listen S fd backlog k1
              in if res = - 1 then (- 1, drop_fd S fd k2) else (fd, k2))"

subsection \<open>Decimal round trip\<close>

lemma of_char_digit: "d < 10 \<Longrightarrow> (of_char (digit_char d) :: nat) = d + 48"
  by (simp add: digit_char_def)

lemma digit_char_digit: "d < 10 \<Longrightarrow> is_digit (digit_char d)"
  by (simp add: is_digit_def of_char_digit)

lemma digit_value_char: "d < 10 \<Longrightarrow> digit_value (digit_char d) = d"
  by (simp add: digit_value_def of_char_digit)

lemma decimal_value_snoc: "decimal_value (ds @ [c]) = 10 * decimal_value ds + digit_value c"
  by (simp add: decimal_value_def)

lemma to_string_digits: "to_string n \<noteq> [] \<and> (\<forall>c\<in>set (to_string n). is_digit c) \<and> decimal_value (to_string n) = n"
proof (induction n rule: to_string.induct)
  case (1 n)
  show ?case
  proof (cases "n < 10")
    case True
    then show ?thesis
      by (subst (1 2 3) to_string.simps) (simp add: digit_char_digit digit_value_char decimal_value_def)
  next
    case False
    with 1 show ?thesis
      by (subst (1 2 3) to_string.simps) (auto simp: decimal_value_snoc digit_value_char digit_char_digit)
  qed
qed

lemma is_digit_colon: "\<not> is_digit (CHR '':'')"
  by (simp add: is_digit_def)

lemma from_chars_iff:
  "from_chars_u16 cs v = (length cs, NoError, p) \<longleftrightarrow>
   cs \<noteq> [] \<and> (\<forall>c\<in>set cs. is_digit c) \<and> decimal_value cs < 2 ^ 16 \<and> p = of_nat (decimal_value cs)"
proof (cases "\<forall>c\<in>set cs. is_digit c")
  case True
  then have tw: "takeWhile is_digit cs = cs" by simp
  show ?thesis unfolding from_chars_u16_def Let_def tw using True by auto
next
  case False
  then have "length (takeWhile is_digit cs) \<noteq> length cs"
    by (metis takeWhile_eq_all_conv takeWhile_eq_take take_all_iff order_refl)
  then show ?thesis using False by (auto simp: from_chars_u16_def Let_def split: if_splits)
qed

text \<open>Splitting at the first colon.\<close>

lemma split_at_colon:
  "CHR '':'' \<notin> set ip \<Longrightarrow> takeWhile (\<lambda>c. c \<noteq> CHR '':'') (ip @ CHR '':'' # ps) = ip"
  by (subst takeWhile_append2) auto

lemma colon_split:
  assumes "CHR '':'' \<in> set str"
  shows "str = takeWhile (\<lambda>c. c \<noteq> CHR '':'') str @ CHR '':'' # drop (Suc (length (takeWhile (\<lambda>c. c \<noteq> CHR '':'') str))) str"
proof -
  let ?ip = "takeWhile (\<lambda>c. c \<noteq> CHR '':'') str"
  have "dropWhile (\<lambda>c. c \<noteq> CHR '':'') str \<noteq> []" using assms by (simp add: dropWhile_eq_Nil_conv)
  then obtain c ps where d: "dropWhile (\<lambda>c. c \<noteq> CHR '':'') str = c # ps" by (cases "dropWhile (\<lambda>c. c \<noteq> CHR '':'') str") auto
  then have "c = CHR '':''" by (metis (mono_tags, lifting) hd_dropWhile list.distinct(1) list.sel(1))
  with d have e: "str = ?ip @ CHR '':'' # ps" by (metis takeWhile_dropWhile_id)
  then have "drop (Suc (length ?ip)) str = ps"
    by (metis append_Cons append_Nil append_assoc append_eq_conv_conj length_append_singleton)
  with e show ?thesis by simp
qed

lemma ipp_parse_split:
  assumes "CHR '':'' \<notin> set ip"
  shows "ipp_parse A (ip @ CHR '':'' # ps) =
    (case inet_aton A ip of
       None \<Rightarrow> Inr None
     | Some a \<Rightarrow>
         if ps = [] then Inl UndefinedBehaviour
         else if (\<forall>c\<in>set ps. is_digit c) \<and> decimal_value ps < 2 ^ 16
              then Inr (Some \<lparr>address = a, port = of_nat (decimal_value ps)\<rparr>)
              else Inr None)"
proof -
  obtain n ec p where r: "from_chars_u16 ps 0 = (n, ec, p)" by (cases "from_chars_u16 ps 0")
  have ok: "ec = NoError \<and> n = length ps \<longleftrightarrow> ps \<noteq> [] \<and> (\<forall>c\<in>set ps. is_digit c) \<and> decimal_value ps < 2 ^ 16"
    using from_chars_iff [of ps 0 p] from_chars_iff [of ps 0 "of_nat (decimal_value ps)"] r by auto
  have val: "p = of_nat (decimal_value ps)" if "ec = NoError" "n = length ps"
    using from_chars_iff [of ps 0 p] r that by simp
  have "ipp_parse A (ip @ CHR '':'' # ps) = (case inet_aton A ip of None \<Rightarrow> Inr None | Some a \<Rightarrow>
      if ps = [] then Inl UndefinedBehaviour
      else if ec \<noteq> NoError \<or> n \<noteq> length ps then Inr None else Inr (Some \<lparr>address = a, port = p\<rparr>))"
    unfolding ipp_parse_def Let_def split_at_colon [OF assms]
    by (simp add: r ip_parse_def split: option.splits)
  also have "\<dots> = (case inet_aton A ip of None \<Rightarrow> Inr None | Some a \<Rightarrow>
      if ps = [] then Inl UndefinedBehaviour
      else if (\<forall>c\<in>set ps. is_digit c) \<and> decimal_value ps < 2 ^ 16
           then Inr (Some \<lparr>address = a, port = of_nat (decimal_value ps)\<rparr>) else Inr None)"
  proof (cases "ec = NoError \<and> n = length ps")
    case True
    with ok val show ?thesis by (simp split: option.splits)
  next
    case False
    with ok show ?thesis by (cases "ps = []") (auto split: option.splits)
  qed
  finally show ?thesis .
qed

subsection \<open>Properties\<close>

text \<open>
  C33: Parsing the text of an address with port gives back that address and port, for every address and
  port, and so does going through \<^verbatim>\<open>sockaddr_in\<close>.
\<close>

theorem address_port_roundtrip:
  assumes A: "inet_ok A"
  shows "ipp_parse A (ipp_toString A a) = Inr (Some a) \<and> IpAddressPort_sockaddr A (getSockAddr A a) = a"
proof -
  have ip: "inet_aton A (inet_ntoa A (address a)) = Some (address a)" "CHR '':'' \<notin> set (inet_ntoa A (address a))"
    "ntohs A (htons A (port a)) = port a" using A by (simp_all add: inet_ok_def)
  have "unat (port a) < 2 ^ LENGTH(16)" by (rule unsigned_less)
  with to_string_digits [of "unat (port a)"] ipp_parse_split [OF ip(2), of A "to_string (unat (port a))"] ip
  show ?thesis by (simp add: ipp_toString_def ip_toString_def IpAddressPort_sockaddr_def getSockAddr_def)
qed

text \<open>A stand-in for the C library that knows one address.\<close>

definition loopback_inet :: inet_api where
  "loopback_inet =
     \<lparr>inet_aton = (\<lambda>s. if length s < 2 ^ 32 \<and> set s \<subseteq> {CHR ''1''} then Some (of_nat (length s)) else None),
      inet_ntoa = (\<lambda>ip. replicate (unat ip) CHR ''1''), htons = (\<lambda>x. NOT x), ntohs = (\<lambda>x. NOT x), AF_INET = 2\<rparr>"

lemma loopback_ok: "inet_ok loopback_inet"
proof -
  have "unat (ip :: u32) < 2 ^ LENGTH(32)" for ip by (rule unsigned_less)
  then show ?thesis by (auto simp: inet_ok_def loopback_inet_def)
qed

theorem address_port_roundtrip_witness:
  "ipp_parse loopback_inet (ipp_toString loopback_inet \<lparr>address = 3, port = 8080\<rparr>) = Inr (Some \<lparr>address = 3, port = 8080\<rparr>)"
  using address_port_roundtrip [OF loopback_ok, of "\<lparr>address = 3, port = 8080\<rparr>"] by blast

text \<open>
  Exactly which texts are accepted: an address the C library accepts, a colon, and one or more
  digits with a value below 65536, which become the port; the first colon separates. With an address
  but no text after the colon the result is undefined behaviour, everything else is rejected.
\<close>

theorem ipp_parse_exact:
  "ipp_parse A str =
     (if CHR '':'' \<notin> set str then Inr None
      else let ip = takeWhile (\<lambda>c. c \<noteq> CHR '':'') str; ps = drop (Suc (length ip)) str
      in case inet_aton A ip of
           None \<Rightarrow> Inr None
         | Some a \<Rightarrow>
             if ps = [] then Inl UndefinedBehaviour
             else if list_all is_digit ps \<and> decimal_value ps < 65536
                  then Inr (Some \<lparr>address = a, port = of_nat (decimal_value ps)\<rparr>)
                  else Inr None)"
proof (cases "CHR '':'' \<in> set str")
  case True
  let ?ip = "takeWhile (\<lambda>c. c \<noteq> CHR '':'') str"
  have "CHR '':'' \<notin> set ?ip" by (auto dest: set_takeWhileD)
  note p = ipp_parse_split [OF this, of A "drop (Suc (length ?ip)) str", unfolded colon_split [OF True, symmetric]]
  show ?thesis unfolding p using True by (simp add: Let_def list_all_iff split: option.splits)
next
  case False
  then show ?thesis by (simp add: ipp_parse_def)
qed

text \<open>
  C34: A listening socket is created completely or not at all: if the result is a descriptor, it is the
  one \<^verbatim>\<open>socket\<close> returned and nothing was closed; if the result is \<open>-1\<close> although \<^verbatim>\<open>socket\<close> returned a descriptor,
  closing that descriptor is the last system call made, after the failing one.
\<close>

theorem listen_socket_cleanup:
  assumes fd: "createSocket S Tcp k = (fd, k1)" "fd \<noteq> - 1" and r: "createTcpListenSocket S a backlog k = (res, k')"
  shows "(res = fd \<and>
      (\<exists>k2 k3 r1 r2 r3. sys_setsockopt S fd k1 = (r1, k2) \<and> r1 \<noteq> - 1 \<and> sys_bind S fd (getSockAddr (inet S) a) k2 = (r2, k3) \<and>
         r2 \<noteq> - 1 \<and> sys_listen S fd backlog k3 = (r3, k') \<and> r3 \<noteq> - 1)) \<or>
    (res = - 1 \<and> (\<exists>kf. k' = sys_close S fd kf \<and>
       (sys_setsockopt S fd k1 = (- 1, kf) \<or>
        (\<exists>r1 k2. sys_setsockopt S fd k1 = (r1, k2) \<and> sys_bind S fd (getSockAddr (inet S) a) k2 = (- 1, kf)) \<or>
        (\<exists>r1 k2 r2 k3. sys_setsockopt S fd k1 = (r1, k2) \<and> sys_bind S fd (getSockAddr (inet S) a) k2 = (r2, k3) \<and>
           sys_listen S fd backlog k3 = (- 1, kf)))))"
proof -
  obtain r1 k2 where o: "sys_setsockopt S fd k1 = (r1, k2)" by fastforce
  obtain r2 k3 where b: "sys_bind S fd (getSockAddr (inet S) a) k2 = (r2, k3)" by fastforce
  obtain r3 k4 where l: "sys_listen S fd backlog k3 = (r3, k4)" by fastforce
  note defs = createTcpListenSocket_def createSocket_bound_def bind_socket_def drop_fd_def Let_def
  show ?thesis
    using r fd o b l
    by (cases "r1 = - 1"; cases "r2 = - 1"; cases "r3 = - 1") (auto simp: defs getSockAddr_def)
qed

text \<open>A kernel that hands out descriptor 7, refuses to listen, and records what was closed.\<close>

definition refusing_kernel :: "int list socket_api" where
  "refusing_kernel =
     \<lparr>sys_socket = (\<lambda>_ _ _ k. (7, k)), sys_setsockopt = (\<lambda>_ k. (0, k)), sys_bind = (\<lambda>_ _ k. (0, k)),
      sys_listen = (\<lambda>_ _ k. (- 1, k)), sys_close = (\<lambda>fd k. k @ [fd]), SOCK_STREAM = 1, SOCK_DGRAM = 2, inet = loopback_inet\<rparr>"

theorem listen_socket_cleanup_witness:
  "createTcpListenSocket refusing_kernel \<lparr>address = 0, port = 80\<rparr> 10 [] = (- 1, [7]) \<and>
   (\<exists>kf. [7] = sys_close refusing_kernel 7 kf)"
proof -
  have "createSocket refusing_kernel Tcp [] = (7, [])" "(7 :: int) \<noteq> - 1"
    "createTcpListenSocket refusing_kernel \<lparr>address = 0, port = 80\<rparr> 10 [] = (- 1, [7])"
    by (simp_all add: refusing_kernel_def createSocket_def createTcpListenSocket_def createSocket_bound_def
      bind_socket_def drop_fd_def)
  from listen_socket_cleanup [OF this] this(3) show ?thesis by auto
qed

end
