(* ===== verification/PoolTasks.thy ===== *)
theory PoolTasks
  imports ThreadPool Future Socket
begin

text \<open>
  Functions that run on the thread pool: \<^verbatim>\<open>ThreadPool::submit\<close> and \<^verbatim>\<open>wrapAsTask\<close> of \<^verbatim>\<open>threadpool.hpp\<close>, and
  \<^verbatim>\<open>resolve\<close> of \<^verbatim>\<open>net.cpp\<close>. The state is that of a pool whose tasks are numbered closures, one promise for
  every closure, for every worker whether it is inside the closure it runs, and a log of the functions that were called. The pool and the promises take the steps of their
  own theories; what is added is who takes which step, and what a closure does.
\<close>

subsection \<open>State and steps\<close>

record ('a, 'e) pool_system =
  sys_pool :: "nat pool"
  sys_shared :: "nat \<Rightarrow> ('a, 'e) shared_state option"
  sys_inside :: "nat \<Rightarrow> bool"
  sys_called :: "nat list"

definition new_pool_system :: "nat \<Rightarrow> ('a, 'e) pool_system" where
  "new_pool_system numThreads = \<lparr>sys_pool = ThreadPool numThreads, sys_shared = Map.empty, sys_inside = (\<lambda>_. False), sys_called = []\<rparr>"

text \<open>\<^verbatim>\<open>submit\<close> by thread \<open>t\<close>: a new promise, whose future is returned, and a call of \<^verbatim>\<open>push\<close> with closure \<open>j\<close>.\<close>

definition submit_call :: "'e eventfd_api \<Rightarrow> nat \<Rightarrow> nat \<Rightarrow> ('a, 'e) pool_system \<Rightarrow> ('a, 'e) pool_system" where
  "submit_call E t j s = s\<lparr>sys_shared := (sys_shared s)(j \<mapsto> Promise E), sys_pool := push_call t j (sys_pool s)\<rparr>"

text \<open>
  Worker \<open>w\<close> calls the closure: for \<^verbatim>\<open>void\<close> it calls \<^verbatim>\<open>promise.set()\<close>, otherwise \<^verbatim>\<open>promise.set(func())\<close>. \<open>func j\<close> is what
  the function of closure \<open>j\<close> returns; the promise of \<^verbatim>\<open>void\<close> has a flag instead of a value.
\<close>

definition closure_call :: "bool \<Rightarrow> (nat \<Rightarrow> 'a) \<Rightarrow> nat \<Rightarrow> nat \<Rightarrow> ('a, 'e) shared_state \<Rightarrow> ('a, 'e) pool_system
    \<Rightarrow> ('a, 'e) pool_system" where
  "closure_call is_void func w j sh s =
     (if is_void
      then s\<lparr>sys_inside := (sys_inside s)(w := True), sys_shared := (sys_shared s)(j \<mapsto> promise_set_call (func j) sh)\<rparr>
      else s\<lparr>sys_inside := (sys_inside s)(w := True), sys_called := sys_called s @ [j],
             sys_shared := (sys_shared s)(j \<mapsto> promise_set_call (func j) sh)\<rparr>)"

text \<open>The closure returns, and the worker goes on.\<close>

definition closure_return :: "nat \<Rightarrow> ('a, 'e) pool_system \<Rightarrow> ('a, 'e) pool_system" where
  "closure_return w s = s\<lparr>sys_inside := (sys_inside s)(w := False), sys_pool := worker_run w (sys_pool s)\<rparr>"

text \<open>The steps of \<^verbatim>\<open>set\<close>, which the worker takes, and of \<^verbatim>\<open>IoQueue::wait\<close>, which the task of \<^verbatim>\<open>wrapAsTask\<close> takes.\<close>

inductive setter_step :: "'e eventfd_api \<Rightarrow> bool \<Rightarrow> ('a, 'e) shared_state \<Rightarrow> ('a, 'e) shared_state \<Rightarrow> bool"
  for E :: "'e eventfd_api" and is_void :: bool where
  "setter s = SetValue v \<Longrightarrow> setter_step E is_void s (promise_set_value v s)"
| "setter s = SetNotify \<Longrightarrow> setter_step E is_void s (promise_notify is_void s)"
| "setter s = SetWrite \<Longrightarrow> ef_write E (sh_event s) 1 = Some e \<Longrightarrow> setter_step E is_void s (promise_write e s)"

inductive waiter_step :: "'e eventfd_api \<Rightarrow> ('a, 'e) shared_state \<Rightarrow> ('a, 'e) shared_state \<Rightarrow> bool"
  for E :: "'e eventfd_api" where
  "waiter s = WaitReady \<Longrightarrow> waiter_step E s (wait_ready s)"
| "waiter s = WaitRead \<Longrightarrow> ef_read E (sh_event s) = Some (v, e) \<Longrightarrow> waiter_step E s (wait_read v e s)"
| "waiter s = WaitGet \<Longrightarrow> sh_value s = Some x \<Longrightarrow> waiter_step E s (future_get x s)"

text \<open>A step of the pool in which nobody calls \<^verbatim>\<open>push\<close> and no task ends.\<close>

definition pool_internal :: "nat pool \<Rightarrow> nat pool \<Rightarrow> bool" where
  "pool_internal p p' \<longleftrightarrow> pool_step p p' \<and> (\<forall>t. pushers p t = PIdle \<longrightarrow> pushers p' t = PIdle) \<and>
     (\<forall>w j. workers p w = WRun j \<longrightarrow> workers p' w = WRun j)"

inductive system_step :: "'e eventfd_api \<Rightarrow> bool \<Rightarrow> (nat \<Rightarrow> 'a) \<Rightarrow> ('a, 'e) pool_system \<Rightarrow> ('a, 'e) pool_system \<Rightarrow> bool"
  for E :: "'e eventfd_api" and is_void :: bool and func :: "nat \<Rightarrow> 'a" where
  submit: "pushers (sys_pool s) t = PIdle \<Longrightarrow> sys_shared s j = None \<Longrightarrow>
    system_step E is_void func s (submit_call E t j s)"
| pool: "pool_internal (sys_pool s) p \<Longrightarrow> system_step E is_void func s (s\<lparr>sys_pool := p\<rparr>)"
| call: "workers (sys_pool s) w = WRun j \<Longrightarrow> \<not> sys_inside s w \<Longrightarrow> sys_shared s j = Some sh \<Longrightarrow>
    system_step E is_void func s (closure_call is_void func w j sh s)"
| set_step: "workers (sys_pool s) w = WRun j \<Longrightarrow> sys_inside s w \<Longrightarrow> sys_shared s j = Some sh \<Longrightarrow> setter_step E is_void sh sh' \<Longrightarrow>
    system_step E is_void func s (s\<lparr>sys_shared := (sys_shared s)(j \<mapsto> sh')\<rparr>)"
| finish: "workers (sys_pool s) w = WRun j \<Longrightarrow> sys_inside s w \<Longrightarrow> sys_shared s j = Some sh \<Longrightarrow> setter sh = SetDone \<Longrightarrow>
    system_step E is_void func s (closure_return w s)"
| wait_step: "sys_shared s j = Some sh \<Longrightarrow> waiter_step E sh sh' \<Longrightarrow>
    system_step E is_void func s (s\<lparr>sys_shared := (sys_shared s)(j \<mapsto> sh')\<rparr>)"

text \<open>
  The function \<^verbatim>\<open>resolve\<close> submits: \<open>gai\<close> is \<^verbatim>\<open>getaddrinfo\<close> with the hints of the code, its error code and its list of
  results, each with the length of its address and the address as a \<^verbatim>\<open>sockaddr_in\<close>.
\<close>

record addrinfo =
  ai_addrlen :: nat
  ai_addr :: sockaddr_in

definition sizeof_sockaddr_in :: nat where
  "sizeof_sockaddr_in = 16"

primrec collect_addresses :: "addrinfo list \<Rightarrow> u32 list" where
  "collect_addresses [] = []"
| "collect_addresses (ai # ais) =
     (if ai_addrlen ai = sizeof_sockaddr_in then s_addr (ai_addr ai) # collect_addresses ais else collect_addresses ais)"

definition resolve :: "(string \<Rightarrow> int \<times> addrinfo list) \<Rightarrow> string \<Rightarrow> u32 list" where
  "resolve gai name = (case gai name of (res, result) \<Rightarrow> if res \<noteq> 0 then [] else collect_addresses result)"

subsection \<open>The components take their own steps\<close>

lemma setter_future: "setter_step E v s s' \<Longrightarrow> future_step E v s s'"
  by (auto elim!: setter_step.cases intro: future_step.intros)

lemma waiter_future: "waiter_step E s s' \<Longrightarrow> future_step E v s s'"
  by (auto elim!: waiter_step.cases intro: future_step.intros)

lemma setter_keeps:
  "setter_step E v s s' \<Longrightarrow> \<not> sh_failed s' \<Longrightarrow> setter s \<noteq> SetIdle \<and> setter s' \<noteq> SetIdle \<and> (\<forall>x. setter s' \<noteq> SetValue x) \<and>
     (\<forall>x. sh_value s' = Some x \<longrightarrow> sh_value s = Some x \<or> setter s = SetValue x)"
  by (auto elim!: setter_step.cases simp: future_ops split: if_splits)

lemma waiter_keeps: "waiter_step E s s' \<Longrightarrow> setter s' = setter s \<and> sh_value s' = sh_value s"
  by (auto elim!: waiter_step.cases simp: future_ops)

lemma future_steps:
  "future_reach E v s \<Longrightarrow> setter s = SetIdle \<Longrightarrow> future_reach E v (promise_set_call x s)"
  "future_reach E v s \<Longrightarrow> setter_step E v s s' \<Longrightarrow> future_reach E v s'"
  "future_reach E v s \<Longrightarrow> waiter_step E s s' \<Longrightarrow> future_reach E v s'"
  by (erule reach_step, erule future_step.set_call)
    (erule reach_step, erule setter_future, erule reach_step, erule waiter_future)

lemma pool_steps:
  "pool_reach p \<Longrightarrow> pool_step p p' \<Longrightarrow> pool_reach p'"
  "pool_reach p \<Longrightarrow> pushers p t = PIdle \<Longrightarrow> pool_reach (push_call t j p)"
  "pool_reach p \<Longrightarrow> workers p w = WRun j \<Longrightarrow> pool_reach (worker_run w p)"
  by (erule (1) reach_step)
    (erule reach_step, erule pool_step.push_call, erule reach_step, erule pool_step.run_task)

subsection \<open>Every closure runs once\<close>

text \<open>
  Closures that are pushed once are in the queue once, so that no two workers run the same one. A closure is in the hands of a
  thread inside \<^verbatim>\<open>push\<close>, then in the queue, then with a worker.
\<close>

definition pushing :: "nat pool \<Rightarrow> nat \<Rightarrow> nat \<Rightarrow> bool" where
  "pushing p t j \<longleftrightarrow> pushers p t = PLock j \<or> pushers p t = PPush j"

definition handed :: "nat pool \<Rightarrow> nat set" where
  "handed p = set (pushed p) \<union> {j. \<exists>t. pushing p t j}"

definition jobs_once :: "nat pool \<Rightarrow> bool" where
  "jobs_once p \<longleftrightarrow> distinct (pushed p) \<and> (\<forall>t j. pushing p t j \<longrightarrow> j \<notin> set (pushed p)) \<and>
     (\<forall>t t' j. pushing p t j \<longrightarrow> pushing p t' j \<longrightarrow> t = t') \<and> (\<forall>w j. workers p w = WRun j \<longrightarrow> j \<in> set (started p)) \<and>
     (\<forall>w w' j. workers p w = WRun j \<longrightarrow> workers p w' = WRun j \<longrightarrow> w = w')"

lemma jobs_onceD:
  assumes "jobs_once p"
  shows "distinct (pushed p)" "pushing p t j \<Longrightarrow> j \<notin> set (pushed p)" "pushing p t j \<Longrightarrow> pushing p t' j \<Longrightarrow> t = t'"
    "workers p w = WRun j \<Longrightarrow> j \<in> set (started p)" "workers p w = WRun j \<Longrightarrow> workers p w' = WRun j \<Longrightarrow> w = w'"
  using assms unfolding jobs_once_def by blast+

lemma jobs_onceI:
  assumes "distinct (pushed p)" "\<And>t j. pushing p t j \<Longrightarrow> j \<notin> set (pushed p)" "\<And>t t' j. pushing p t j \<Longrightarrow> pushing p t' j \<Longrightarrow> t = t'"
    "\<And>w j. workers p w = WRun j \<Longrightarrow> j \<in> set (started p)" "\<And>w w' j. workers p w = WRun j \<Longrightarrow> workers p w' = WRun j \<Longrightarrow> w = w'"
  shows "jobs_once p"
  using assms unfolding jobs_once_def by blast

definition same_jobs :: "nat pool \<Rightarrow> nat pool \<Rightarrow> bool" where
  "same_jobs p p' \<longleftrightarrow> pushed p' = pushed p \<and> started p' = started p \<and> (\<forall>t j. pushing p' t j \<longleftrightarrow> pushing p t j) \<and>
     (\<forall>w j. workers p' w = WRun j \<longleftrightarrow> workers p w = WRun j)"

text \<open>Of the steps of the pool, only the end of \<^verbatim>\<open>push\<close> and the start of a task move a closure.\<close>

lemma internal_cases:
  assumes "pool_internal p p'" and q: "queue_inv p"
  obtains "same_jobs p p'" | t f where "pushers p t = PPush f" "p' = push_task t f p"
    | w f fs where "workers p w = WCheck" "tasks p = f # fs" "p' = set_worker w (WRun f) (p\<lparr>tasks := fs, started := started p @ [f], tasksMutex := None\<rparr>)"
proof -
  have step: "pool_step p p'" and pu: "\<And>t. pushers p t = PIdle \<Longrightarrow> pushers p' t = PIdle"
    and wr: "\<And>w j. workers p w = WRun j \<Longrightarrow> workers p' w = WRun j" using assms(1) by (auto simp: pool_internal_def)
  from step show thesis
  proof cases
    case (check w)
    show thesis
    proof (cases "running p")
      case True
      with q check obtain f fs where f: "tasks p = f # fs" by (cases "tasks p") (auto simp: queue_inv_def)
      show thesis by (rule that(3) [OF check(2) f]) (use True check f in \<open>simp add: worker_check_def\<close>)
    qed (use check in \<open>intro that(1), auto simp: same_jobs_def pushing_def pool_ops\<close>)
  next
    case (run_task w f)
    with wr [of w f] show thesis by (simp add: pool_ops)
  next
    case (push_call t f)
    with pu [of t] show thesis by (simp add: pool_ops)
  next
    case (push_task t f)
    show thesis by (rule that(2) [OF push_task(2,1)])
  qed (intro that(1); auto simp: same_jobs_def pushing_def pool_ops split: if_splits)+
qed

lemma jobs_once_same: "jobs_once p \<Longrightarrow> same_jobs p p' \<Longrightarrow> jobs_once p'"
  unfolding jobs_once_def same_jobs_def by metis

lemma handed_same: "same_jobs p p' \<Longrightarrow> handed p' = handed p"
  by (simp add: handed_def same_jobs_def)

lemma jobs_once_internal:
  assumes once: "jobs_once p" and q: "queue_inv p" and step: "pool_internal p p'"
  shows "jobs_once p' \<and> handed p' = handed p \<and> set (started p) \<subseteq> set (started p') \<and>
    (\<forall>w j. workers p' w = WRun j \<longrightarrow> workers p w = WRun j \<or> j \<in> handed p - set (started p))"
  using step q
proof (cases rule: internal_cases)
  case 1
  with jobs_once_same [OF once 1] handed_same [OF 1] show ?thesis by (simp add: same_jobs_def)
next
  case (2 t f)
  have f: "pushing p t f" "f \<notin> set (pushed p)" using once 2(1) by (auto simp: jobs_once_def pushing_def)
  have pp: "pushing p' t' j \<longleftrightarrow> t' \<noteq> t \<and> pushing p t' j" "workers p' = workers p" "started p' = started p" "pushed p' = pushed p @ [f]" for t' j
    using 2 by (simp_all add: pushing_def push_task_def)
  note d = jobs_onceD [OF once]
  have o: "t' = t" if "pushing p t' f" for t' by (rule d(3) [OF that f(1)])
  have u: "pushing p t j \<Longrightarrow> j = f" for j using 2(1) by (simp add: pushing_def)
  have "jobs_once p'"
  proof (rule jobs_onceI; unfold pp)
    show "j \<notin> set (pushed p @ [f])" if "t' \<noteq> t \<and> pushing p t' j" for t' j using that d(2) [of t' j] o [of t'] by auto
    show "t1 = t2" if "t1 \<noteq> t \<and> pushing p t1 j" "t2 \<noteq> t \<and> pushing p t2 j" for t1 t2 j using that d(3) by blast
    show "v = v'" if "workers p v = WRun j" "workers p v' = WRun j" for v v' j by (rule d(5) [OF that])
  qed (use d(1) f(2) in \<open>auto intro: d(4)\<close>)
  moreover have "(\<exists>t'. pushing p t' j) \<longleftrightarrow> j = f \<or> (\<exists>t'. t' \<noteq> t \<and> pushing p t' j)" for j
    using f(1) u by metis
  then have "handed p' = handed p" unfolding handed_def pp by auto
  ultimately show ?thesis by (simp add: pp)
next
  case (3 w f fs)
  have pu: "pushed p = started p @ f # fs" using q 3(2) by (simp add: queue_inv_def)
  have pp: "pushing p' = pushing p" "workers p' = (workers p)(w := WRun f)" "started p' = started p @ [f]" "pushed p' = pushed p"
    using 3(3) by (simp_all add: pushing_def fun_eq_iff set_worker_def)
  have f: "f \<notin> set (started p)" "f \<in> handed p" using once pu by (auto simp: jobs_once_def handed_def)
  note d = jobs_onceD [OF once]
  have n: "workers p v \<noteq> WRun f" for v using d(4) [of v f] f(1) by blast
  have "jobs_once p'"
  proof (rule jobs_onceI; unfold pp)
    show "j \<in> set (started p @ [f])" if "((workers p)(w := WRun f)) v = WRun j" for v j
      using that d(4) [of v j] by (auto split: if_splits)
    show "v = v'" if "((workers p)(w := WRun f)) v = WRun j" "((workers p)(w := WRun f)) v' = WRun j" for v v' j
      using that n [of v] n [of v'] d(5) [of v j v'] by (auto split: if_splits)
    show "t = t'" if "pushing p t j" "pushing p t' j" for t t' j by (rule d(3) [OF that])
  qed (use d(1) in \<open>auto dest: d(2)\<close>)
  moreover have "handed p' = handed p" by (simp add: handed_def pp)
  ultimately show ?thesis using f by (auto simp: pp split: if_splits)
qed

lemma jobs_once_push_call:
  assumes "jobs_once p" "pushers p t = PIdle" "j \<notin> handed p"
  shows "jobs_once (push_call t j p) \<and> handed (push_call t j p) = insert j (handed p)"
proof -
  have pp: "pushing (push_call t j p) t' i \<longleftrightarrow> (if t' = t then i = j else pushing p t' i)" for t' i
    by (auto simp: pushing_def push_call_def)
  have f: "pushed (push_call t j p) = pushed p" "started (push_call t j p) = started p" "workers (push_call t j p) = workers p"
    by (simp_all add: push_call_def)
  have n: "\<not> pushing p t i" for i using assms(2) by (simp add: pushing_def)
  have "j \<notin> set (pushed p)" "\<not> pushing p t' j" for t' using assms(3) by (auto simp: handed_def)
  then have "jobs_once (push_call t j p)"
    by (intro jobs_onceI; unfold pp f)
      (use jobs_onceD(1,2,4) [OF assms(1)] n in \<open>auto split: if_splits dest: jobs_onceD(3,5) [OF assms(1)]\<close>)
  moreover have "(\<exists>t'. pushing (push_call t j p) t' i) \<longleftrightarrow> i = j \<or> (\<exists>t'. pushing p t' i)" for i
    using n unfolding pp by metis
  then have "handed (push_call t j p) = insert j (handed p)" unfolding handed_def f by blast
  ultimately show ?thesis ..
qed

lemma jobs_once_worker_run:
  assumes "jobs_once p"
  shows "jobs_once (worker_run w p) \<and> handed (worker_run w p) = handed p"
proof -
  have pp: "pushing (worker_run w p) = pushing p" "pushed (worker_run w p) = pushed p" "started (worker_run w p) = started p"
    "workers (worker_run w p) = (workers p)(w := WLoad)" by (simp_all add: pushing_def fun_eq_iff worker_run_def set_worker_def)
  from assms show ?thesis unfolding jobs_once_def handed_def pp by (auto split: if_splits)
qed

subsection \<open>Invariant\<close>

text \<open>
  The pool and every promise are in states they reach on their own; the promises only hold what the functions
  return; and the log has, once each, the closures whose promise is being or has been set, or nothing for \<^verbatim>\<open>void\<close>. Nobody sets the
  promise of a closure that no worker has started or that its worker has not called yet.
\<close>

definition promise_inv :: "bool \<Rightarrow> (nat \<Rightarrow> 'a) \<Rightarrow> nat list \<Rightarrow> nat \<Rightarrow> ('a, 'e) shared_state \<Rightarrow> bool" where
  "promise_inv is_void func called j sh \<longleftrightarrow>
     (\<forall>v. setter sh = SetValue v \<longrightarrow> v = func j) \<and> (\<forall>v. sh_value sh = Some v \<longrightarrow> v = func j) \<and>
     (j \<in> set called \<longleftrightarrow> \<not> is_void \<and> setter sh \<noteq> SetIdle)"

definition uncalled :: "('a, 'e) pool_system \<Rightarrow> nat \<Rightarrow> bool" where
  "uncalled s j \<longleftrightarrow> j \<notin> set (started (sys_pool s)) \<or> (\<exists>w. workers (sys_pool s) w = WRun j \<and> \<not> sys_inside s w)"

definition jobs_inv :: "('a, 'e) pool_system \<Rightarrow> bool" where
  "jobs_inv s \<longleftrightarrow> jobs_once (sys_pool s) \<and> handed (sys_pool s) \<subseteq> dom (sys_shared s) \<and>
     (\<forall>w. sys_inside s w \<longrightarrow> (\<exists>j. workers (sys_pool s) w = WRun j)) \<and>
     (\<forall>j sh. sys_shared s j = Some sh \<and> uncalled s j \<longrightarrow> setter sh = SetIdle)"

lemma jobs_invD:
  assumes "jobs_inv s"
  shows "jobs_once (sys_pool s)" "handed (sys_pool s) \<subseteq> dom (sys_shared s)" "sys_inside s w \<Longrightarrow> \<exists>j. workers (sys_pool s) w = WRun j"
    "sys_shared s j = Some sh \<Longrightarrow> uncalled s j \<Longrightarrow> setter sh = SetIdle"
  using assms unfolding jobs_inv_def by blast+

lemma jobs_invI:
  assumes "jobs_once (sys_pool s)" "handed (sys_pool s) \<subseteq> dom (sys_shared s)" "\<And>w. sys_inside s w \<Longrightarrow> \<exists>j. workers (sys_pool s) w = WRun j"
    "\<And>j sh. sys_shared s j = Some sh \<Longrightarrow> uncalled s j \<Longrightarrow> setter sh = SetIdle"
  shows "jobs_inv s"
  using assms unfolding jobs_inv_def by blast

definition system_inv :: "'e eventfd_api \<Rightarrow> bool \<Rightarrow> (nat \<Rightarrow> 'a) \<Rightarrow> ('a, 'e) pool_system \<Rightarrow> bool" where
  "system_inv E is_void func s \<longleftrightarrow>
     pool_reach (sys_pool s) \<and> jobs_inv s \<and> distinct (sys_called s) \<and> set (sys_called s) \<subseteq> dom (sys_shared s) \<and>
     (\<forall>j sh. sys_shared s j = Some sh \<longrightarrow> future_reach E is_void sh \<and> promise_inv is_void func (sys_called s) j sh)"

lemma pool_reach_queue: "pool_reach p \<Longrightarrow> queue_inv p"
  using pool.reach_inv [of p] by (simp add: pool_inv_def)

lemma jobs_inv_submit:
  assumes j: "jobs_inv s" and "pushers (sys_pool s) t = PIdle" "sys_shared s i = None"
  shows "jobs_inv (submit_call E t i s)"
proof -
  note d = jobs_invD [OF j]
  have "i \<notin> handed (sys_pool s)" using d(2) assms(3) by auto
  note o = jobs_once_push_call [OF d(1) assms(2) this]
  have "uncalled s k" if "uncalled (submit_call E t i s) k" for k
    using that by (simp add: uncalled_def submit_call_def push_call_def)
  then show ?thesis
    by (intro jobs_invI) (use o d in \<open>auto simp: submit_call_def push_call_def Promise_def split: if_splits\<close>)
qed

lemma jobs_inv_pool:
  assumes j: "jobs_inv s" and q: "queue_inv (sys_pool s)" and p: "pool_internal (sys_pool s) p"
  shows "jobs_inv (s\<lparr>sys_pool := p\<rparr>)"
proof -
  note d = jobs_invD [OF j]
  note i = jobs_once_internal [OF d(1) q p]
  have u: "uncalled s k" if "uncalled (s\<lparr>sys_pool := p\<rparr>) k" for k
  proof (cases "k \<in> set (started (sys_pool s))")
    case True
    with that i obtain w where w: "workers p w = WRun k" "\<not> sys_inside s w" unfolding uncalled_def by auto
    with i True have "workers (sys_pool s) w = WRun k" by blast
    with w(2) show ?thesis unfolding uncalled_def by blast
  qed (simp add: uncalled_def)
  have "\<exists>k. workers p w = WRun k" if "sys_inside s w" for w
    using d(3) [OF that] p by (auto simp: pool_internal_def)
  then show ?thesis by (intro jobs_invI) (use i d(2) in \<open>auto intro: d(4) u\<close>)
qed

text \<open>The promise of a closure that is being called may change.\<close>

lemma jobs_inv_promise:
  assumes j: "jobs_inv s" and w: "workers (sys_pool s) w = WRun i" and "sys_shared s i = Some sh"
    and s': "sys_pool s' = sys_pool s" "sys_inside s' = (sys_inside s)(w := True)" "sys_shared s' = (sys_shared s)(i \<mapsto> sh')"
  shows "jobs_inv s'"
proof -
  note d = jobs_invD [OF j]
  have "i \<in> set (started (sys_pool s))" by (rule jobs_onceD(4) [OF d(1) w])
  moreover have "v = w" if "workers (sys_pool s) v = WRun i" for v by (rule jobs_onceD(5) [OF d(1) that w])
  ultimately have c: "\<not> uncalled s' i" unfolding uncalled_def s' by auto
  have u: "uncalled s k" if "uncalled s' k" for k
    using that unfolding uncalled_def s' by (auto split: if_splits)
  show ?thesis
  proof (rule jobs_invI; unfold s')
    show "\<exists>k. workers (sys_pool s) v = WRun k" if "((sys_inside s)(w := True)) v" for v
      using that w d(3) [of v] by (cases "v = w") auto
    show "setter x = SetIdle" if "((sys_shared s)(i \<mapsto> sh')) k = Some x" "uncalled s' k" for k x
    proof (rule d(4) [OF _ u [OF that(2)]])
      show "sys_shared s k = Some x" using that c by (cases "k = i") auto
    qed
  qed (use d(1,2) in auto)
qed

lemma jobs_inv_waiter:
  assumes j: "jobs_inv s" and "sys_shared s i = Some sh" "setter sh' = setter sh"
  shows "jobs_inv (s\<lparr>sys_shared := (sys_shared s)(i \<mapsto> sh')\<rparr>)"
proof -
  note d = jobs_invD [OF j]
  have "uncalled (s\<lparr>sys_shared := (sys_shared s)(i \<mapsto> sh')\<rparr>) k \<longleftrightarrow> uncalled s k" for k by (simp add: uncalled_def)
  then show ?thesis by (intro jobs_invI) (use d assms(2,3) in \<open>auto split: if_splits\<close>)
qed

lemma jobs_inv_return:
  assumes j: "jobs_inv s" and w: "workers (sys_pool s) w = WRun i"
  shows "jobs_inv (closure_return w s)"
proof -
  note d = jobs_invD [OF j]
  have f: "sys_pool (closure_return w s) = worker_run w (sys_pool s)" "sys_shared (closure_return w s) = sys_shared s"
    "sys_inside (closure_return w s) = (sys_inside s)(w := False)" "started (worker_run w (sys_pool s)) = started (sys_pool s)"
    "workers (worker_run w (sys_pool s)) = (workers (sys_pool s))(w := WLoad)"
    by (simp_all add: closure_return_def worker_run_def set_worker_def)
  have u: "uncalled s k" if "uncalled (closure_return w s) k" for k
    using that unfolding uncalled_def f by (auto split: if_splits)
  show ?thesis
    by (rule jobs_invI; unfold f)
      (use jobs_once_worker_run [OF d(1), of w] d(2,3) in \<open>auto intro: d(4) u split: if_splits\<close>)
qed

lemma system_inv_promise:
  assumes "system_inv E is_void func s" "sys_shared s j = Some sh" "future_reach E is_void sh'"
    and "promise_inv is_void func (sys_called s) j sh \<Longrightarrow> promise_inv is_void func (sys_called s) j sh'"
    and "jobs_inv (s\<lparr>sys_shared := (sys_shared s)(j \<mapsto> sh')\<rparr>)"
  shows "system_inv E is_void func (s\<lparr>sys_shared := (sys_shared s)(j \<mapsto> sh')\<rparr>)"
  using assms by (auto simp: system_inv_def)

lemma closure_call_inv:
  assumes inv: "system_inv E is_void func s" and sh: "sys_shared s j = Some sh"
    and w: "workers (sys_pool s) w = WRun j" "\<not> sys_inside s w"
  shows "system_inv E is_void func (closure_call is_void func w j sh s)"
proof -
  have ji: "jobs_inv s" using inv by (simp add: system_inv_def)
  have "uncalled s j" using w by (auto simp: uncalled_def)
  with ji sh have idle: "setter sh = SetIdle" unfolding jobs_inv_def by blast
  have r: "future_reach E is_void (promise_set_call (func j) sh)"
    using inv sh idle by (intro future_steps(1)) (auto simp: system_inv_def)
  have j': "jobs_inv (closure_call is_void func w j sh s)"
    by (rule jobs_inv_promise [OF ji w(1) sh]) (simp_all add: closure_call_def)
  have p: "promise_inv is_void func (sys_called s) j sh" using inv sh by (simp add: system_inv_def)
  then have "\<forall>v. sh_value sh = Some v \<longrightarrow> v = func j" "j \<notin> set (sys_called s)"
    using idle by (simp_all add: promise_inv_def)
  with inv r sh(1) j' show ?thesis unfolding system_inv_def
    by (auto simp: closure_call_def promise_inv_def promise_set_call_def)
qed

lemma system_inv_step:
  assumes E: "counter_ok E count" and inv: "system_inv E is_void func s" and step: "system_step E is_void func s s'"
  shows "system_inv E is_void func s'"
  using step
proof cases
  case (submit t j)
  have "pool_reach (push_call t j (sys_pool s))"
    using inv submit by (intro pool_steps(2)) (auto simp: system_inv_def)
  moreover have "future_reach E is_void (Promise E)" by (rule reach_init) (rule refl)
  moreover have "j \<notin> set (sys_called s)" using inv submit by (auto simp: system_inv_def)
  moreover have "jobs_inv (submit_call E t j s)" using inv submit by (intro jobs_inv_submit) (auto simp: system_inv_def)
  ultimately show ?thesis using inv submit by (auto simp: system_inv_def submit_call_def promise_inv_def Promise_def)
next
  case (pool p)
  have "jobs_inv (s\<lparr>sys_pool := p\<rparr>)" using inv pool by (intro jobs_inv_pool pool_reach_queue) (auto simp: system_inv_def)
  then show ?thesis using inv pool pool_steps(1) [of "sys_pool s" p] by (auto simp: system_inv_def pool_internal_def)
next
  case (call w j sh)
  show ?thesis unfolding call(1) by (rule closure_call_inv [OF inv call(4,2,3)])
next
  case (set_step w j sh sh')
  have r: "future_reach E is_void sh'"
    by (rule future_steps(2) [OF _ set_step(5)]) (use inv set_step(4) in \<open>simp add: system_inv_def\<close>)
  then have "\<not> sh_failed sh'" using future_reach_inv [OF E r] by (simp add: future_inv_def)
  note k = setter_keeps [OF set_step(5) this]
  have j: "jobs_inv (s\<lparr>sys_shared := (sys_shared s)(j \<mapsto> sh')\<rparr>)"
    by (rule jobs_inv_promise [OF _ set_step(2,4)]) (use inv set_step(3) in \<open>simp_all add: system_inv_def fun_upd_idem\<close>)
  show ?thesis unfolding set_step(1)
    by (rule system_inv_promise [OF inv set_step(4) r _ j]) (use k in \<open>auto simp: promise_inv_def\<close>)
next
  case (finish w j sh)
  have "pool_reach (worker_run w (sys_pool s))"
    using inv finish by (intro pool_steps(3)) (auto simp: system_inv_def)
  moreover have "jobs_inv (closure_return w s)" using inv finish by (intro jobs_inv_return) (auto simp: system_inv_def)
  ultimately show ?thesis using inv finish by (auto simp: system_inv_def closure_return_def)
next
  case (wait_step j sh sh')
  have r: "future_reach E is_void sh'"
    by (rule future_steps(3) [OF _ wait_step(3)]) (use inv wait_step(2) in \<open>simp add: system_inv_def\<close>)
  have j: "jobs_inv (s\<lparr>sys_shared := (sys_shared s)(j \<mapsto> sh')\<rparr>)"
    using inv wait_step waiter_keeps [OF wait_step(3)] by (intro jobs_inv_waiter) (auto simp: system_inv_def)
  show ?thesis unfolding wait_step(1)
    by (rule system_inv_promise [OF inv wait_step(2) r _ j]) (use waiter_keeps [OF wait_step(3)] in \<open>auto simp: promise_inv_def\<close>)
qed

interpretation pool_system: invariant_system "\<lambda>s. \<exists>n. s = new_pool_system n" "system_step E is_void func"
    "\<lambda>s. (\<exists>count. counter_ok E count) \<longrightarrow> system_inv E is_void func s"
  for E :: "'e eventfd_api" and is_void :: bool and func :: "nat \<Rightarrow> 'a"
proof unfold_locales
  fix s :: "('a, 'e) pool_system" assume "\<exists>n. s = new_pool_system n"
  then obtain n where "s = new_pool_system n" by blast
  moreover have "pool_reach (ThreadPool n :: nat pool)" by (rule reach_init) blast
  moreover have "jobs_inv (new_pool_system n :: ('a, 'e) pool_system)"
    by (auto simp: jobs_inv_def jobs_once_def handed_def pushing_def new_pool_system_def ThreadPool_def Let_def split: if_splits)
  ultimately show "(\<exists>count. counter_ok E count) \<longrightarrow> system_inv E is_void func s" by (auto simp: system_inv_def new_pool_system_def)
qed (use system_inv_step in blast)

abbreviation system_reach :: "'e eventfd_api \<Rightarrow> bool \<Rightarrow> (nat \<Rightarrow> 'a) \<Rightarrow> ('a, 'e) pool_system \<Rightarrow> bool" where
  "system_reach E is_void func \<equiv> reach (\<lambda>s. \<exists>n. s = new_pool_system n) (system_step E is_void func)"

lemma system_reach_inv: "counter_ok E count \<Longrightarrow> system_reach E is_void func s \<Longrightarrow> system_inv E is_void func s"
  using pool_system.reach_inv by blast

subsection \<open>A run\<close>

text \<open>
  A pool of one thread is given one function, the worker has set the promise, and the task that waits for it has
  returned.
\<close>

definition sys_submitted :: "(int, nat) pool_system" where
  "sys_submitted = submit_call nat_counter 0 7 (new_pool_system 1)"

definition pool_started :: "nat pool" where
  "pool_started = worker_check 0 (worker_pred 0 (worker_acquire 0 (worker_load 0
     (push_task 0 7 (push_lock 0 7 (sys_pool sys_submitted))))))"

definition sys_returned :: "bool \<Rightarrow> (int, nat) pool_system" where
  "sys_returned is_void =
     (closure_call is_void (\<lambda>_. 5) 0 7 (Promise nat_counter) (sys_submitted\<lparr>sys_pool := pool_started\<rparr>))
        \<lparr>sys_shared := [7 \<mapsto> future_get 5 (wait_ready (promise_set_value 5 (promise_set_call 5 (Promise nat_counter))))]\<rparr>"

lemmas system_runs = sys_submitted_def pool_started_def sys_returned_def ThreadPool_def submit_call_def new_pool_system_def
  pool_ops Let_def Promise_def

lemma started_reach: "system_reach nat_counter is_void (\<lambda>_. 5) (sys_submitted\<lparr>sys_pool := pool_started\<rparr>)"
proof -
  define R where "R = system_reach nat_counter is_void (\<lambda>_. 5 :: int)"
  define at where "at p = sys_submitted\<lparr>sys_pool := p\<rparr>" for p
  have go: "R (at p')" if "R (at p)" "pool_step p p'" "\<forall>t. pushers p t = PIdle \<longrightarrow> pushers p' t = PIdle"
    "\<forall>w j. workers p w \<noteq> WRun j" for p p'
  proof -
    have "system_step nat_counter is_void (\<lambda>_. 5) (at p) ((at p)\<lparr>sys_pool := p'\<rparr>)"
      by (rule system_step.pool) (use that in \<open>simp add: pool_internal_def at_def\<close>)
    from reach_step [OF that(1) [unfolded R_def] this] show ?thesis by (simp add: R_def at_def)
  qed
  let ?p0 = "sys_pool sys_submitted"
  let ?p1 = "push_lock 0 7 ?p0" let ?p2 = "push_task 0 7 ?p1" let ?p3 = "worker_load 0 ?p2"
  let ?p4 = "worker_acquire 0 ?p3" let ?p5 = "worker_pred 0 ?p4"
  have "R (new_pool_system 1)" unfolding R_def by (rule reach_init) blast
  then have "R sys_submitted"
    unfolding R_def sys_submitted_def by (rule reach_step) (rule system_step.submit, simp_all add: system_runs)
  then have "R (at ?p0)" by (simp add: at_def)
  then have "R (at ?p1)" by (rule go) (rule pool_step.push_lock, simp_all add: system_runs)
  then have "R (at ?p2)" by (rule go) (rule pool_step.push_task, simp_all add: system_runs)
  then have "R (at ?p3)" by (rule go) (rule pool_step.load, simp_all add: system_runs)
  then have "R (at ?p4)" by (rule go) (rule pool_step.acquire, simp_all add: system_runs)
  then have "R (at ?p5)" by (rule go) (rule pool_step.pred, simp_all add: system_runs)
  then have "R (at pool_started)"
    unfolding pool_started_def by (rule go) (rule pool_step.check, simp_all add: system_runs)
  then show ?thesis by (simp add: R_def at_def)
qed

lemma returned_reach: "system_reach nat_counter is_void (\<lambda>_. 5) (sys_returned is_void)"
proof -
  define R where "R = system_reach nat_counter is_void (\<lambda>_. 5 :: int)"
  let ?s = "sys_submitted\<lparr>sys_pool := pool_started\<rparr>"
  define at where "at sh = (closure_call is_void (\<lambda>_. 5) 0 7 (Promise nat_counter) ?s)\<lparr>sys_shared := [7 \<mapsto> sh]\<rparr>" for sh
  have w: "workers pool_started 0 = WRun 7" by (simp add: system_runs)
  have at: "at sh = (at sh')\<lparr>sys_shared := (sys_shared (at sh'))(7 \<mapsto> sh)\<rparr>" "sys_shared (at sh) 7 = Some sh"
    "sys_pool (at sh) = pool_started" "sys_inside (at sh) 0" for sh sh' by (simp_all add: at_def closure_call_def)
  have set_go: "R (at sh')" if "R (at sh)" "setter_step nat_counter is_void sh sh'" for sh sh'
    unfolding at(1) [of sh' sh] R_def
    by (rule reach_step [OF that(1) [unfolded R_def] system_step.set_step [where w = 0 and j = 7, OF _ _ at(2) that(2)]]) (simp_all add: at(3,4) w)
  have wait_go: "R (at sh')" if "R (at sh)" "waiter_step nat_counter sh sh'" for sh sh'
    unfolding at(1) [of sh' sh] R_def
    by (rule reach_step [OF that(1) [unfolded R_def] system_step.wait_step [where j = 7, OF at(2) that(2)]])
  let ?h1 = "promise_set_call 5 (Promise nat_counter)" let ?h2 = "promise_set_value 5 ?h1" let ?h3 = "wait_ready ?h2"
  have call: "system_step nat_counter is_void (\<lambda>_. 5) ?s (closure_call is_void (\<lambda>_. 5) 0 7 (Promise nat_counter) ?s)"
    by (rule system_step.call [where w = 0]) (simp_all add: system_runs)
  have "sys_shared ?s = [7 \<mapsto> Promise nat_counter]" by (simp add: sys_submitted_def submit_call_def new_pool_system_def)
  then have "at ?h1 = closure_call is_void (\<lambda>_. 5) 0 7 (Promise nat_counter) ?s" by (simp add: at_def closure_call_def)
  with reach_step [OF started_reach call] have "R (at ?h1)" by (simp add: R_def)
  then have "R (at ?h2)" by (rule set_go) (rule setter_step.intros, simp add: future_ops)
  then have "R (at ?h3)" by (rule wait_go) (rule waiter_step.intros, simp add: future_ops Promise_def)
  then have "R (at (future_get 5 ?h3))"
    by (rule wait_go) (rule waiter_step.intros, simp_all add: future_ops Promise_def)
  then show ?thesis by (simp add: R_def at_def sys_returned_def)
qed

subsection \<open>Properties\<close>

text \<open>
  C13: A task that runs a function on the thread pool returns what the function returns. Under every interleaving of
  the threads that submit, the workers, the destructor and the tasks that wait: every function is called at most
  once, a task only returns the result of its own function, after the function was called, and tasks are started
  in the order they were pushed.
\<close>

theorem submit_returns_result:
  assumes "counter_ok E count" and "system_reach E False func s" and "sys_shared s j = Some sh"
  shows "distinct (sys_called s) \<and> pushed (sys_pool s) = started (sys_pool s) @ tasks (sys_pool s) \<and>
    (\<forall>x. waiter sh = WaitReturned x \<longrightarrow> x = func j \<and> j \<in> set (sys_called s))"
proof -
  have inv: "system_inv E False func s" by (rule system_reach_inv [OF assms(1,2)])
  then have sh: "future_reach E False sh" "promise_inv False func (sys_called s) j sh" and p: "pool_reach (sys_pool s)"
    using assms(3) by (auto simp: system_inv_def)
  have "future_inv False count sh" by (rule future_reach_inv [OF assms(1) sh(1)])
  then have "x = func j \<and> j \<in> set (sys_called s)" if "waiter sh = WaitReturned x" for x
    using that sh(2) by (auto simp: future_inv_def promise_inv_def)
  moreover have "pushed (sys_pool s) = started (sys_pool s) @ tasks (sys_pool s)"
    using pool.reach_inv [OF p] by (simp add: pool_inv_def queue_inv_def)
  ultimately show ?thesis using inv by (simp add: system_inv_def)
qed

theorem submit_returns_result_witness: "sys_called (sys_returned False) = [7] \<and> (5 :: int) = (\<lambda>_. 5) (7 :: nat)"
  using submit_returns_result [OF nat_counter_ok returned_reach,
      of 7 "future_get 5 (wait_ready (promise_set_value 5 (promise_set_call 5 (Promise nat_counter))))"]
  by (simp add: sys_returned_def closure_call_def future_ops system_runs)

text \<open>
  A function without a result that is submitted to the pool is never called: its closure only sets the promise.
\<close>

theorem submit_void_not_called:
  assumes "counter_ok E count" and "system_reach E True func s"
  shows "sys_called s = []"
proof -
  have "system_inv E True func s" by (rule system_reach_inv [OF assms])
  then have "j \<notin> set (sys_called s)" for j by (auto simp: system_inv_def promise_inv_def)
  then show ?thesis by (cases "sys_called s") auto
qed

text \<open>It happens that the promise of such a function is set and the task that waits for it returns.\<close>

theorem submit_void_not_called_witness:
  "sys_called (sys_returned True) = [] \<and> (\<exists>sh. sys_shared (sys_returned True) 7 = Some sh \<and> waiter sh = WaitReturned 5)"
proof -
  have "\<exists>sh. sys_shared (sys_returned True) 7 = Some sh \<and> waiter sh = WaitReturned 5"
    by (simp add: sys_returned_def future_ops)
  with submit_void_not_called [OF nat_counter_ok returned_reach [of True]] show ?thesis by blast
qed

text \<open>
  \<^verbatim>\<open>resolve\<close> returns the addresses of the results that are addresses of the internet family, in order, and nothing
  when the lookup fails.
\<close>

lemma resolve_eq:
  "resolve gai name = (if fst (gai name) = 0
     then map (\<lambda>ai. s_addr (ai_addr ai)) (filter (\<lambda>ai. ai_addrlen ai = sizeof_sockaddr_in) (snd (gai name))) else [])"
proof -
  have "collect_addresses ais = map (\<lambda>ai. s_addr (ai_addr ai)) (filter (\<lambda>ai. ai_addrlen ai = sizeof_sockaddr_in) ais)" for ais
    by (induction ais) simp_all
  then show ?thesis by (simp add: resolve_def split: prod.splits)
qed

end
