(* ===== verification/CompleterMap.thy ===== *)
theory CompleterMap
  imports Store_Spec
begin

text \<open>
  The completer map (\<^verbatim>\<open>completermap.hpp\<close>, \<^verbatim>\<open>completermap.cpp\<close>): an open-addressing
  hash table from operation ids to completer pointers, with tombstones and a key-dependent probe
  stride. The arithmetic is the 64-bit arithmetic of the source. The table is specified by the
  partial map it represents; insert, get and remove are shown to implement that map.
\<close>

subsection \<open>Data\<close>

text \<open>Pointers are 64-bit words; \<open>Empty\<close> is the null pointer, \<open>Tombstone\<close> the largest one.\<close>

definition Empty :: u64 where
  "Empty = 0"

definition Tombstone :: u64 where
  "Tombstone = - 1"

record entry =
  entry_key :: u64
  entry_value :: u64

record completer_map =
  cm_entries :: "entry list"
  cm_count :: u64

definition cm_size :: "completer_map \<Rightarrow> u64" where
  "cm_size m = cm_count m"

definition cm_capacity :: "completer_map \<Rightarrow> u64" where
  "cm_capacity m = of_nat (length (cm_entries m))"

subsection \<open>Operations\<close>

definition hash :: "u64 \<Rightarrow> u64" where
  "hash x0 =
     (let x1 = x0 XOR drop_bit 30 x0;
          x2 = x1 * 0xbf58476d1ce4e5b9;
          x3 = x2 XOR drop_bit 27 x2;
          x4 = x3 * 0x94d049bb133111eb
      in x4 XOR drop_bit 31 x4)"

definition primes :: "nat list" where
  "primes = [53, 97, 193, 389, 769, 1543, 3079, 6151, 12289, 24593, 49157, 98317, 196613]"

fun first_prime_above :: "nat \<Rightarrow> nat list \<Rightarrow> nat outcome" where
  "first_prime_above num [] = Inl AssertionFailed"
| "first_prime_above num (prime # rest) =
     (if num < prime then Inr prime else first_prime_above num rest)"

definition getNextSize :: "nat \<Rightarrow> nat outcome" where
  "getNextSize num = assertE (num \<le> last primes) (first_prime_above num primes)"

definition CompleterMap :: "nat \<Rightarrow> completer_map outcome" where
  "CompleterMap numEntries =
     bindE (getNextSize numEntries)
       (\<lambda>n. Inr \<lparr>cm_entries = replicate n \<lparr>entry_key = - 1, entry_value = 0\<rparr>, cm_count = 0\<rparr>)"

text \<open>
  The stride \<open>h\<close> and the \<open>i\<close>-th probed index of a key in a table of \<open>n\<close> entries, computed in
  64-bit arithmetic as in both probing loops.
\<close>

definition probe_stride :: "nat \<Rightarrow> u64 \<Rightarrow> u64" where
  "probe_stride n key = hash key mod (of_nat n - 1) + 1"

definition probe_index :: "nat \<Rightarrow> u64 \<Rightarrow> u64 \<Rightarrow> nat \<Rightarrow> nat" where
  "probe_index n key h i = unat ((key + of_nat i * h) mod of_nat n)"

fun insert_loop :: "completer_map \<Rightarrow> u64 \<Rightarrow> u64 \<Rightarrow> u64 \<Rightarrow> nat list \<Rightarrow> completer_map outcome" where
  "insert_loop m key val h [] = Inl Aborted"
| "insert_loop m key val h (i # is) =
     (let idx = probe_index (length (cm_entries m)) key h i;
          entry = cm_entries m ! idx
      in if entry_value entry = Empty \<or> entry_value entry = Tombstone
         then Inr (m\<lparr>cm_entries := (cm_entries m)[idx := \<lparr>entry_key = key, entry_value = val\<rparr>],
                     cm_count := cm_count m + 1\<rparr>)
         else insert_loop m key val h is)"

definition cm_insert :: "completer_map \<Rightarrow> u64 \<Rightarrow> u64 \<Rightarrow> completer_map outcome" where
  "cm_insert m key val =
     assertE (cm_size m < cm_capacity m)
       (insert_loop m key val (probe_stride (length (cm_entries m)) key) [0..<length (cm_entries m)])"

fun lookup_loop :: "completer_map \<Rightarrow> u64 \<Rightarrow> u64 \<Rightarrow> nat list \<Rightarrow> nat option" where
  "lookup_loop m key h [] = None"
| "lookup_loop m key h (i # is) =
     (let idx = probe_index (length (cm_entries m)) key h i;
          entry = cm_entries m ! idx
      in if entry_value entry = Empty then None
         else if entry_value entry \<noteq> Tombstone \<and> entry_key entry = key then Some idx
         else lookup_loop m key h is)"

definition cm_lookup :: "completer_map \<Rightarrow> u64 \<Rightarrow> nat option" where
  "cm_lookup m key =
     lookup_loop m key (probe_stride (length (cm_entries m)) key) [0..<length (cm_entries m)]"

definition cm_get :: "completer_map \<Rightarrow> u64 \<Rightarrow> u64" where
  "cm_get m key =
     (case cm_lookup m key of None \<Rightarrow> 0 | Some idx \<Rightarrow> entry_value (cm_entries m ! idx))"

definition cm_remove :: "completer_map \<Rightarrow> u64 \<Rightarrow> u64 \<times> completer_map" where
  "cm_remove m key =
     (case cm_lookup m key of
        None \<Rightarrow> (0, m)
      | Some idx \<Rightarrow>
          (entry_value (cm_entries m ! idx),
           m\<lparr>cm_entries := (cm_entries m)[idx := (cm_entries m ! idx)\<lparr>entry_value := Tombstone\<rparr>],
             cm_count := cm_count m - 1\<rparr>))"

subsection \<open>The represented map and the table invariant\<close>

definition is_live :: "entry \<Rightarrow> bool" where
  "is_live e \<longleftrightarrow> entry_value e \<noteq> Empty \<and> entry_value e \<noteq> Tombstone"

definition live_count :: "completer_map \<Rightarrow> nat" where
  "live_count m = length (filter is_live (cm_entries m))"

definition cm_abs :: "completer_map \<Rightarrow> u64 \<rightharpoonup> u64" where
  "cm_abs m k = map_option entry_value (find (\<lambda>e. is_live e \<and> entry_key e = k) (cm_entries m))"

abbreviation probe :: "completer_map \<Rightarrow> u64 \<Rightarrow> nat \<Rightarrow> nat" where
  "probe m k \<equiv> probe_index (length (cm_entries m)) k (probe_stride (length (cm_entries m)) k)"

text \<open>
  Live keys are unique, the counter is exact, and every live entry is found on the probe sequence
  of its key with no empty entry before it.
\<close>

definition cm_inv :: "completer_map \<Rightarrow> bool" where
  "cm_inv m \<longleftrightarrow>
     length (cm_entries m) \<in> set primes \<and>
     unat (cm_count m) = live_count m \<and>
     (\<forall>i<length (cm_entries m). \<forall>j<length (cm_entries m).
        is_live (cm_entries m ! i) \<and> is_live (cm_entries m ! j) \<and>
        entry_key (cm_entries m ! i) = entry_key (cm_entries m ! j) \<longrightarrow> i = j) \<and>
     (\<forall>j<length (cm_entries m). is_live (cm_entries m ! j) \<longrightarrow>
        (\<exists>i<length (cm_entries m). probe m (entry_key (cm_entries m ! j)) i = j \<and>
           (\<forall>i'<i. entry_value (cm_entries m ! probe m (entry_key (cm_entries m ! j)) i') \<noteq> Empty)))"

text \<open>
  The probe indices do not wrap around modulo \<open>2 ^ 64\<close>: all operation ids up to
  \<open>2 ^ 64 - 2 ^ 36\<close> qualify, because no table has more than 196613 entries.
\<close>

definition no_wrap :: "nat \<Rightarrow> u64 \<Rightarrow> bool" where
  "no_wrap n key \<longleftrightarrow> unat key + n * n \<le> 2 ^ 64"

subsection \<open>Table sizes\<close>

lemma primes_trial: "list_all (\<lambda>n. odd n \<and> odd_trial n 3) primes"
  by (simp add: primes_def odd_trial.simps)

lemma primes_bounds: "n \<in> set primes \<Longrightarrow> 53 \<le> n \<and> n \<le> 196613"
  by (auto simp: primes_def)

lemma is_prime_primes: "n \<in> set primes \<Longrightarrow> is_prime n"
  using primes_trial primes_bounds [of n] by (intro is_prime_odd_trial) (auto simp: list_all_iff)

lemma first_prime_above_Inr:
  "first_prime_above num ps = Inr p \<Longrightarrow> p \<in> set ps \<and> num < p"
  by (induction ps) (auto split: if_splits)

lemma first_prime_above_least:
  "sorted ps \<Longrightarrow> first_prime_above num ps = Inr p \<Longrightarrow> q \<in> set ps \<Longrightarrow> num < q \<Longrightarrow> p \<le> q"
  by (induction ps) (auto split: if_splits)

lemma first_prime_above_Inl:
  "first_prime_above num ps = Inl e \<longleftrightarrow> e = AssertionFailed \<and> (\<forall>p\<in>set ps. p \<le> num)"
  by (induction ps) (auto simp: not_less)

lemma sorted_primes: "sorted primes"
  by (simp add: primes_def)

subsection \<open>The probe sequence\<close>

lemma unat_probe_stride:
  assumes "n \<in> set primes"
  shows "0 < unat (probe_stride n key) \<and> unat (probe_stride n key) < n"
proof -
  from primes_bounds [OF assms] have n: "53 \<le> n" "n \<le> 196613" by auto
  then have un: "unat (of_nat n - 1 :: u64) = n - 1"
    by (simp add: unat_sub_if_size unat_of_nat_u64)
  have lt: "unat (hash key mod (of_nat n - 1)) < n - 1"
    using n un by (simp add: unat_mod_distrib)
  then have "unat (probe_stride n key) = unat (hash key mod (of_nat n - 1)) + 1"
    unfolding probe_stride_def using n
    by (subst unat_add_lem [THEN iffD1]) auto
  with lt show ?thesis by simp
qed

lemma probe_index_less:
  assumes "n \<in> set primes"
  shows "probe_index n key h i < n"
  using primes_bounds [OF assms] by (simp add: probe_index_def unat_mod_distrib unat_of_nat_u64)

lemma probe_index_nat:
  assumes n: "n \<in> set primes" and nw: "no_wrap n key" and i: "i < n"
  shows "probe_index n key (probe_stride n key) i = (unat key + i * unat (probe_stride n key)) mod n"
proof -
  let ?h = "probe_stride n key"
  from primes_bounds [OF n] have b: "n < 2 ^ 64" "i < 2 ^ 64" using i by auto
  have "i * unat ?h < n * n"
    using i unat_probe_stride [OF n, of key] by (intro mult_strict_mono) auto
  with nw have lt: "unat key + i * unat ?h < 2 ^ 64" by (simp add: no_wrap_def)
  then have "unat (key + of_nat i * ?h) = unat key + i * unat ?h"
    using b by (simp add: unat_word_ariths unat_of_nat_u64)
  then show ?thesis using b by (simp add: probe_index_def unat_mod_distrib unat_of_nat_u64)
qed

lemma probe_covers:
  assumes n: "n \<in> set primes" and nw: "no_wrap n key" and j: "j < n"
  obtains i where "i < n" "probe_index n key (probe_stride n key) i = j"
proof -
  have "coprime n (unat (probe_stride n key))"
    using unat_probe_stride [OF n, of key] by (intro is_prime_coprime is_prime_primes n) auto
  from coprime_probe_covers [OF this j, of "unat key"] that probe_index_nat [OF n nw]
  show thesis by metis
qed

subsection \<open>Correctness of the probing loops\<close>

abbreviation put_entry :: "completer_map \<Rightarrow> nat \<Rightarrow> u64 \<Rightarrow> u64 \<Rightarrow> completer_map" where
  "put_entry m idx key val \<equiv>
     m\<lparr>cm_entries := (cm_entries m)[idx := \<lparr>entry_key = key, entry_value = val\<rparr>],
       cm_count := cm_count m + 1\<rparr>"

lemma insert_loop_split:
  assumes "\<forall>x\<in>set xs. is_live (cm_entries m ! probe_index (length (cm_entries m)) key h x)"
    and "\<not> is_live (cm_entries m ! probe_index (length (cm_entries m)) key h i)"
  shows "insert_loop m key val h (xs @ i # ys)
           = Inr (put_entry m (probe_index (length (cm_entries m)) key h i) key val)"
  using assms by (induction xs) (auto simp: Let_def is_live_def)

lemma insert_loop_Inr:
  assumes "insert_loop m key val h is = Inr m'"
  obtains xs i ys where "is = xs @ i # ys"
    "\<forall>x\<in>set xs. is_live (cm_entries m ! probe_index (length (cm_entries m)) key h x)"
    "\<not> is_live (cm_entries m ! probe_index (length (cm_entries m)) key h i)"
    "m' = put_entry m (probe_index (length (cm_entries m)) key h i) key val"
  using assms
proof (induction "is" arbitrary: thesis)
  case (Cons j js)
  show ?case
  proof (cases "is_live (cm_entries m ! probe_index (length (cm_entries m)) key h j)")
    case True
    with Cons.prems(2) have "insert_loop m key val h js = Inr m'"
      by (auto simp: Let_def is_live_def)
    then show ?thesis using True Cons.IH Cons.prems(1) by (metis Cons_eq_appendI set_ConsD)
  next
    case False
    with Cons.prems(2) show ?thesis
      using Cons.prems(1) [of "[]" j js] by (auto simp: Let_def is_live_def)
  qed
qed simp

lemma lookup_loop_Some:
  assumes "lookup_loop m key h is = Some idx"
  shows "\<exists>i\<in>set is. idx = probe_index (length (cm_entries m)) key h i"
    and "is_live (cm_entries m ! idx) \<and> entry_key (cm_entries m ! idx) = key"
  using assms by (induction "is") (auto simp: Let_def is_live_def split: if_splits)

lemma lookup_loop_finds:
  assumes "\<forall>x\<in>set xs. entry_value (cm_entries m ! probe_index (length (cm_entries m)) key h x) \<noteq> Empty"
    and "is_live (cm_entries m ! probe_index (length (cm_entries m)) key h i)"
    and "entry_key (cm_entries m ! probe_index (length (cm_entries m)) key h i) = key"
  shows "lookup_loop m key h (xs @ i # ys) \<noteq> None"
  using assms by (induction xs) (auto simp: Let_def is_live_def)

lemma upt_split: "i < n \<Longrightarrow> [0..<n] = [0..<i] @ i # [Suc i..<n]"
  by (metis le0 less_imp_le upt_add_eq_append upt_conv_Cons add_0 le_add_diff_inverse)

subsection \<open>Operations refine the represented map\<close>

lemma cm_inv_unique:
  "cm_inv m \<Longrightarrow> i < length (cm_entries m) \<Longrightarrow> j < length (cm_entries m) \<Longrightarrow>
     is_live (cm_entries m ! i) \<Longrightarrow> is_live (cm_entries m ! j) \<Longrightarrow>
     entry_key (cm_entries m ! i) = entry_key (cm_entries m ! j) \<Longrightarrow> i = j"
  by (simp add: cm_inv_def)

lemma cm_abs_iff:
  assumes "cm_inv m"
  shows "cm_abs m k = Some v \<longleftrightarrow>
    (\<exists>j<length (cm_entries m). is_live (cm_entries m ! j) \<and> entry_key (cm_entries m ! j) = k \<and>
       entry_value (cm_entries m ! j) = v)" (is "?L \<longleftrightarrow> ?R")
proof
  assume ?L
  then show ?R by (auto simp: cm_abs_def find_Some_iff)
next
  assume ?R
  then obtain j where j: "j < length (cm_entries m)" "is_live (cm_entries m ! j)"
      "entry_key (cm_entries m ! j) = k" "entry_value (cm_entries m ! j) = v" by blast
  have "\<not> (is_live (cm_entries m ! i) \<and> entry_key (cm_entries m ! i) = k)" if "i < j" for i
    using cm_inv_unique [OF assms, of i j] that j by auto
  with j have "find (\<lambda>e. is_live e \<and> entry_key e = k) (cm_entries m) = Some (cm_entries m ! j)"
    unfolding find_Some_iff by blast
  with j show ?L by (simp add: cm_abs_def)
qed

lemma cm_abs_None_iff:
  "cm_abs m k = None \<longleftrightarrow>
    (\<forall>j<length (cm_entries m). \<not> (is_live (cm_entries m ! j) \<and> entry_key (cm_entries m ! j) = k))"
  by (auto simp: cm_abs_def find_None_iff in_set_conv_nth)

lemma cm_lookup_Some:
  assumes "cm_inv m" "cm_lookup m k = Some idx"
  shows "idx < length (cm_entries m)" "is_live (cm_entries m ! idx)"
    "entry_key (cm_entries m ! idx) = k"
  using lookup_loop_Some [OF assms(2) [unfolded cm_lookup_def]] assms(1)
  by (auto simp: cm_inv_def probe_index_less)

lemma cm_lookup_None:
  assumes inv: "cm_inv m"
  shows "cm_lookup m k = None \<longleftrightarrow> cm_abs m k = None"
proof
  assume none: "cm_lookup m k = None"
  show "cm_abs m k = None"
  proof (rule ccontr)
    assume "cm_abs m k \<noteq> None"
    then obtain j where j: "j < length (cm_entries m)" "is_live (cm_entries m ! j)"
      "entry_key (cm_entries m ! j) = k" by (auto simp: cm_abs_None_iff)
    with inv obtain i where i: "i < length (cm_entries m)" "probe m k i = j"
        "\<forall>i'<i. entry_value (cm_entries m ! probe m k i') \<noteq> Empty"
      unfolding cm_inv_def by blast
    with j have "cm_lookup m k \<noteq> None"
      unfolding cm_lookup_def upt_split [OF i(1)] by (intro lookup_loop_finds) auto
    with none show False by simp
  qed
next
  assume "cm_abs m k = None"
  then show "cm_lookup m k = None"
    using cm_lookup_Some [OF inv, of k] by (metis cm_abs_None_iff not_None_eq)
qed

lemma cm_lookup_abs:
  assumes inv: "cm_inv m"
  shows "map_option (\<lambda>idx. entry_value (cm_entries m ! idx)) (cm_lookup m k) = cm_abs m k"
proof (cases "cm_lookup m k")
  case None
  then show ?thesis using cm_lookup_None [OF inv, of k] by simp
next
  case (Some idx)
  with cm_lookup_Some [OF inv Some] have "cm_abs m k = Some (entry_value (cm_entries m ! idx))"
    by (auto simp: cm_abs_iff [OF inv])
  with Some show ?thesis by simp
qed

text \<open>Writing a live entry with a fresh key at the first free probed index.\<close>

lemma live_count_put:
  assumes "idx < length (cm_entries m)" "\<not> is_live (cm_entries m ! idx)"
    "val \<noteq> Empty" "val \<noteq> Tombstone"
  shows "live_count (put_entry m idx key val) = Suc (live_count m)"
proof -
  have "is_live \<lparr>entry_key = key, entry_value = val\<rparr>" using assms by (simp add: is_live_def)
  with length_filter_update [of idx "cm_entries m" is_live "\<lparr>entry_key = key, entry_value = val\<rparr>"]
  show ?thesis using assms by (simp add: live_count_def)
qed

lemma live_count_le: "live_count m \<le> length (cm_entries m)"
  by (simp add: live_count_def)

lemma put_entry_inv:
  assumes inv: "cm_inv m" and fresh: "cm_abs m key = None"
    and val: "val \<noteq> Empty" "val \<noteq> Tombstone"
    and i: "i < length (cm_entries m)" "\<not> is_live (cm_entries m ! probe m key i)"
    and before: "\<forall>x<i. is_live (cm_entries m ! probe m key x)"
  shows "cm_inv (put_entry m (probe m key i) key val)"
proof -
  let ?n = "length (cm_entries m)" and ?idx = "probe m key i"
  let ?m' = "put_entry m ?idx key val"
  from inv have n: "?n \<in> set primes" by (simp add: cm_inv_def)
  then have idx: "?idx < ?n" by (rule probe_index_less)
  have cnt: "live_count ?m' = Suc (live_count m)" by (rule live_count_put [OF idx i(2) val])
  with live_count_le [of ?m'] have "live_count m < ?n" by simp
  with inv primes_bounds [OF n] have "unat (cm_count m + 1) = Suc (live_count m)"
    by (simp add: cm_inv_def unat_word_ariths)
  moreover have "a = b"
    if "a < ?n" "b < ?n" "is_live (cm_entries ?m' ! a)" "is_live (cm_entries ?m' ! b)"
      "entry_key (cm_entries ?m' ! a) = entry_key (cm_entries ?m' ! b)" for a b
    using that fresh cm_inv_unique [OF inv, of a b] idx
    by (auto simp: nth_list_update cm_abs_None_iff split: if_splits)
  moreover have "\<exists>c<?n. probe m (entry_key (cm_entries ?m' ! a)) c = a \<and>
      (\<forall>x<c. entry_value (cm_entries ?m' ! probe m (entry_key (cm_entries ?m' ! a)) x) \<noteq> Empty)"
    if a: "a < ?n" "is_live (cm_entries ?m' ! a)" for a
  proof (cases "a = ?idx")
    case True
    with i before idx val show ?thesis
      by (intro exI [of _ i]) (auto simp: nth_list_update is_live_def)
  next
    case False
    with a have "is_live (cm_entries m ! a)" by simp
    with inv a obtain c where c: "c < ?n" "probe m (entry_key (cm_entries m ! a)) c = a"
      "\<forall>x<c. entry_value (cm_entries m ! probe m (entry_key (cm_entries m ! a)) x) \<noteq> Empty"
      unfolding cm_inv_def by blast
    with False idx val show ?thesis
      by (intro exI [of _ c]) (auto simp: nth_list_update)
  qed
  ultimately show ?thesis using n cnt by (simp add: cm_inv_def)
qed

lemma put_entry_abs:
  assumes inv: "cm_inv m" and inv': "cm_inv (put_entry m idx key val)"
    and fresh: "cm_abs m key = None" and val: "val \<noteq> Empty" "val \<noteq> Tombstone"
    and idx: "idx < length (cm_entries m)" "\<not> is_live (cm_entries m ! idx)"
  shows "cm_abs (put_entry m idx key val) = (cm_abs m)(key \<mapsto> val)"
proof (rule ext)
  fix k
  have "cm_abs (put_entry m idx key val) k = Some v \<longleftrightarrow> ((cm_abs m)(key \<mapsto> val)) k = Some v" for v
    using fresh idx val
    by (auto simp: cm_abs_iff [OF inv] cm_abs_iff [OF inv'] cm_abs_None_iff nth_list_update
        is_live_def split: if_splits)
  then show "cm_abs (put_entry m idx key val) k = ((cm_abs m)(key \<mapsto> val)) k"
    by (metis not_None_eq)
qed

lemma upt_append_cons:
  assumes "[0..<n] = xs @ i # ys"
  shows "i < n \<and> set xs = {0..<i}"
proof -
  from assms have len: "length xs < n" by (metis length_append length_upt length_Cons add_Suc_right diff_zero less_add_Suc1)
  have "i = [0..<n] ! length xs" using assms by simp
  then have i: "i = length xs" using len by simp
  have "xs = take (length xs) [0..<n]" using assms by simp
  then show ?thesis using i len by (metis add_0 less_imp_le set_upt take_upt)
qed

lemma cm_insert_guard:
  assumes "cm_inv m"
  shows "cm_size m < cm_capacity m \<longleftrightarrow> live_count m < length (cm_entries m)"
proof -
  from assms have "length (cm_entries m) \<in> set primes" "unat (cm_count m) = live_count m"
    by (simp_all add: cm_inv_def)
  with primes_bounds show ?thesis
    by (fastforce simp: cm_size_def cm_capacity_def word_less_nat_alt unat_of_nat_u64)
qed

lemma cm_insert_Inr:
  assumes inv: "cm_inv m" and ins: "cm_insert m key val = Inr m'"
    and fresh: "cm_abs m key = None" and val: "val \<noteq> Empty" "val \<noteq> Tombstone"
  shows "cm_inv m' \<and> cm_abs m' = (cm_abs m)(key \<mapsto> val) \<and> live_count m' = Suc (live_count m)
    \<and> length (cm_entries m') = length (cm_entries m)"
proof -
  from ins have "insert_loop m key val (probe_stride (length (cm_entries m)) key)
      [0..<length (cm_entries m)] = Inr m'"
    by (simp add: cm_insert_def assertE_eq_Inr)
  then obtain xs i ys where i: "[0..<length (cm_entries m)] = xs @ i # ys"
      "\<forall>x\<in>set xs. is_live (cm_entries m ! probe m key x)"
      "\<not> is_live (cm_entries m ! probe m key i)" "m' = put_entry m (probe m key i) key val"
    by (rule insert_loop_Inr)
  with upt_append_cons [OF i(1)] have lt: "i < length (cm_entries m)"
    and live: "\<forall>x<i. is_live (cm_entries m ! probe m key x)" by auto
  from inv have idx: "probe m key i < length (cm_entries m)"
    by (simp add: cm_inv_def probe_index_less)
  have "cm_inv m'" unfolding i(4) by (rule put_entry_inv [OF inv fresh val lt i(3) live])
  then show ?thesis
    using put_entry_abs [OF inv _ fresh val idx i(3)] live_count_put [OF idx i(3) val] i(4) by simp
qed

lemma cm_insert_succeeds:
  assumes inv: "cm_inv m" and nw: "no_wrap (length (cm_entries m)) key"
    and room: "live_count m < length (cm_entries m)"
  shows "\<exists>m'. cm_insert m key val = Inr m'"
proof -
  from inv have n: "length (cm_entries m) \<in> set primes" by (simp add: cm_inv_def)
  from room length_filter_less_ex [of is_live "cm_entries m"] obtain j
    where "j < length (cm_entries m)" "\<not> is_live (cm_entries m ! j)" by (auto simp: live_count_def)
  with probe_covers [OF n nw, of j] obtain i
    where "i < length (cm_entries m)" "\<not> is_live (cm_entries m ! probe m key i)" by metis
  then obtain i0 where i0: "i0 < length (cm_entries m)" "\<not> is_live (cm_entries m ! probe m key i0)"
      "\<forall>x<i0. \<not> \<not> is_live (cm_entries m ! probe m key x)"
    using first_index [of i _ "\<lambda>i. \<not> is_live (cm_entries m ! probe m key i)"] by blast
  then have "insert_loop m key val (probe_stride (length (cm_entries m)) key) [0..<length (cm_entries m)]
      = Inr (put_entry m (probe m key i0) key val)"
    unfolding upt_split [OF i0(1)] by (intro insert_loop_split) auto
  then show ?thesis using cm_insert_guard [OF inv] room by (simp add: cm_insert_def)
qed

lemma live_count_bury:
  assumes "idx < length (cm_entries m)" "is_live (cm_entries m ! idx)"
  shows "Suc (length (filter is_live ((cm_entries m)[idx := (cm_entries m ! idx)\<lparr>entry_value := Tombstone\<rparr>])))
    = live_count m"
proof -
  have "\<not> is_live ((cm_entries m ! idx)\<lparr>entry_value := Tombstone\<rparr>)" by (simp add: is_live_def)
  with length_filter_update [of idx "cm_entries m" is_live "(cm_entries m ! idx)\<lparr>entry_value := Tombstone\<rparr>"]
  show ?thesis using assms by (simp add: live_count_def)
qed

lemma cm_remove_entry:
  assumes inv: "cm_inv m" and hit: "cm_lookup m k = Some idx" and a: "a < length (cm_entries m)"
  defines "e \<equiv> cm_entries m ! a" and "e' \<equiv> cm_entries (snd (cm_remove m k)) ! a"
  shows "is_live e' \<longleftrightarrow> is_live e \<and> entry_key e \<noteq> k"
    and "entry_key e' = entry_key e"
    and "is_live e' \<Longrightarrow> entry_value e' = entry_value e"
    and "entry_value e \<noteq> Empty \<Longrightarrow> entry_value e' \<noteq> Empty"
proof -
  note idx = cm_lookup_Some [OF inv hit]
  have e': "e' = (if a = idx then e\<lparr>entry_value := Tombstone\<rparr> else e)"
    using hit a idx(1) by (simp add: e'_def e_def cm_remove_def)
  show "is_live e' \<longleftrightarrow> is_live e \<and> entry_key e \<noteq> k"
  proof (cases "a = idx")
    case True
    with idx show ?thesis by (simp add: e' e_def is_live_def)
  next
    case False
    with cm_inv_unique [OF inv a idx(1)] idx(2,3) show ?thesis by (auto simp: e' e_def)
  qed
  show "entry_key e' = entry_key e" "is_live e' \<Longrightarrow> entry_value e' = entry_value e"
    "entry_value e \<noteq> Empty \<Longrightarrow> entry_value e' \<noteq> Empty"
    by (cases "a = idx"; simp add: e' is_live_def Empty_def Tombstone_def)+
qed

lemma cm_remove_length [simp]: "length (cm_entries (snd (cm_remove m k))) = length (cm_entries m)"
  by (simp add: cm_remove_def split: option.splits)

lemma cm_remove_count:
  assumes inv: "cm_inv m" and hit: "cm_lookup m k = Some idx"
  shows "Suc (live_count (snd (cm_remove m k))) = live_count m"
  using live_count_bury [OF cm_lookup_Some(1,2) [OF inv hit]] hit
  by (simp add: cm_remove_def live_count_def)

lemma cm_remove_inv:
  assumes inv: "cm_inv m"
  shows "cm_inv (snd (cm_remove m k))"
proof (cases "cm_lookup m k")
  case None
  with inv show ?thesis by (simp add: cm_remove_def)
next
  case (Some idx)
  have n: "length (cm_entries m) \<in> set primes" using inv by (simp add: cm_inv_def)
  have "unat (cm_count (snd (cm_remove m k))) = live_count (snd (cm_remove m k))"
    using cm_remove_count [OF inv Some] inv Some
    by (simp add: cm_inv_def cm_remove_def unat_sub_if_size)
  with inv cm_remove_entry [OF inv Some] probe_index_less [OF n] show ?thesis
    unfolding cm_inv_def cm_remove_length by simp metis
qed

lemma cm_remove_abs:
  assumes inv: "cm_inv m"
  shows "cm_abs (snd (cm_remove m k)) = (cm_abs m)(k := None)"
proof (cases "cm_lookup m k")
  case None
  moreover from None have "cm_abs m k = None" using cm_lookup_None [OF inv, of k] by simp
  ultimately show ?thesis by (simp add: cm_remove_def fun_upd_idem)
next
  case (Some idx)
  note inv' = cm_remove_inv [OF inv, of k]
  have "cm_abs (snd (cm_remove m k)) k' = Some v \<longleftrightarrow> ((cm_abs m)(k := None)) k' = Some v" for k' v
    unfolding cm_abs_iff [OF inv'] cm_remove_length
    using cm_remove_entry [OF inv Some] by (auto simp: cm_abs_iff [OF inv])
  then show ?thesis by (metis (no_types) ext not_None_eq)
qed

lemma cm_remove_result:
  assumes inv: "cm_inv m"
  shows "fst (cm_remove m k) = (case cm_abs m k of None \<Rightarrow> 0 | Some v \<Rightarrow> v)"
  using cm_lookup_abs [OF inv, of k] by (auto simp: cm_remove_def split: option.splits)

lemma cm_get_result:
  assumes inv: "cm_inv m"
  shows "cm_get m k = (case cm_abs m k of None \<Rightarrow> 0 | Some v \<Rightarrow> v)"
  using cm_lookup_abs [OF inv, of k] by (auto simp: cm_get_def split: option.splits)

lemma cm_entries_length:
  "cm_insert m k v = Inr m' \<Longrightarrow> length (cm_entries m') = length (cm_entries m)"
  by (auto simp: cm_insert_def assertE_eq_Inr elim!: insert_loop_Inr)

subsection \<open>The completer map implements the store contract\<close>

definition cm_admissible :: "completer_map \<Rightarrow> u64 \<Rightarrow> u64 \<Rightarrow> bool" where
  "cm_admissible m k v \<longleftrightarrow>
     no_wrap (length (cm_entries m)) k \<and> v \<noteq> Empty \<and> v \<noteq> Tombstone"

definition cm_room :: "completer_map \<Rightarrow> nat" where
  "cm_room m = length (cm_entries m) - live_count m"

interpretation cmap: keyed_store cm_inv cm_abs cm_insert cm_get cm_remove 0 cm_admissible cm_room
proof unfold_locales
  show "\<exists>m'. cm_insert m k v = Inr m'" if "cm_inv m" "cm_admissible m k v" "0 < cm_room m" for m k v
    using that by (intro cm_insert_succeeds) (auto simp: cm_admissible_def cm_room_def)
next
  fix m k v m'
  assume a: "cm_inv m" "cm_admissible m k v" "cm_abs m k = None" "cm_insert m k v = Inr m'"
  note facts = cm_insert_Inr [OF a(1,4,3)]
  from facts a(2) show "cm_inv m'" "cm_abs m' = (cm_abs m)(k \<mapsto> v)"
    by (simp_all add: cm_admissible_def)
  from facts a(2) live_count_le [of m'] show "Suc (cm_room m') = cm_room m"
    by (simp add: cm_admissible_def cm_room_def)
qed (simp_all add: cm_admissible_def cm_entries_length cm_get_result cm_remove_result
       cm_remove_abs cm_remove_inv)

lemma CompleterMap_inv:
  assumes "CompleterMap num = Inr m"
  shows "cm_inv m" "cm_abs m = Map.empty" "num < length (cm_entries m)" "live_count m = 0"
proof -
  from assms obtain n where n: "first_prime_above num primes = Inr n"
    "m = \<lparr>cm_entries = replicate n \<lparr>entry_key = - 1, entry_value = 0\<rparr>, cm_count = 0\<rparr>"
    by (auto simp: CompleterMap_def getNextSize_def outcome_simps)
  note p = first_prime_above_Inr [OF n(1)]
  from p n(2) show "cm_inv m"
    by (simp add: cm_inv_def live_count_def is_live_def Empty_def)
  show "cm_abs m = Map.empty"
    by (rule ext) (simp add: cm_abs_None_iff n(2) is_live_def Empty_def)
  show "num < length (cm_entries m)" "live_count m = 0"
    using p by (simp_all add: n(2) live_count_def is_live_def Empty_def)
qed

subsection \<open>A key whose probe indices wrap around\<close>

text \<open>
  The largest key, the id \<^verbatim>\<open>OpIdIgnore\<close>, does not satisfy \<open>no_wrap\<close>: in a table of 53 entries
  its probe sequence never visits the last entry.
\<close>

definition crowded_map :: completer_map where
  "crowded_map =
     \<lparr>cm_entries = map (\<lambda>j. \<lparr>entry_key = of_nat j, entry_value = 1\<rparr>) [0..<52]
                    @ [\<lparr>entry_key = - 1, entry_value = 0\<rparr>],
      cm_count = 52\<rparr>"

lemma crowded_entries:
  "length (cm_entries crowded_map) = 53"
  "j < 52 \<Longrightarrow> cm_entries crowded_map ! j = \<lparr>entry_key = of_nat j, entry_value = 1\<rparr>"
  "cm_entries crowded_map ! 52 = \<lparr>entry_key = - 1, entry_value = 0\<rparr>"
  by (simp_all add: crowded_map_def nth_append del: upt_rec_numeral)

lemma crowded_live: "j < 53 \<Longrightarrow> is_live (cm_entries crowded_map ! j) \<longleftrightarrow> j < 52"
  using crowded_entries(2,3) by (cases "j = 52") (auto simp: is_live_def Empty_def Tombstone_def)

lemma crowded_live_count: "live_count crowded_map = 52"
  by (simp add: live_count_def crowded_map_def filter_map comp_def is_live_def Empty_def Tombstone_def
      del: upt_rec_numeral)

lemma crowded_inv: "cm_inv crowded_map"
proof -
  have key: "entry_key (cm_entries crowded_map ! j) = of_nat j" if "j < 52" for j
    using crowded_entries(2) [OF that] by simp
  have inj: "i = j" if "(of_nat i :: u64) = of_nat j" "i < 52" "j < 52" for i j
    using arg_cong [OF that(1), of unat] that(2,3) by (simp add: unat_of_nat_u64)
  have first: "probe crowded_map (of_nat j) 0 = j" if "j < 52" for j
    using that by (simp add: probe_index_def crowded_entries unat_mod_distrib unat_of_nat_u64)
  have "\<exists>i<53. probe crowded_map (entry_key (cm_entries crowded_map ! j)) i = j \<and>
      (\<forall>x<i. entry_value (cm_entries crowded_map !
        probe crowded_map (entry_key (cm_entries crowded_map ! j)) x) \<noteq> Empty)" if "j < 52" for j
    using first [OF that] key [OF that] by (intro exI [of _ 0]) simp
  moreover have "i = j" if "i < 53" "j < 53" "is_live (cm_entries crowded_map ! i)"
      "is_live (cm_entries crowded_map ! j)"
      "entry_key (cm_entries crowded_map ! i) = entry_key (cm_entries crowded_map ! j)" for i j
    using that crowded_live [of i] crowded_live [of j] key [of i] key [of j] by (auto intro: inj)
  ultimately show ?thesis
    using crowded_live unfolding cm_inv_def crowded_live_count crowded_entries(1)
    by (simp add: primes_def crowded_map_def)
qed

lemma max_key_skips_last:
  assumes "i < 53"
  shows "probe_index 53 (- 1) (probe_stride 53 (- 1)) i \<noteq> 52"
proof (cases "i = 0")
  case True
  then show ?thesis by (simp add: probe_index_def)
next
  case False
  let ?h = "unat (probe_stride 53 (- 1))"
  have n: "53 \<in> set primes" by (simp add: primes_def)
  note h = unat_probe_stride [OF n, of "- 1"]
  have le: "1 \<le> i * ?h" using False h by simp
  have ub: "i * ?h \<le> 53 * 53" using h assms by (intro mult_le_mono) auto
  have "unat (of_nat i * probe_stride 53 (- 1)) = i * ?h"
    using ub assms by (simp add: unat_word_ariths unat_of_nat_u64)
  then have "unat (of_nat i * probe_stride 53 (- 1) - 1) = i * ?h - 1"
    using le by (simp add: unat_sub_if_size)
  then have "probe_index 53 (- 1) (probe_stride 53 (- 1)) i = (i * ?h - 1) mod 53"
    by (simp add: probe_index_def unat_mod_distrib)
  moreover have "(i * ?h - 1) mod 53 \<noteq> 52"
  proof
    assume "(i * ?h - 1) mod 53 = 52"
    with le mod_Suc [of "i * ?h - 1" 53] have "53 dvd i * ?h" by (simp add: dvd_eq_mod_eq_0)
    moreover have "coprime 53 ?h" using h by (intro is_prime_coprime is_prime_primes n) auto
    ultimately have "53 dvd i" by (simp add: coprime_dvd_mult_left_iff)
    with False assms show False by (auto dest: dvd_imp_le)
  qed
  ultimately show ?thesis by simp
qed

lemma insert_loop_all_live:
  "\<forall>x\<in>set is. is_live (cm_entries m ! probe_index (length (cm_entries m)) key h x) \<Longrightarrow>
     insert_loop m key val h is = Inl Aborted"
  by (induction "is") (auto simp: Let_def is_live_def)

lemma crowded_fresh: "52 \<le> unat k \<Longrightarrow> cm_abs crowded_map k = None"
proof -
  assume k: "52 \<le> unat k"
  have "(of_nat j :: u64) \<noteq> k" if "j < 52" for j
    using that k by (auto simp: unat_of_nat_u64)
  then show ?thesis
    using crowded_live crowded_entries(2) by (auto simp: cm_abs_None_iff crowded_entries(1))
qed

text \<open>The table built for ten operations.\<close>

definition empty53 :: completer_map where
  "empty53 = \<lparr>cm_entries = replicate 53 \<lparr>entry_key = - 1, entry_value = 0\<rparr>, cm_count = 0\<rparr>"

lemma empty53_built: "CompleterMap 10 = Inr empty53"
  by (simp add: CompleterMap_def getNextSize_def primes_def empty53_def)

lemma empty53_facts:
  "cm_inv empty53" "cm_abs empty53 = Map.empty" "live_count empty53 = 0"
  "length (cm_entries empty53) = 53"
  using CompleterMap_inv [OF empty53_built] by (simp_all add: empty53_def)

subsection \<open>Properties\<close>

text \<open>
  C5: Insertion implements map update. On a well-formed table with a free entry, inserting a new key
  with a proper pointer (neither null nor the tombstone) returns normally, keeps the table
  well-formed, and the table then represents the old map extended by exactly that binding. The key has to be far enough from 2^64
  that no index of its probe sequence wraps around (\<open>no_wrap\<close>): \<open>cm_insert_wraps_aborts\<close> is an insertion that fails without it.
\<close>

theorem cm_insert_refines:
  assumes "cm_inv m" and "no_wrap (length (cm_entries m)) key"
    and "val \<noteq> Empty" and "val \<noteq> Tombstone"
    and "cm_abs m key = None" and "live_count m < length (cm_entries m)"
  shows "\<exists>m'. cm_insert m key val = Inr m' \<and> cm_inv m' \<and> cm_abs m' = (cm_abs m)(key \<mapsto> val)
    \<and> live_count m' = Suc (live_count m) \<and> cm_get m' key = val"
proof -
  obtain m' where m': "cm_insert m key val = Inr m'"
    using cm_insert_succeeds [OF assms(1,2,6)] by blast
  have "cm_admissible m key val" using assms by (simp add: cm_admissible_def)
  then have "cm_get m' key = val" using assms(1,5) m' by (intro cmap.insert_get)
  with cm_insert_Inr [OF assms(1) m' assms(5,3,4)] m' show ?thesis by blast
qed

theorem cm_insert_refines_witness:
  "\<exists>m'. cm_insert empty53 7 4096 = Inr m' \<and> cm_inv m' \<and> cm_abs m' = (cm_abs empty53)(7 \<mapsto> 4096)
    \<and> live_count m' = Suc (live_count empty53) \<and> cm_get m' 7 = 4096"
  using empty53_facts
  by (intro cm_insert_refines) (simp_all add: no_wrap_def Empty_def Tombstone_def)

text \<open>
  C6: Removal implements map deletion. On a well-formed table, removing any key returns the bound
  pointer, or null when the key is not bound; afterwards the key is unbound and nothing else changed.
\<close>

theorem cm_remove_refines:
  assumes "cm_inv m"
  shows "fst (cm_remove m key) = (case cm_abs m key of None \<Rightarrow> 0 | Some v \<Rightarrow> v)
    \<and> cm_abs (snd (cm_remove m key)) = (cm_abs m)(key := None)
    \<and> cm_inv (snd (cm_remove m key))"
  using assms by (simp add: cm_remove_result cm_remove_abs cm_remove_inv)

theorem cm_remove_refines_witness:
  "fst (cm_remove crowded_map 5) = (case cm_abs crowded_map 5 of None \<Rightarrow> 0 | Some v \<Rightarrow> v)
    \<and> cm_abs (snd (cm_remove crowded_map 5)) = (cm_abs crowded_map)(5 := None)
    \<and> cm_inv (snd (cm_remove crowded_map 5))"
  by (rule cm_remove_refines [OF crowded_inv])

text \<open>
  A completer survives exactly one round trip: what insertion stored is what the next removal of
  the same id returns, the removal restores the map as it was before the insertion, and a second
  removal of the same id returns null.
\<close>

theorem cm_insert_remove_roundtrip:
  assumes "cm_inv m" and "cm_admissible m key val" and "cm_abs m key = None"
    and "cm_insert m key val = Inr m'"
  shows "fst (cm_remove m' key) = val \<and> cm_abs (snd (cm_remove m' key)) = cm_abs m
    \<and> fst (cm_remove (snd (cm_remove m' key)) key) = 0"
  using cmap.insert_remove [OF assms] cmap.remove_twice [OF cmap.ins_inv [OF assms]] by simp

theorem cm_insert_remove_roundtrip_witness:
  "\<exists>m'. cm_insert empty53 7 4096 = Inr m' \<and> fst (cm_remove m' 7) = 4096
     \<and> cm_abs (snd (cm_remove m' 7)) = cm_abs empty53"
proof -
  have adm: "cm_admissible empty53 7 4096"
    using empty53_facts by (simp add: cm_admissible_def no_wrap_def Empty_def Tombstone_def)
  with empty53_facts obtain m' where m': "cm_insert empty53 7 4096 = Inr m'"
    using cmap.ins_succeeds [of empty53 7 4096] by (auto simp: cm_room_def)
  from cm_insert_remove_roundtrip [OF empty53_facts(1) adm _ m'] empty53_facts m' show ?thesis by simp
qed

text \<open>
  The probe sequence of a key visits every entry of the table exactly once, for each of the
  table sizes the map can have and every key whose probe indices do not wrap around.
\<close>

theorem probe_permutation:
  assumes "n \<in> set primes" and "no_wrap n key"
  shows "bij_betw (probe_index n key (probe_stride n key)) {..<n} {..<n}"
proof -
  let ?p = "probe_index n key (probe_stride n key)"
  have "?p ` {..<n} = {..<n}"
    using probe_index_less [OF assms(1)] probe_covers [OF assms] by (auto, metis imageI lessThan_iff)
  then show ?thesis by (simp add: bij_betw_def eq_card_imp_inj_on)
qed

theorem probe_permutation_witness:
  "bij_betw (probe_index 1543 (2 ^ 40) (probe_stride 1543 (2 ^ 40))) {..<1543} {..<1543}"
  by (rule probe_permutation) (simp_all add: primes_def no_wrap_def)

text \<open>
  A map constructed for a number of operations really holds that many at the same time: any
  batch of at most that many insertions with distinct keys succeeds and is represented completely.
\<close>

theorem completer_map_holds_batch:
  assumes "CompleterMap num = Inr m" and "length kvs \<le> num" and "distinct (map fst kvs)"
    and "\<forall>(k, v)\<in>set kvs. cm_admissible m k v"
  shows "\<exists>m'. foldE (\<lambda>(k, v) m. cm_insert m k v) kvs m = Inr m' \<and> cm_inv m' \<and> cm_abs m' = map_of kvs"
proof -
  note c = CompleterMap_inv [OF assms(1)]
  have "\<forall>(k, v)\<in>set kvs. cm_admissible m k v \<and> cm_abs m k = None" using assms(4) c(2) by auto
  moreover have "length kvs \<le> cm_room m" using assms(2) c(3,4) by (simp add: cm_room_def)
  ultimately show ?thesis
    using cmap.insert_all_succeeds [OF c(1) _ assms(3)] c(2) by simp
qed

theorem completer_map_holds_batch_witness:
  "\<exists>m'. foldE (\<lambda>(k, v) m. cm_insert m k v) [(0, 64), (1, 128), (2, 192)] empty53 = Inr m'
     \<and> cm_inv m' \<and> cm_abs m' = map_of [(0, 64), (1, 128), (2, 192)]"
  by (rule completer_map_holds_batch [OF empty53_built])
    (simp_all add: cm_admissible_def no_wrap_def Empty_def Tombstone_def empty53_facts)

text \<open>
  The table size chosen for a requested number of entries is the least prime of the size table
  that exceeds it, for every request below the largest entry of the size table.
\<close>

theorem getNextSize_least_prime:
  assumes "num < 196613"
  shows "\<exists>p. getNextSize num = Inr p \<and> is_prime p \<and> num < p \<and> (\<forall>q\<in>set primes. num < q \<longrightarrow> p \<le> q)"
proof -
  have last: "last primes = 196613" "196613 \<in> set primes" by (simp_all add: primes_def)
  then have "first_prime_above num primes \<noteq> Inl e" for e
    using assms by (auto simp: first_prime_above_Inl not_le)
  then obtain p where p: "first_prime_above num primes = Inr p"
    by (cases "first_prime_above num primes") auto
  then show ?thesis
    using first_prime_above_Inr [OF p] first_prime_above_least [OF sorted_primes p] is_prime_primes
      last assms by (auto simp: getNextSize_def)
qed

theorem getNextSize_least_prime_witness:
  "\<exists>p. getNextSize 1024 = Inr p \<and> is_prime p \<and> 1024 < p \<and> (\<forall>q\<in>set primes. 1024 < q \<longrightarrow> p \<le> q)"
  by (rule getNextSize_least_prime) simp

text \<open>
  The bound checked at the start of \<open>getNextSize\<close> is one too large: a request for exactly 196613
  entries passes the first assertion and then runs into the second one.
\<close>

theorem getNextSize_boundary: "196613 \<le> last primes \<and> getNextSize 196613 = Inl AssertionFailed"
  by (simp add: getNextSize_def primes_def)

text \<open>
  Exactly at capacity, insertion ends the program by a failed assertion, whatever the key.
\<close>

theorem cm_insert_at_capacity:
  assumes "cm_inv m" and "live_count m = length (cm_entries m)"
  shows "cm_insert m key val = Inl AssertionFailed"
  using assms by (simp add: cm_insert_def cm_insert_guard)

theorem cm_insert_at_capacity_witness:
  "\<exists>m. cm_inv m \<and> live_count m = length (cm_entries m) \<and> cm_insert m 99 64 = Inl AssertionFailed"
proof -
  have "\<exists>m'. cm_insert crowded_map 99 64 = Inr m' \<and> cm_inv m' \<and> live_count m' = Suc 52
      \<and> length (cm_entries m') = 53"
    using cm_insert_succeeds [OF crowded_inv, of 99 64] cm_insert_Inr [OF crowded_inv, of 99 64]
      crowded_fresh [of 99]
    by (auto simp: crowded_entries(1) crowded_live_count no_wrap_def Empty_def Tombstone_def)
  then obtain m' where m': "cm_inv m'" "live_count m' = Suc 52" "length (cm_entries m') = 53" by blast
  with cm_insert_at_capacity [of m' 99 64] show ?thesis by (intro exI [of _ m']) simp
qed

text \<open>
  Without the condition on wrap-around, insertion can abort although an entry is free: the
  well-formed table \<open>crowded_map\<close> has 52 of 53 entries in use, yet inserting under the largest key,
  which is the id \<^verbatim>\<open>OpIdIgnore\<close> that cancellation returns, aborts for every value.
\<close>

theorem cm_insert_wraps_aborts:
  "cm_inv crowded_map \<and> live_count crowded_map < length (cm_entries crowded_map)
     \<and> cm_abs crowded_map (- 1) = None \<and> cm_insert crowded_map (- 1) val = Inl Aborted"
proof -
  have "is_live (cm_entries crowded_map ! probe_index 53 (- 1) (probe_stride 53 (- 1)) i)" if "i < 53" for i
    using max_key_skips_last [OF that] probe_index_less [of 53 "- 1" "probe_stride 53 (- 1)" i]
      crowded_live [of "probe_index 53 (- 1) (probe_stride 53 (- 1)) i"]
    by (simp add: primes_def)
  then have "insert_loop crowded_map (- 1) val (probe_stride 53 (- 1)) [0..<53] = Inl Aborted"
    by (intro insert_loop_all_live) (auto simp: crowded_entries(1))
  then have "cm_insert crowded_map (- 1) val = Inl Aborted"
    unfolding cm_insert_def cm_insert_guard [OF crowded_inv] crowded_live_count crowded_entries(1)
    by simp
  moreover have "cm_abs crowded_map (- 1) = None"
    by (rule crowded_fresh) (simp add: unsigned_minus_1_eq_mask mask_eq_exp_minus_1)
  ultimately show ?thesis by (simp add: crowded_inv crowded_live_count crowded_entries(1))
qed

end
