(* ===== verification/IoURing.thy ===== *)
theory IoURing
  imports Aiopp_Prelude
begin

text \<open>
  The wrapper around io_uring (\<^verbatim>\<open>iouring.hpp\<close>, \<^verbatim>\<open>iouring.cpp\<close>): initialisation, the completion queue, and
  the functions that fill a submission queue entry. liburing and the kernel are not part of the
  repository. They appear as a record of operations on an opaque state \<open>'k\<close> together with the
  constants of the system headers; nothing is assumed of them here. A submission queue entry is a
  slot of memory that the wrapper writes and that a submission hands to the kernel.

  Signed C integers of the interface are \<open>int\<close>; conversions to the unsigned fields of an entry are
  written out as \<open>word_of_int\<close> and \<open>ucast\<close>. Addresses are 64-bit words.
\<close>

subsection \<open>Entries, parameters and the library interface\<close>

datatype io_uring_op =
    IORING_OP_NOP | IORING_OP_READV | IORING_OP_WRITEV | IORING_OP_FSYNC | IORING_OP_POLL_ADD
  | IORING_OP_POLL_REMOVE | IORING_OP_SYNC_FILE_RANGE | IORING_OP_SENDMSG | IORING_OP_RECVMSG
  | IORING_OP_TIMEOUT | IORING_OP_TIMEOUT_REMOVE | IORING_OP_ACCEPT | IORING_OP_ASYNC_CANCEL
  | IORING_OP_LINK_TIMEOUT | IORING_OP_CONNECT | IORING_OP_OPENAT | IORING_OP_CLOSE | IORING_OP_STATX
  | IORING_OP_READ | IORING_OP_WRITE | IORING_OP_SEND | IORING_OP_RECV | IORING_OP_OPENAT2
  | IORING_OP_EPOLL_CTL | IORING_OP_SHUTDOWN | IORING_OP_RENAMEAT | IORING_OP_UNLINKAT

text \<open>
  The unions of \<^verbatim>\<open>io_uring_sqe\<close> that the wrapper uses: \<^verbatim>\<open>off\<close>/\<^verbatim>\<open>addr2\<close> is one 64-bit field, and
  \<^verbatim>\<open>rw_flags\<close>, \<^verbatim>\<open>fsync_flags\<close>, \<^verbatim>\<open>poll_events\<close>, \<^verbatim>\<open>msg_flags\<close>, \<^verbatim>\<open>timeout_flags\<close> and so on are one
  32-bit field.
\<close>

record sqe =
  opcode :: io_uring_op
  sqe_flags :: u8
  ioprio :: u16
  sqe_fd :: int
  off :: u64
  addr :: u64
  len :: u32
  op_flags :: u32
  user_data :: u64
  buf_index :: u16
  personality :: u16
  splice_fd_in :: int
  pad2 :: "u64 \<times> u64"

record cqe =
  cqe_user_data :: u64
  cqe_res :: int

record params =
  params_flags :: u32
  sq_entries :: u32
  features :: u32

text \<open>
  The operations of liburing the wrapper calls, on the state \<open>'k\<close> of the ring outside the memory of
  the submission queue entries, and the constants of the system headers.
\<close>

record 'k liburing =
  queue_init_params :: "u32 \<Rightarrow> int \<Rightarrow> params \<Rightarrow> 'k \<Rightarrow> int \<times> int \<times> params \<times> 'k"
  queue_exit :: "'k \<Rightarrow> 'k"
  get_sqe :: "'k \<Rightarrow> nat option \<times> 'k"
  peek_cqe :: "'k \<Rightarrow> int \<times> cqe option \<times> 'k"
  wait_cqe_nr :: "u32 \<Rightarrow> 'k \<Rightarrow> int \<times> cqe option \<times> 'k"
  cq_advance :: "u32 \<Rightarrow> 'k \<Rightarrow> 'k"
  sq_ready :: "'k \<Rightarrow> u32"
  submit_and_wait :: "u32 \<Rightarrow> (nat \<Rightarrow> sqe) \<Rightarrow> 'k \<Rightarrow> int \<times> 'k"
  IORING_SETUP_SQPOLL :: u32
  IORING_FEAT_NODROP :: u32
  IORING_FEAT_SUBMIT_STABLE :: u32
  IORING_TIMEOUT_ABS :: u32
  IOSQE_IO_LINK :: u8
  sizeof_open_how :: u64

text \<open>The members \<^verbatim>\<open>ring_\<close> and \<^verbatim>\<open>params_\<close>; the entries of the submission queue are memory of the ring.\<close>

record 'k io_uring =
  ring_fd :: int
  ring_params :: params
  sqes :: "nat \<Rightarrow> sqe"
  kern :: 'k

subsection \<open>Initialisation and queues\<close>

definition IoURing_destroy :: "'k liburing \<Rightarrow> 'k io_uring \<Rightarrow> 'k io_uring" where
  "IoURing_destroy lib r = r\<lparr>kern := queue_exit lib (kern r)\<rparr>"

definition ring_init :: "'k liburing \<Rightarrow> u64 \<Rightarrow> bool \<Rightarrow> 'k io_uring \<Rightarrow> bool \<times> 'k io_uring" where
  "ring_init lib sqEntries sqPoll r =
     (let ring_fd0 = - 1;
          p = \<lparr>params_flags = (if sqPoll then IORING_SETUP_SQPOLL lib else 0), sq_entries = 0, features = 0\<rparr>;
          (res, fd, p', k) = queue_init_params lib (ucast sqEntries) ring_fd0 p (kern r)
      in (0 \<le> res, r\<lparr>ring_fd := fd, ring_params := p', kern := k\<rparr>))"

definition isInitialized :: "'k io_uring \<Rightarrow> bool" where
  "isInitialized r \<longleftrightarrow> ring_fd r \<noteq> - 1"

definition getParams :: "'k io_uring \<Rightarrow> params" where
  "getParams r = ring_params r"

definition peekCqe :: "'k liburing \<Rightarrow> 'k io_uring \<Rightarrow> (cqe option \<times> 'k io_uring) outcome" where
  "peekCqe lib r =
     assertE (ring_fd r \<noteq> - 1)
       (let (res, c, k) = peek_cqe lib (kern r)
        in Inr (if res < 0 then None else c, r\<lparr>kern := k\<rparr>))"

definition waitCqe :: "'k liburing \<Rightarrow> u64 \<Rightarrow> 'k io_uring \<Rightarrow> (cqe option \<times> 'k io_uring) outcome" where
  "waitCqe lib num r =
     assertE (ring_fd r \<noteq> - 1)
       (let (res, c, k) = wait_cqe_nr lib (ucast num) (kern r)
        in Inr (if res < 0 then None else c, r\<lparr>kern := k\<rparr>))"

definition advanceCq :: "'k liburing \<Rightarrow> u64 \<Rightarrow> 'k io_uring \<Rightarrow> 'k io_uring outcome" where
  "advanceCq lib num r =
     assertE (ring_fd r \<noteq> - 1) (Inr (r\<lparr>kern := cq_advance lib (ucast num) (kern r)\<rparr>))"

definition getNumSqeEntries :: "'k io_uring \<Rightarrow> u64" where
  "getNumSqeEntries r = ucast (sq_entries (ring_params r))"

definition getSqeCapacity :: "'k liburing \<Rightarrow> 'k io_uring \<Rightarrow> u64" where
  "getSqeCapacity lib r = ucast (sq_entries (ring_params r) - sq_ready lib (kern r))"

definition getSqe :: "'k liburing \<Rightarrow> 'k io_uring \<Rightarrow> (nat option \<times> 'k io_uring) outcome" where
  "getSqe lib r =
     assertE (ring_fd r \<noteq> - 1)
       (let (s, k) = get_sqe lib (kern r) in Inr (s, r\<lparr>kern := k\<rparr>))"

definition submitSqes :: "'k liburing \<Rightarrow> u64 \<Rightarrow> 'k io_uring \<Rightarrow> (int \<times> 'k io_uring) outcome" where
  "submitSqes lib waitCqes r =
     assertE (ring_fd r \<noteq> - 1)
       (let (res, k) = submit_and_wait lib (ucast waitCqes) (sqes r) (kern r)
        in Inr (res, r\<lparr>kern := k\<rparr>))"

subsection \<open>Preparing entries\<close>

text \<open>Assignments to the fields of an entry.\<close>

definition write_sqe :: "nat \<Rightarrow> (sqe \<Rightarrow> sqe) \<Rightarrow> 'k io_uring \<Rightarrow> 'k io_uring" where
  "write_sqe i f r = r\<lparr>sqes := (sqes r)(i := f (sqes r i))\<rparr>"

definition prepare :: "'k liburing \<Rightarrow> io_uring_op \<Rightarrow> int \<Rightarrow> u64 \<Rightarrow> u64 \<Rightarrow> u32 \<Rightarrow> 'k io_uring
    \<Rightarrow> (nat option \<times> 'k io_uring) outcome" where
  "prepare lib oper fd offset address nbytes r =
     bindE (getSqe lib r) (\<lambda>(sqe, r').
       case sqe of
         None \<Rightarrow> Inr (None, r')
       | Some i \<Rightarrow> Inr (Some i, write_sqe i (\<lambda>e.
           e\<lparr>opcode := oper, sqe_flags := 0, ioprio := 0, sqe_fd := fd, off := offset, addr := address,
             len := nbytes, op_flags := 0, user_data := 0, buf_index := 0, personality := 0,
             splice_fd_in := 0, pad2 := (0, 0)\<rparr>) r'))"

text \<open>The common shape \<^verbatim>\<open>auto sqe = prepare(...); if (sqe) sqe->field = value; return sqe;\<close>.\<close>

definition if_sqe :: "(sqe \<Rightarrow> sqe) \<Rightarrow> (nat option \<times> 'k io_uring) outcome
    \<Rightarrow> (nat option \<times> 'k io_uring) outcome" where
  "if_sqe f m = bindE m (\<lambda>(sqe, r).
     case sqe of None \<Rightarrow> Inr (None, r) | Some i \<Rightarrow> Inr (Some i, write_sqe i f r))"

type_synonym 'k preparation = "'k io_uring \<Rightarrow> (nat option \<times> 'k io_uring) outcome"

definition prepareNop :: "'k liburing \<Rightarrow> 'k preparation" where
  "prepareNop lib r = prepare lib IORING_OP_NOP (- 1) 0 0 0 r"

definition prepareReadv :: "'k liburing \<Rightarrow> int \<Rightarrow> u64 \<Rightarrow> int \<Rightarrow> int \<Rightarrow> 'k preparation" where
  "prepareReadv lib fd iov iovcnt offset r =
     prepare lib IORING_OP_READV fd (word_of_int offset) iov (word_of_int iovcnt) r"

definition prepareWritev :: "'k liburing \<Rightarrow> int \<Rightarrow> u64 \<Rightarrow> int \<Rightarrow> int \<Rightarrow> 'k preparation" where
  "prepareWritev lib fd iov iovcnt offset r =
     prepare lib IORING_OP_WRITEV fd (word_of_int offset) iov (word_of_int iovcnt) r"

definition prepareFsync :: "'k liburing \<Rightarrow> int \<Rightarrow> u32 \<Rightarrow> 'k preparation" where
  "prepareFsync lib fd flags r =
     if_sqe (\<lambda>e. e\<lparr>op_flags := flags\<rparr>) (prepare lib IORING_OP_FSYNC fd 0 0 0 r)"

text \<open>
  \<^verbatim>\<open>poll_events\<close> is the lower half (on a little-endian machine) of the 32-bit union.
\<close>

definition set_poll_events :: "u16 \<Rightarrow> sqe \<Rightarrow> sqe" where
  "set_poll_events ev e = e\<lparr>op_flags := (op_flags e AND 0xffff0000) OR ucast ev\<rparr>"

definition preparePollAdd :: "'k liburing \<Rightarrow> int \<Rightarrow> int \<Rightarrow> u32 \<Rightarrow> 'k preparation" where
  "preparePollAdd lib fd events flags r =
     if_sqe (set_poll_events (word_of_int events)) (prepare lib IORING_OP_POLL_ADD fd 0 0 flags r)"

definition preparePollRemove :: "'k liburing \<Rightarrow> u64 \<Rightarrow> 'k preparation" where
  "preparePollRemove lib userData r = prepare lib IORING_OP_POLL_REMOVE (- 1) 0 userData 0 r"

definition prepareSyncFileRange :: "'k liburing \<Rightarrow> int \<Rightarrow> int \<Rightarrow> int \<Rightarrow> u32 \<Rightarrow> 'k preparation" where
  "prepareSyncFileRange lib fd offset nbytes flags r =
     if_sqe (\<lambda>e. e\<lparr>op_flags := flags\<rparr>)
       (prepare lib IORING_OP_SYNC_FILE_RANGE fd (word_of_int offset) 0 (word_of_int nbytes) r)"

definition prepareSendmsg :: "'k liburing \<Rightarrow> int \<Rightarrow> u64 \<Rightarrow> int \<Rightarrow> 'k preparation" where
  "prepareSendmsg lib sockfd msg flags r =
     if_sqe (\<lambda>e. e\<lparr>op_flags := word_of_int flags\<rparr>) (prepare lib IORING_OP_SENDMSG sockfd 0 msg 1 r)"

definition prepareRecvmsg :: "'k liburing \<Rightarrow> int \<Rightarrow> u64 \<Rightarrow> int \<Rightarrow> 'k preparation" where
  "prepareRecvmsg lib sockfd msg flags r =
     if_sqe (\<lambda>e. e\<lparr>op_flags := word_of_int flags\<rparr>) (prepare lib IORING_OP_RECVMSG sockfd 0 msg 1 r)"

definition prepareTimeout :: "'k liburing \<Rightarrow> u64 \<Rightarrow> u64 \<Rightarrow> u32 \<Rightarrow> 'k preparation" where
  "prepareTimeout lib ts count flags r =
     if_sqe (\<lambda>e. e\<lparr>op_flags := flags\<rparr>) (prepare lib IORING_OP_TIMEOUT (- 1) count ts 1 r)"

definition prepareTimeoutRemove :: "'k liburing \<Rightarrow> u64 \<Rightarrow> u32 \<Rightarrow> 'k preparation" where
  "prepareTimeoutRemove lib userData flags r =
     if_sqe (\<lambda>e. e\<lparr>op_flags := flags\<rparr>) (prepare lib IORING_OP_TIMEOUT_REMOVE (- 1) 0 userData 0 r)"

definition prepareAccept :: "'k liburing \<Rightarrow> int \<Rightarrow> u64 \<Rightarrow> u64 \<Rightarrow> u32 \<Rightarrow> 'k preparation" where
  "prepareAccept lib sockfd address addrlen flags r =
     if_sqe (\<lambda>e. e\<lparr>off := addrlen, op_flags := flags\<rparr>) (prepare lib IORING_OP_ACCEPT sockfd 0 address 0 r)"

definition prepareAsyncCancel :: "'k liburing \<Rightarrow> u64 \<Rightarrow> 'k preparation" where
  "prepareAsyncCancel lib userData r = prepare lib IORING_OP_ASYNC_CANCEL (- 1) 0 userData 0 r"

definition prepareLinkTimeout :: "'k liburing \<Rightarrow> u64 \<Rightarrow> u32 \<Rightarrow> 'k preparation" where
  "prepareLinkTimeout lib ts flags r =
     if_sqe (\<lambda>e. e\<lparr>op_flags := flags\<rparr>) (prepare lib IORING_OP_LINK_TIMEOUT (- 1) 0 ts 1 r)"

definition prepareConnect :: "'k liburing \<Rightarrow> int \<Rightarrow> u64 \<Rightarrow> u32 \<Rightarrow> 'k preparation" where
  "prepareConnect lib sockfd address addrlen r =
     prepare lib IORING_OP_CONNECT sockfd (ucast addrlen) address 0 r"

definition prepareOpenat :: "'k liburing \<Rightarrow> int \<Rightarrow> u64 \<Rightarrow> int \<Rightarrow> u32 \<Rightarrow> 'k preparation" where
  "prepareOpenat lib dirfd pathname flags mode r =
     if_sqe (\<lambda>e. e\<lparr>op_flags := word_of_int flags\<rparr>) (prepare lib IORING_OP_OPENAT dirfd 0 pathname mode r)"

definition prepareClose :: "'k liburing \<Rightarrow> int \<Rightarrow> 'k preparation" where
  "prepareClose lib fd r = prepare lib IORING_OP_CLOSE fd 0 0 0 r"

definition prepareStatx :: "'k liburing \<Rightarrow> int \<Rightarrow> u64 \<Rightarrow> int \<Rightarrow> u32 \<Rightarrow> u64 \<Rightarrow> 'k preparation" where
  "prepareStatx lib dirfd pathname flags statxmask statxbuf r =
     if_sqe (\<lambda>e. e\<lparr>op_flags := word_of_int flags\<rparr>) (prepare lib IORING_OP_STATX dirfd statxbuf pathname statxmask r)"

definition prepareRead :: "'k liburing \<Rightarrow> int \<Rightarrow> u64 \<Rightarrow> u64 \<Rightarrow> int \<Rightarrow> 'k preparation" where
  "prepareRead lib fd buf count offset r =
     prepare lib IORING_OP_READ fd (word_of_int offset) buf (ucast count) r"

definition prepareWrite :: "'k liburing \<Rightarrow> int \<Rightarrow> u64 \<Rightarrow> u64 \<Rightarrow> int \<Rightarrow> 'k preparation" where
  "prepareWrite lib fd buf count offset r =
     prepare lib IORING_OP_WRITE fd (word_of_int offset) buf (ucast count) r"

definition prepareSend :: "'k liburing \<Rightarrow> int \<Rightarrow> u64 \<Rightarrow> u64 \<Rightarrow> int \<Rightarrow> 'k preparation" where
  "prepareSend lib sockfd buf nbytes flags r =
     if_sqe (\<lambda>e. e\<lparr>op_flags := word_of_int flags\<rparr>) (prepare lib IORING_OP_SEND sockfd 0 buf (ucast nbytes) r)"

definition prepareRecv :: "'k liburing \<Rightarrow> int \<Rightarrow> u64 \<Rightarrow> u64 \<Rightarrow> int \<Rightarrow> 'k preparation" where
  "prepareRecv lib sockfd buf nbytes flags r =
     if_sqe (\<lambda>e. e\<lparr>op_flags := word_of_int flags\<rparr>) (prepare lib IORING_OP_RECV sockfd 0 buf (ucast nbytes) r)"

definition prepareOpenat2 :: "'k liburing \<Rightarrow> int \<Rightarrow> u64 \<Rightarrow> u64 \<Rightarrow> 'k preparation" where
  "prepareOpenat2 lib dirfd pathname how r =
     prepare lib IORING_OP_OPENAT2 dirfd how pathname (ucast (sizeof_open_how lib)) r"

definition prepareEpollCtl :: "'k liburing \<Rightarrow> int \<Rightarrow> int \<Rightarrow> int \<Rightarrow> u64 \<Rightarrow> 'k preparation" where
  "prepareEpollCtl lib epfd oper fd event r =
     prepare lib IORING_OP_EPOLL_CTL epfd event (word_of_int fd) (word_of_int oper) r"

definition prepareShutdown :: "'k liburing \<Rightarrow> int \<Rightarrow> int \<Rightarrow> 'k preparation" where
  "prepareShutdown lib fd how r = prepare lib IORING_OP_SHUTDOWN fd 0 0 (word_of_int how) r"

definition prepareRenameat :: "'k liburing \<Rightarrow> int \<Rightarrow> u64 \<Rightarrow> int \<Rightarrow> u64 \<Rightarrow> int \<Rightarrow> 'k preparation" where
  "prepareRenameat lib olddirfd oldpath newdirfd newpath flags r =
     if_sqe (\<lambda>e. e\<lparr>op_flags := word_of_int flags\<rparr>)
       (prepare lib IORING_OP_RENAMEAT olddirfd newpath oldpath (word_of_int newdirfd) r)"

definition prepareUnlinkat :: "'k liburing \<Rightarrow> int \<Rightarrow> u64 \<Rightarrow> int \<Rightarrow> 'k preparation" where
  "prepareUnlinkat lib dirfd pathname flags r =
     if_sqe (\<lambda>e. e\<lparr>op_flags := word_of_int flags\<rparr>) (prepare lib IORING_OP_UNLINKAT dirfd 0 pathname 0 r)"

lemmas prepare_defs = prepareNop_def prepareReadv_def prepareWritev_def prepareFsync_def
  preparePollAdd_def preparePollRemove_def prepareSyncFileRange_def prepareSendmsg_def
  prepareRecvmsg_def prepareTimeout_def prepareTimeoutRemove_def prepareAccept_def
  prepareAsyncCancel_def prepareLinkTimeout_def prepareConnect_def prepareOpenat_def
  prepareClose_def prepareStatx_def prepareRead_def prepareWrite_def prepareSend_def
  prepareRecv_def prepareOpenat2_def prepareEpollCtl_def prepareShutdown_def prepareRenameat_def
  prepareUnlinkat_def

subsection \<open>Requests\<close>

text \<open>One constructor per \<^verbatim>\<open>prepare\<close> function, with its arguments.\<close>

datatype request =
    Nop
  | Readv int u64 int int
  | Writev int u64 int int
  | Fsync int u32
  | PollAdd int int u32
  | PollRemove u64
  | SyncFileRange int int int u32
  | Sendmsg int u64 int
  | Recvmsg int u64 int
  | Timeout u64 u64 u32
  | TimeoutRemove u64 u32
  | Accept int u64 u64 u32
  | AsyncCancel u64
  | LinkTimeout u64 u32
  | Connect int u64 u32
  | Openat int u64 int u32
  | Close int
  | Statx int u64 int u32 u64
  | Read int u64 u64 int
  | Write int u64 u64 int
  | Send int u64 u64 int
  | Recv int u64 u64 int
  | Openat2 int u64 u64
  | EpollCtl int int int u64
  | Shutdown int int
  | Renameat int u64 int u64 int
  | Unlinkat int u64 int

primrec prepare_request :: "'k liburing \<Rightarrow> request \<Rightarrow> 'k preparation" where
  "prepare_request lib Nop = prepareNop lib"
| "prepare_request lib (Readv fd iov n o') = prepareReadv lib fd iov n o'"
| "prepare_request lib (Writev fd iov n o') = prepareWritev lib fd iov n o'"
| "prepare_request lib (Fsync fd fl) = prepareFsync lib fd fl"
| "prepare_request lib (PollAdd fd ev fl) = preparePollAdd lib fd ev fl"
| "prepare_request lib (PollRemove u) = preparePollRemove lib u"
| "prepare_request lib (SyncFileRange fd o' n fl) = prepareSyncFileRange lib fd o' n fl"
| "prepare_request lib (Sendmsg fd m fl) = prepareSendmsg lib fd m fl"
| "prepare_request lib (Recvmsg fd m fl) = prepareRecvmsg lib fd m fl"
| "prepare_request lib (Timeout ts n fl) = prepareTimeout lib ts n fl"
| "prepare_request lib (TimeoutRemove u fl) = prepareTimeoutRemove lib u fl"
| "prepare_request lib (Accept fd a al fl) = prepareAccept lib fd a al fl"
| "prepare_request lib (AsyncCancel u) = prepareAsyncCancel lib u"
| "prepare_request lib (LinkTimeout ts fl) = prepareLinkTimeout lib ts fl"
| "prepare_request lib (Connect fd a al) = prepareConnect lib fd a al"
| "prepare_request lib (Openat fd p fl m) = prepareOpenat lib fd p fl m"
| "prepare_request lib (Close fd) = prepareClose lib fd"
| "prepare_request lib (Statx fd p fl m b) = prepareStatx lib fd p fl m b"
| "prepare_request lib (Read fd b n o') = prepareRead lib fd b n o'"
| "prepare_request lib (Write fd b n o') = prepareWrite lib fd b n o'"
| "prepare_request lib (Send fd b n fl) = prepareSend lib fd b n fl"
| "prepare_request lib (Recv fd b n fl) = prepareRecv lib fd b n fl"
| "prepare_request lib (Openat2 fd p h) = prepareOpenat2 lib fd p h"
| "prepare_request lib (EpollCtl efd oper fd ev) = prepareEpollCtl lib efd oper fd ev"
| "prepare_request lib (Shutdown fd how) = prepareShutdown lib fd how"
| "prepare_request lib (Renameat fd p fd' p' fl) = prepareRenameat lib fd p fd' p' fl"
| "prepare_request lib (Unlinkat fd p fl) = prepareUnlinkat lib fd p fl"

text \<open>
  The kernel's reading of an entry: which request it describes, following the table of operations in
  the manual page of \<^verbatim>\<open>io_uring_enter\<close> and, where it is silent, what liburing's own helpers write: for
  \<^verbatim>\<open>epoll_ctl\<close> the descriptor is in \<^verbatim>\<open>off\<close> and the address of the event in \<^verbatim>\<open>addr\<close>. Entries that carry leftovers of an earlier use of the slot in
  a field that must be zero are rejected.
\<close>

definition clean_sqe :: "sqe \<Rightarrow> bool" where
  "clean_sqe e \<longleftrightarrow> sqe_flags e = 0 \<and> ioprio e = 0 \<and> buf_index e = 0 \<and> personality e = 0 \<and>
     splice_fd_in e = 0 \<and> pad2 e = (0, 0)"

definition read_sqe :: "sqe \<Rightarrow> request option" where
  "read_sqe e =
     (if \<not> clean_sqe e then None
      else let fd = sqe_fd e; o' = off e; so = sint (off e); a = addr e; l = len e; sl = sint (len e);
               fl = op_flags e; sf = sint (op_flags e)
      in case opcode e of
        IORING_OP_NOP \<Rightarrow> Some Nop
      | IORING_OP_READV \<Rightarrow> Some (Readv fd a sl so)
      | IORING_OP_WRITEV \<Rightarrow> Some (Writev fd a sl so)
      | IORING_OP_FSYNC \<Rightarrow> Some (Fsync fd fl)
      | IORING_OP_POLL_ADD \<Rightarrow> Some (PollAdd fd (sint (ucast fl :: u16)) l)
      | IORING_OP_POLL_REMOVE \<Rightarrow> Some (PollRemove a)
      | IORING_OP_SYNC_FILE_RANGE \<Rightarrow> Some (SyncFileRange fd so (uint l) fl)
      | IORING_OP_SENDMSG \<Rightarrow> Some (Sendmsg fd a sf)
      | IORING_OP_RECVMSG \<Rightarrow> Some (Recvmsg fd a sf)
      | IORING_OP_TIMEOUT \<Rightarrow> (if l = 1 then Some (Timeout a o' fl) else None)
      | IORING_OP_TIMEOUT_REMOVE \<Rightarrow> Some (TimeoutRemove a fl)
      | IORING_OP_ACCEPT \<Rightarrow> Some (Accept fd a o' fl)
      | IORING_OP_ASYNC_CANCEL \<Rightarrow> Some (AsyncCancel a)
      | IORING_OP_LINK_TIMEOUT \<Rightarrow> (if l = 1 then Some (LinkTimeout a fl) else None)
      | IORING_OP_CONNECT \<Rightarrow> Some (Connect fd a (ucast o'))
      | IORING_OP_OPENAT \<Rightarrow> Some (Openat fd a sf l)
      | IORING_OP_CLOSE \<Rightarrow> Some (Close fd)
      | IORING_OP_STATX \<Rightarrow> Some (Statx fd a sf l o')
      | IORING_OP_READ \<Rightarrow> Some (Read fd a (ucast l) so)
      | IORING_OP_WRITE \<Rightarrow> Some (Write fd a (ucast l) so)
      | IORING_OP_SEND \<Rightarrow> Some (Send fd a (ucast l) sf)
      | IORING_OP_RECV \<Rightarrow> Some (Recv fd a (ucast l) sf)
      | IORING_OP_OPENAT2 \<Rightarrow> Some (Openat2 fd a o')
      | IORING_OP_EPOLL_CTL \<Rightarrow> Some (EpollCtl fd sl (sint (ucast o' :: u32)) a)
      | IORING_OP_SHUTDOWN \<Rightarrow> Some (Shutdown fd sl)
      | IORING_OP_RENAMEAT \<Rightarrow> Some (Renameat fd a sl o' sf)
      | IORING_OP_UNLINKAT \<Rightarrow> Some (Unlinkat fd a sf))"

text \<open>
  The ranges of the C types of the arguments, and that the byte counts (\<^verbatim>\<open>size_t\<close> and \<^verbatim>\<open>off64_t\<close> in the
  interface) fit the 32-bit field of the entry.
\<close>

definition in_int :: "int \<Rightarrow> bool" where
  "in_int x \<longleftrightarrow> - (2 ^ 31) \<le> x \<and> x < 2 ^ 31"

definition in_off :: "int \<Rightarrow> bool" where
  "in_off x \<longleftrightarrow> - (2 ^ 63) \<le> x \<and> x < 2 ^ 63"

primrec representable :: "request \<Rightarrow> bool" where
  "representable Nop = True"
| "representable (Readv fd iov n o') = (in_int n \<and> in_off o')"
| "representable (Writev fd iov n o') = (in_int n \<and> in_off o')"
| "representable (Fsync fd fl) = True"
| "representable (PollAdd fd ev fl) = (- (2 ^ 15) \<le> ev \<and> ev < 2 ^ 15)"
| "representable (PollRemove u) = True"
| "representable (SyncFileRange fd o' n fl) = (in_off o' \<and> 0 \<le> n \<and> n < 2 ^ 32)"
| "representable (Sendmsg fd m fl) = in_int fl"
| "representable (Recvmsg fd m fl) = in_int fl"
| "representable (Timeout ts n fl) = True"
| "representable (TimeoutRemove u fl) = True"
| "representable (Accept fd a al fl) = True"
| "representable (AsyncCancel u) = True"
| "representable (LinkTimeout ts fl) = True"
| "representable (Connect fd a al) = True"
| "representable (Openat fd p fl m) = in_int fl"
| "representable (Close fd) = True"
| "representable (Statx fd p fl m b) = in_int fl"
| "representable (Read fd b n o') = (unat n < 2 ^ 32 \<and> in_off o')"
| "representable (Write fd b n o') = (unat n < 2 ^ 32 \<and> in_off o')"
| "representable (Send fd b n fl) = (unat n < 2 ^ 32 \<and> in_int fl)"
| "representable (Recv fd b n fl) = (unat n < 2 ^ 32 \<and> in_int fl)"
| "representable (Openat2 fd p h) = True"
| "representable (EpollCtl efd oper fd ev) = (in_int oper \<and> in_int fd)"
| "representable (Shutdown fd how) = in_int how"
| "representable (Renameat fd p fd' p' fl) = (in_int fd' \<and> in_int fl)"
| "representable (Unlinkat fd p fl) = in_int fl"

subsection \<open>What is prepared\<close>

lemma sint_word_of_int_u16: "- (2 ^ 15) \<le> x \<Longrightarrow> x < 2 ^ 15 \<Longrightarrow> sint (word_of_int x :: u16) = x"
  by (simp add: signed_of_int signed_take_bit_int_eq_self)

lemma sint_word_of_int_u32: "in_int x \<Longrightarrow> sint (word_of_int x :: u32) = x"
  by (simp add: in_int_def signed_of_int signed_take_bit_int_eq_self)

lemma sint_word_of_int_u64: "in_off x \<Longrightarrow> sint (word_of_int x :: u64) = x"
  by (simp add: in_off_def signed_of_int signed_take_bit_int_eq_self)

lemma in_int_in_off: "in_int x \<Longrightarrow> in_off x"
  by (simp add: in_int_def in_off_def)

lemma uint_word_of_int_u32: "0 \<le> x \<Longrightarrow> x < 2 ^ 32 \<Longrightarrow> uint (word_of_int x :: u32) = x"
  by (simp add: uint_word_of_int_eq take_bit_int_eq_self)

lemma ucast_u32_id: "unat n < 2 ^ 32 \<Longrightarrow> (ucast (ucast (n :: u64) :: u32) :: u64) = n"
  by (rule unsigned_word_eqI [where 'a = nat])
    (simp add: unsigned_ucast_eq unsigned_take_bit_eq take_bit_nat_eq_self)

lemma ucast_u64_id: "(ucast (ucast (n :: u32) :: u64) :: u32) = n"
  by (rule ucast_up_ucast_id) (simp add: is_up)

lemma poll_events_id: "(ucast (ucast (ev :: u16) :: u32) :: u16) = ev"
  by (rule ucast_up_ucast_id) (simp add: is_up)

definition base_sqe :: "io_uring_op \<Rightarrow> int \<Rightarrow> u64 \<Rightarrow> u64 \<Rightarrow> u32 \<Rightarrow> sqe" where
  "base_sqe oper fd offset address nbytes =
     \<lparr>opcode = oper, sqe_flags = 0, ioprio = 0, sqe_fd = fd, off = offset, addr = address, len = nbytes,
      op_flags = 0, user_data = 0, buf_index = 0, personality = 0, splice_fd_in = 0, pad2 = (0, 0)\<rparr>"

definition fill :: "'k liburing \<Rightarrow> sqe \<Rightarrow> 'k preparation" where
  "fill lib e r = bindE (getSqe lib r) (\<lambda>(s, r').
     Inr (s, case s of None \<Rightarrow> r' | Some i \<Rightarrow> r'\<lparr>sqes := (sqes r')(i := e)\<rparr>))"

lemma prepare_fill: "prepare lib oper fd offset address nbytes r = fill lib (base_sqe oper fd offset address nbytes) r"
  unfolding prepare_def fill_def write_sqe_def base_sqe_def
  by (rule arg_cong2 [where f = bindE]) (auto simp: fun_eq_iff split: option.splits)

lemma if_sqe_fill: "if_sqe f (fill lib e r) = fill lib (f e) r"
  unfolding if_sqe_def fill_def write_sqe_def
  by (cases "getSqe lib r") (auto split: option.splits)

lemmas arg_simps = sint_word_of_int_u16 sint_word_of_int_u32 sint_word_of_int_u64
  uint_word_of_int_u32 ucast_u32_id ucast_u64_id poll_events_id in_int_in_off

lemma prepare_request_is_fill: "\<exists>e. \<forall>r. prepare_request lib q r = fill lib e r"
  by (cases q; simp only: prepare_request.simps prepare_defs prepare_fill if_sqe_fill;
      (rule exI, rule allI, rule refl))

text \<open>
  What the kernel makes of a request: the request itself, except that \<^verbatim>\<open>prepareEpollCtl\<close> writes the descriptor and the
  address of the event in each other's place.
\<close>

definition as_read :: "request \<Rightarrow> request" where
  "as_read q = (case q of EpollCtl efd oper fd ev \<Rightarrow> EpollCtl efd oper (sint (ucast ev :: u32)) (word_of_int fd) | _ \<Rightarrow> q)"

lemma as_read_simps [simp]:
  "(\<And>efd oper fd ev. q \<noteq> EpollCtl efd oper fd ev) \<Longrightarrow> as_read q = q"
  "as_read (EpollCtl efd oper fd ev) = EpollCtl efd oper (sint (ucast ev :: u32)) (word_of_int fd)"
  by (auto simp: as_read_def split: request.splits)

lemma prepare_request_as_read:
  "representable q \<Longrightarrow>
   \<exists>e. (\<forall>r. prepare_request lib q r = fill lib e r) \<and> read_sqe e = Some (as_read q) \<and> user_data e = 0"
  by (cases q; simp only: prepare_request.simps prepare_defs prepare_fill if_sqe_fill;
      (rule exI, rule conjI, rule allI, rule refl);
      (simp add: base_sqe_def set_poll_events_def as_read_def);
      (simp add: read_sqe_def clean_sqe_def arg_simps))

lemma prepare_request_fill:
  assumes "representable q" and "\<And>efd oper fd ev. q \<noteq> EpollCtl efd oper fd ev"
  shows "\<exists>e. (\<forall>r. prepare_request lib q r = fill lib e r) \<and> read_sqe e = Some q \<and> user_data e = 0"
  using prepare_request_as_read [OF assms(1), of lib] as_read_simps(1) [OF assms(2)] by simp

lemma getSqe_uninitialized: "ring_fd r = - 1 \<Longrightarrow> fill lib e r = Inl AssertionFailed"
  by (simp add: fill_def getSqe_def)

lemma fill_initialized:
  "ring_fd r \<noteq> - 1 \<Longrightarrow> fill lib e r =
     Inr (fst (get_sqe lib (kern r)),
          (case fst (get_sqe lib (kern r)) of
             None \<Rightarrow> r\<lparr>kern := snd (get_sqe lib (kern r))\<rparr>
           | Some i \<Rightarrow> r\<lparr>kern := snd (get_sqe lib (kern r)), sqes := (sqes r)(i := e)\<rparr>))"
  by (simp add: fill_def getSqe_def split: prod.splits option.splits)

subsection \<open>A ring for concrete runs\<close>

text \<open>
  A minimal ring that completes every entry at submission, used to evaluate the definitions on
  concrete inputs. Transfers complete with the length of the request, everything else with 0.
\<close>

record sim =
  sim_cap :: nat
  sim_tail :: nat
  sim_ready :: "nat list"
  sim_cq :: "cqe list"

definition sim_res :: "sqe \<Rightarrow> int" where
  "sim_res e = (if opcode e \<in> {IORING_OP_SEND, IORING_OP_RECV, IORING_OP_READ} then uint (len e) else 0)"

definition sim_lib :: "sim liburing" where
  "sim_lib =
     \<lparr>queue_init_params = (\<lambda>n fd p k. (0, 3, p\<lparr>sq_entries := n, features := 6\<rparr>, k\<lparr>sim_cap := unat n\<rparr>)),
      queue_exit = (\<lambda>k. k),
      get_sqe = (\<lambda>k. if length (sim_ready k) < sim_cap k
                     then (Some (sim_tail k mod sim_cap k),
                           k\<lparr>sim_tail := Suc (sim_tail k), sim_ready := sim_ready k @ [sim_tail k mod sim_cap k]\<rparr>)
                     else (None, k)),
      peek_cqe = (\<lambda>k. case sim_cq k of [] \<Rightarrow> (- 11, None, k) | c # _ \<Rightarrow> (0, Some c, k)),
      wait_cqe_nr = (\<lambda>n k. case sim_cq k of [] \<Rightarrow> (- 11, None, k) | c # _ \<Rightarrow> (0, Some c, k)),
      cq_advance = (\<lambda>n k. k\<lparr>sim_cq := drop (unat n) (sim_cq k)\<rparr>),
      sq_ready = (\<lambda>k. of_nat (length (sim_ready k))),
      submit_and_wait = (\<lambda>n mem k. (int (length (sim_ready k)),
        k\<lparr>sim_ready := [], sim_cq := sim_cq k @ map (\<lambda>i. \<lparr>cqe_user_data = user_data (mem i),
            cqe_res = sim_res (mem i)\<rparr>) (sim_ready k)\<rparr>)),
      IORING_SETUP_SQPOLL = 2, IORING_FEAT_NODROP = 2, IORING_FEAT_SUBMIT_STABLE = 4,
      IORING_TIMEOUT_ABS = 1, IOSQE_IO_LINK = 4, sizeof_open_how = 24\<rparr>"

text \<open>A fresh ring whose entries hold leftovers.\<close>

definition sim_ring :: "nat \<Rightarrow> sim io_uring" where
  "sim_ring cap =
     \<lparr>ring_fd = 3, ring_params = \<lparr>params_flags = 0, sq_entries = of_nat cap, features = 6\<rparr>,
      sqes = (\<lambda>_. (base_sqe IORING_OP_SEND 9 8 7 6)\<lparr>sqe_flags := 4, op_flags := 5, user_data := 4, buf_index := 3\<rparr>),
      kern = \<lparr>sim_cap = cap, sim_tail = 0, sim_ready = [], sim_cq = []\<rparr>\<rparr>"

subsection \<open>Properties\<close>

text \<open>
  C25: Each of the 27 functions that prepare an entry does exactly one thing to an initialised ring:
  if liburing hands out a slot, that slot, and no other, holds an entry which the kernel reads back
  as the request that was asked for, whatever an earlier use left in the slot; if the ring is full,
  null is returned and no entry changes. Before initialisation they fail an assertion. The arguments
  have to be in the range of their C types, byte counts below 4 GiB, and for \<^verbatim>\<open>sync_file_range\<close> not negative. The exception
  is \<^verbatim>\<open>prepareEpollCtl\<close>, whose entry the kernel reads with the descriptor and the address of the event swapped: \<open>as_read\<close>
  says what it reads instead, and is the request itself for the other 26.
\<close>

theorem prepare_request_roundtrip:
  assumes "representable q"
  shows "(ring_fd r = - 1 \<longrightarrow> prepare_request lib q r = Inl AssertionFailed) \<and>
    (ring_fd r \<noteq> - 1 \<longrightarrow>
      (case get_sqe lib (kern r) of
         (None, k) \<Rightarrow> prepare_request lib q r = Inr (None, r\<lparr>kern := k\<rparr>)
       | (Some i, k) \<Rightarrow> (\<exists>e. prepare_request lib q r = Inr (Some i, r\<lparr>kern := k, sqes := (sqes r)(i := e)\<rparr>) \<and>
                            read_sqe e = Some (as_read q) \<and> user_data e = 0)))"
proof -
  from prepare_request_as_read [OF assms, of lib] obtain e
    where "\<forall>r. prepare_request lib q r = fill lib e r" "read_sqe e = Some (as_read q)" "user_data e = 0" by blast
  then show ?thesis
    by (cases "get_sqe lib (kern r)") (auto simp: getSqe_uninitialized fill_initialized split: option.splits)
qed

theorem prepare_request_roundtrip_witness:
  "\<exists>e r'. prepare_request sim_lib (Recv 5 4096 512 0) (sim_ring 8) = Inr (Some 0, r') \<and> sqes r' 0 = e \<and>
     read_sqe e = Some (Recv 5 4096 512 0) \<and> user_data e = 0"
proof -
  have "representable (Recv 5 4096 512 0)" by (simp add: in_int_def)
  moreover have "fst (get_sqe sim_lib (kern (sim_ring 8))) = Some 0" "ring_fd (sim_ring 8) \<noteq> - 1"
    by (simp_all add: sim_lib_def sim_ring_def)
  ultimately show ?thesis
    using prepare_request_roundtrip [of "Recv 5 4096 512 0" "sim_ring 8" sim_lib]
    by (cases "get_sqe sim_lib (kern (sim_ring 8))") fastforce
qed

text \<open>
  Adding descriptor 7 to an epoll instance with the event at address 4096: the kernel reads a request about descriptor 4096 with
  its event at address 7.
\<close>

theorem epoll_ctl_swapped:
  "\<exists>e. (\<forall>r. prepareEpollCtl lib 5 1 7 4096 r = fill lib e r) \<and> read_sqe e = Some (EpollCtl 5 1 4096 7)"
proof -
  have "representable (EpollCtl 5 1 7 4096)" by (simp add: in_int_def)
  from prepare_request_as_read [OF this, of lib] show ?thesis by (auto simp: ucast_eq)
qed

text \<open>
  The byte count of a transfer is silently reduced modulo 2^32, since the interface takes a
  \<^verbatim>\<open>size_t\<close> and the entry has 32 bits: a transfer of 4 GiB is prepared as a transfer of 0 bytes.
\<close>

theorem transfer_length_wraps:
  "prepareSend lib fd buf (n + 2 ^ 32 * m) flags r = prepareSend lib fd buf n flags r \<and>
   prepareRecv lib fd buf (n + 2 ^ 32 * m) flags r = prepareRecv lib fd buf n flags r \<and>
   prepareRead lib fd buf (n + 2 ^ 32 * m) o' r = prepareRead lib fd buf n o' r \<and>
   prepareWrite lib fd buf (n + 2 ^ 32 * m) o' r = prepareWrite lib fd buf n o' r"
proof -
  have "(ucast (n + 2 ^ 32 * m) :: u32) = ucast n"
  proof (rule unsigned_word_eqI [where 'a = nat])
    have "unat (ucast (n + 2 ^ 32 * m) :: u32) = unat (n + 2 ^ 32 * m) mod 2 ^ 32"
      by (simp add: unsigned_ucast_eq unsigned_take_bit_eq take_bit_eq_mod)
    also have "\<dots> = (unat n + 2 ^ 32 * unat m) mod 2 ^ 64 mod 2 ^ 32"
      by (simp add: unat_word_ariths mod_simps)
    also have "\<dots> = unat n mod 2 ^ 32"
      by (subst mod_mod_cancel) simp_all
    also have "\<dots> = unat (ucast n :: u32)"
      by (simp add: unsigned_ucast_eq unsigned_take_bit_eq take_bit_eq_mod)
    finally show "unat (ucast (n + 2 ^ 32 * m) :: u32) = unat (ucast n :: u32)" .
  qed
  then show ?thesis by (simp only: prepareSend_def prepareRecv_def prepareRead_def prepareWrite_def)
qed

end
