(* ===== verification/IoQueue.thy ===== *)
theory IoQueue
  imports CompleterMap IoURing
begin

text \<open>
  The event loop (\<^verbatim>\<open>ioqueue.hpp\<close>, \<^verbatim>\<open>ioqueue.cpp\<close>, \<^verbatim>\<open>ioqueue_impl_iouring.cpp\<close>): operation ids and handles,
  submission, linked timeouts, cancellation, awaiters and their completers, and \<open>run\<close>.

  A coroutine of a client is a tree of the library calls it makes, with one branch per possible
  answer (\<open>prog\<close>). Starting or resuming one executes calls until the coroutine suspends in an
  \<open>await\<close> or returns. Such trees are well-founded; a coroutine that loops forever is covered by its
  finite unrollings. Heap objects with an owner in the library, the \<^verbatim>\<open>CoroutineCompleter\<close>s and the
  awaiters inside suspended coroutine frames, live in explicit stores, so that a dangling access or
  a double delete is the outcome \<open>UndefinedBehaviour\<close>. The ring and the allocator are parameters.
  Log output is not modelled.
\<close>

subsection \<open>Results and handles\<close>

text \<open>An \<^verbatim>\<open>IoResult\<close> holds an \<^verbatim>\<open>int\<close>: a non-negative result or a negated \<^verbatim>\<open>errno\<close>.\<close>

type_synonym io_result = int

definition IoResult_default :: io_result where
  "IoResult_default = - (2 ^ 31)"

definition io_result_error :: "io_result \<Rightarrow> int outcome" where
  "io_result_error r = (if - r < 2 ^ 31 then Inr (- r) else Inl UndefinedBehaviour)"

definition io_result_value :: "io_result \<Rightarrow> int outcome" where
  "io_result_value r = assertE (0 \<le> r) (Inr r)"

definition io_result_ok :: "io_result \<Rightarrow> bool" where
  "io_result_ok r \<longleftrightarrow> 0 \<le> r"

definition OpIdInvalid :: u64 where
  "OpIdInvalid = - 1 - 1"

definition OpIdIgnore :: u64 where
  "OpIdIgnore = - 1"

text \<open>A handle points to its queue (or to none) and names an operation.\<close>

record operation_handle =
  oh_io :: bool
  oh_id :: u64

definition null_handle :: operation_handle where
  "null_handle = \<lparr>oh_io = False, oh_id = OpIdInvalid\<rparr>"

definition oh_valid :: "operation_handle \<Rightarrow> bool" where
  "oh_valid h \<longleftrightarrow> oh_io h \<and> oh_id h \<noteq> OpIdInvalid"

subsection \<open>Client coroutines\<close>

text \<open>The operations of the interface that are submitted to the ring.\<close>

datatype io_op =
    OpAccept int u64 u64
  | OpConnect int u64 u32
  | OpSend int u64 u64
  | OpRecv int u64 u64
  | OpRead int u64 u64
  | OpClose int
  | OpShutdown int int
  | OpPoll int int
  | OpRecvmsg int u64 int
  | OpSendmsg int u64 int
  | OpTimeout u64 u32

datatype prog =
    Return
  | Submit io_op "operation_handle \<Rightarrow> prog"
  | LinkedTimeout u64 int operation_handle "operation_handle \<Rightarrow> prog"
  | Await operation_handle "io_result \<Rightarrow> prog"
  | CancelOp operation_handle bool "operation_handle \<Rightarrow> prog"
  | Start prog "nat \<Rightarrow> prog"
  | Destroy nat prog
  | Undefined

text \<open>
  \<open>Undefined\<close> is a client whose own code does something undefined, such as an access to a variable that is gone: from
  there on nothing can be said.
\<close>

text \<open>\<^verbatim>\<open>OperationAwaiter\<close>: part of the frame of a suspended coroutine.\<close>

record awaiter =
  aw_operation :: operation_handle
  aw_caller :: "io_result \<Rightarrow> prog"
  aw_result :: io_result

subsection \<open>State\<close>

text \<open>
  \<open>completer_mem\<close> holds the live \<^verbatim>\<open>CoroutineCompleter\<close> objects by address, each with its pointer to an
  awaiter; awaiters are named by their coroutine. \<open>resumed\<close> records every resumption.
\<close>

record 'k io_queue =
  nextOpId :: u64
  q_ring :: "'k io_uring"
  completers :: completer_map
  lastSqe :: "nat option"
  completer_mem :: "u64 \<rightharpoonup> nat"
  awaiters :: "nat \<rightharpoonup> awaiter"
  next_coro :: nat
  resumed :: "(nat \<times> io_result) list"

record 'k platform =
  uring :: "'k liburing"
  malloc :: "(u64 \<rightharpoonup> nat) \<Rightarrow> u64"

definition getNextOpId :: "u64 \<Rightarrow> u64 \<times> u64" where
  "getNextOpId n =
     (let n' = (if n = OpIdInvalid \<or> n = OpIdIgnore then 0 else n) in (n', n' + 1))"

subsection \<open>Construction\<close>

definition IoQueueImpl :: "nat \<Rightarrow> 'k io_uring \<Rightarrow> 'k io_queue outcome" where
  "IoQueueImpl sz r =
     bindE (CompleterMap sz) (\<lambda>cm. Inr
       \<lparr>nextOpId = 0, q_ring = r, completers = cm, lastSqe = None, completer_mem = Map.empty,
        awaiters = Map.empty, next_coro = 0, resumed = []\<rparr>)"

definition impl_init :: "'k platform \<Rightarrow> bool \<Rightarrow> 'k io_queue \<Rightarrow> bool \<times> 'k io_queue" where
  "impl_init P sqPolling q =
     (let (ok, r) = ring_init (uring P) (cm_capacity (completers q)) sqPolling (q_ring q);
          q' = q\<lparr>q_ring := r\<rparr>;
          f = features (getParams r)
      in if \<not> ok then (False, q')
         else if f AND IORING_FEAT_NODROP (uring P) = 0 then (False, q')
         else if f AND IORING_FEAT_SUBMIT_STABLE (uring P) = 0 then (False, q')
         else (True, q'))"

text \<open>The constructor exits the process when the ring cannot be set up.\<close>

definition IoQueue_construct :: "'k platform \<Rightarrow> nat \<Rightarrow> 'k io_uring \<Rightarrow> 'k io_queue outcome" where
  "IoQueue_construct P sz r =
     bindE (IoQueueImpl sz r) (\<lambda>q.
       let (ok, q') = impl_init P False q in if ok then Inr q' else Inl Aborted)"

definition getSize :: "'k io_queue \<Rightarrow> u64" where
  "getSize q = getNumSqeEntries (q_ring q)"

definition getCapacity :: "'k platform \<Rightarrow> 'k io_queue \<Rightarrow> u64" where
  "getCapacity P q = getSqeCapacity (uring P) (q_ring q)"

subsection \<open>Submission\<close>

definition finalizeSqe_id :: "nat option \<Rightarrow> u64 \<Rightarrow> 'k io_queue \<Rightarrow> operation_handle \<times> 'k io_queue" where
  "finalizeSqe_id sqe userData q =
     (case sqe of
        None \<Rightarrow> (null_handle, q)
      | Some i \<Rightarrow>
          (\<lparr>oh_io = True, oh_id = userData\<rparr>,
           q\<lparr>q_ring := write_sqe i (\<lambda>e. e\<lparr>user_data := userData\<rparr>) (q_ring q), lastSqe := Some i\<rparr>))"

definition finalizeSqe :: "nat option \<Rightarrow> 'k io_queue \<Rightarrow> operation_handle \<times> 'k io_queue" where
  "finalizeSqe sqe q =
     (let (opId, n) = getNextOpId (nextOpId q) in finalizeSqe_id sqe opId (q\<lparr>nextOpId := n\<rparr>))"

definition on_ring :: "'k preparation \<Rightarrow> (nat option \<Rightarrow> 'k io_queue \<Rightarrow> 'b) \<Rightarrow> 'k io_queue \<Rightarrow> 'b outcome" where
  "on_ring prep f q = bindE (prep (q_ring q)) (\<lambda>(sqe, r). Inr (f sqe (q\<lparr>q_ring := r\<rparr>)))"

type_synonym 'k submission = "'k io_queue \<Rightarrow> (operation_handle \<times> 'k io_queue) outcome"

definition ioq_accept :: "'k platform \<Rightarrow> int \<Rightarrow> u64 \<Rightarrow> u64 \<Rightarrow> 'k submission" where
  "ioq_accept P fd address addrlen = on_ring (prepareAccept (uring P) fd address addrlen 0) finalizeSqe"

definition ioq_connect :: "'k platform \<Rightarrow> int \<Rightarrow> u64 \<Rightarrow> u32 \<Rightarrow> 'k submission" where
  "ioq_connect P sockfd address addrlen = on_ring (prepareConnect (uring P) sockfd address addrlen) finalizeSqe"

definition ioq_send :: "'k platform \<Rightarrow> int \<Rightarrow> u64 \<Rightarrow> u64 \<Rightarrow> 'k submission" where
  "ioq_send P sockfd buf n = on_ring (prepareSend (uring P) sockfd buf n 0) finalizeSqe"

definition ioq_recv :: "'k platform \<Rightarrow> int \<Rightarrow> u64 \<Rightarrow> u64 \<Rightarrow> 'k submission" where
  "ioq_recv P sockfd buf n = on_ring (prepareRecv (uring P) sockfd buf n 0) finalizeSqe"

definition ioq_read :: "'k platform \<Rightarrow> int \<Rightarrow> u64 \<Rightarrow> u64 \<Rightarrow> 'k submission" where
  "ioq_read P fd buf count = on_ring (prepareRead (uring P) fd buf count 0) finalizeSqe"

definition ioq_close :: "'k platform \<Rightarrow> int \<Rightarrow> 'k submission" where
  "ioq_close P fd = on_ring (prepareClose (uring P) fd) finalizeSqe"

definition ioq_shutdown :: "'k platform \<Rightarrow> int \<Rightarrow> int \<Rightarrow> 'k submission" where
  "ioq_shutdown P fd how = on_ring (prepareShutdown (uring P) fd how) finalizeSqe"

definition ioq_poll :: "'k platform \<Rightarrow> int \<Rightarrow> int \<Rightarrow> 'k submission" where
  "ioq_poll P fd events = on_ring (preparePollAdd (uring P) fd events 0) finalizeSqe"

definition ioq_recvmsg :: "'k platform \<Rightarrow> int \<Rightarrow> u64 \<Rightarrow> int \<Rightarrow> 'k submission" where
  "ioq_recvmsg P sockfd msg flags = on_ring (prepareRecvmsg (uring P) sockfd msg flags) finalizeSqe"

definition ioq_sendmsg :: "'k platform \<Rightarrow> int \<Rightarrow> u64 \<Rightarrow> int \<Rightarrow> 'k submission" where
  "ioq_sendmsg P sockfd msg flags = on_ring (prepareSendmsg (uring P) sockfd msg flags) finalizeSqe"

definition ioq_timeout :: "'k platform \<Rightarrow> u64 \<Rightarrow> u32 \<Rightarrow> 'k submission" where
  "ioq_timeout P ts flags = on_ring (prepareTimeout (uring P) ts 0 flags) finalizeSqe"

primrec submit :: "'k platform \<Rightarrow> io_op \<Rightarrow> 'k submission" where
  "submit P (OpAccept fd a al) = ioq_accept P fd a al"
| "submit P (OpConnect fd a al) = ioq_connect P fd a al"
| "submit P (OpSend fd b n) = ioq_send P fd b n"
| "submit P (OpRecv fd b n) = ioq_recv P fd b n"
| "submit P (OpRead fd b n) = ioq_read P fd b n"
| "submit P (OpClose fd) = ioq_close P fd"
| "submit P (OpShutdown fd how) = ioq_shutdown P fd how"
| "submit P (OpPoll fd ev) = ioq_poll P fd ev"
| "submit P (OpRecvmsg fd m fl) = ioq_recvmsg P fd m fl"
| "submit P (OpSendmsg fd m fl) = ioq_sendmsg P fd m fl"
| "submit P (OpTimeout ts fl) = ioq_timeout P ts fl"

definition linkTimeout :: "'k platform \<Rightarrow> u64 \<Rightarrow> int \<Rightarrow> operation_handle \<Rightarrow> 'k submission" where
  "linkTimeout P ts flags h q =
     assertE (oh_valid h)
       (case lastSqe q of
          None \<Rightarrow> Inl AssertionFailed
        | Some i \<Rightarrow>
            assertE (user_data (sqes (q_ring q) i) = oh_id h)
              (let q1 = q\<lparr>q_ring := write_sqe i (\<lambda>e. e\<lparr>sqe_flags := sqe_flags e OR IOSQE_IO_LINK (uring P)\<rparr>) (q_ring q)\<rparr>
               in bindE (on_ring (prepareLinkTimeout (uring P) ts (word_of_int flags)) (\<lambda>sqe. finalizeSqe_id sqe OpIdIgnore) q1)
                    (\<lambda>(t, q2). Inr (if oh_valid t then h else null_handle, q2))))"

subsection \<open>Completers, cancellation, awaiters\<close>

definition delete_completer :: "u64 \<Rightarrow> 'k io_queue \<Rightarrow> 'k io_queue outcome" where
  "delete_completer ptr q =
     (if ptr = 0 then Inr q
      else if completer_mem q ptr = None then Inl UndefinedBehaviour
      else Inr (q\<lparr>completer_mem := (completer_mem q)(ptr := None)\<rparr>))"

definition ioq_cancel :: "'k platform \<Rightarrow> operation_handle \<Rightarrow> bool \<Rightarrow> 'k submission" where
  "ioq_cancel P h cancelHandler q =
     assertE (oh_valid h)
       (bindE (if cancelHandler
               then let (ptr, cm) = cm_remove (completers q) (oh_id h)
                    in delete_completer ptr (q\<lparr>completers := cm\<rparr>)
               else Inr q)
         (on_ring (prepareAsyncCancel (uring P) (oh_id h)) (\<lambda>sqe. finalizeSqe_id sqe OpIdIgnore)))"

definition setCompleter :: "operation_handle \<Rightarrow> u64 \<Rightarrow> 'k io_queue \<Rightarrow> 'k io_queue outcome" where
  "setCompleter h ptr q =
     bindE (cm_insert (completers q) (oh_id h) ptr) (\<lambda>cm. Inr (q\<lparr>completers := cm\<rparr>))"

text \<open>\<^verbatim>\<open>co_await\<close> on a handle: build the awaiter in the frame of coroutine \<open>c\<close> and suspend.\<close>

definition await_suspend :: "'k platform \<Rightarrow> operation_handle \<Rightarrow> (io_result \<Rightarrow> prog) \<Rightarrow> nat \<Rightarrow> 'k io_queue
    \<Rightarrow> 'k io_queue outcome" where
  "await_suspend P h k c q =
     assertE (oh_valid h)
       (let a = \<lparr>aw_operation = h, aw_caller = k, aw_result = IoResult_default\<rparr>;
            ptr = malloc P (completer_mem q)
        in setCompleter h ptr
             (q\<lparr>awaiters := (awaiters q)(c \<mapsto> a), completer_mem := (completer_mem q)(ptr \<mapsto> c)\<rparr>))"

text \<open>The destructor of an awaiter cancels an operation that has not completed.\<close>

definition destroy_awaiter :: "'k platform \<Rightarrow> nat \<Rightarrow> 'k io_queue \<Rightarrow> 'k io_queue outcome" where
  "destroy_awaiter P c q =
     (case awaiters q c of
        None \<Rightarrow> Inr q
      | Some a \<Rightarrow>
          bindE (if oh_valid (aw_operation a)
                 then bindE (ioq_cancel P (aw_operation a) True q) (\<lambda>(_, q'). Inr q')
                 else Inr q)
            (\<lambda>q'. Inr (q'\<lparr>awaiters := (awaiters q')(c := None)\<rparr>)))"

primrec exec :: "'k platform \<Rightarrow> prog \<Rightarrow> nat \<Rightarrow> 'k io_queue \<Rightarrow> 'k io_queue outcome" where
  "exec P Return = (\<lambda>c q. Inr q)"
| "exec P (Submit oper k) = (\<lambda>c q. bindE (submit P oper q) (\<lambda>(h, q'). exec P (k h) c q'))"
| "exec P (LinkedTimeout ts fl h k) = (\<lambda>c q. bindE (linkTimeout P ts fl h q) (\<lambda>(h', q'). exec P (k h') c q'))"
| "exec P (Await h k) = (\<lambda>c q. await_suspend P h k c q)"
| "exec P (CancelOp h b k) = (\<lambda>c q. bindE (ioq_cancel P h b q) (\<lambda>(h', q'). exec P (k h') c q'))"
| "exec P (Start p k) = (\<lambda>c q.
     bindE (exec P p (next_coro q) (q\<lparr>next_coro := Suc (next_coro q)\<rparr>)) (\<lambda>q'. exec P (k (next_coro q)) c q'))"
| "exec P (Destroy d p) = (\<lambda>c q. bindE (destroy_awaiter P d q) (\<lambda>q'. exec P p c q'))"
| "exec P Undefined = (\<lambda>c q. Inl UndefinedBehaviour)"

text \<open>
  \<^verbatim>\<open>CoroutineCompleter::complete\<close>: store the result, drop the operation, resume the coroutine, which
  takes the result out of the awaiter and destroys it.
\<close>

definition complete :: "'k platform \<Rightarrow> u64 \<Rightarrow> io_result \<Rightarrow> 'k io_queue \<Rightarrow> 'k io_queue outcome" where
  "complete P ptr res q =
     (case completer_mem q ptr of
        None \<Rightarrow> Inl UndefinedBehaviour
      | Some c \<Rightarrow>
          (case awaiters q c of
             None \<Rightarrow> Inl UndefinedBehaviour
           | Some a \<Rightarrow>
               let a' = a\<lparr>aw_result := res, aw_operation := null_handle\<rparr>
               in bindE (destroy_awaiter P c (q\<lparr>awaiters := (awaiters q)(c \<mapsto> a'), resumed := resumed q @ [(c, res)]\<rparr>))
                    (exec P (aw_caller a' (aw_result a')) c)))"

subsection \<open>The loop\<close>

definition dispatch :: "'k platform \<Rightarrow> cqe \<Rightarrow> 'k io_queue \<Rightarrow> 'k io_queue outcome" where
  "dispatch P c q =
     (if cqe_user_data c \<noteq> OpIdIgnore
      then let (ptr, cm) = cm_remove (completers q) (cqe_user_data c);
               q' = q\<lparr>completers := cm\<rparr>
           in if ptr \<noteq> 0 then bindE (complete P ptr (cqe_res c) q') (delete_completer ptr) else Inr q'
      else Inr q)"

definition run_iteration :: "'k platform \<Rightarrow> 'k io_queue \<Rightarrow> 'k io_queue outcome" where
  "run_iteration P q =
     bindE (submitSqes (uring P) 1 (q_ring q)) (\<lambda>(res, r).
       let q1 = q\<lparr>lastSqe := None, q_ring := r\<rparr>
       in if res < 0 then Inr q1
          else bindE (peekCqe (uring P) (q_ring q1)) (\<lambda>(cqe, r').
            let q2 = q1\<lparr>q_ring := r'\<rparr>
            in case cqe of
                 None \<Rightarrow> Inr q2
               | Some c \<Rightarrow>
                   bindE (dispatch P c q2) (\<lambda>q3.
                     bindE (advanceCq (uring P) 1 (q_ring q3)) (\<lambda>r''. Inr (q3\<lparr>q_ring := r''\<rparr>)))))"

text \<open>\<^verbatim>\<open>run\<close> with a bound on the number of iterations; \<open>None\<close> when the bound is reached.\<close>

fun run :: "'k platform \<Rightarrow> nat \<Rightarrow> 'k io_queue \<Rightarrow> 'k io_queue outcome option" where
  "run P 0 q = None"
| "run P (Suc n) q =
     (if 0 < cm_size (completers q)
      then (case run_iteration P q of Inl e \<Rightarrow> Some (Inl e) | Inr q' \<Rightarrow> run P n q')
      else Some (Inr q))"

subsection \<open>Operation ids\<close>

text \<open>The ids handed out by \<open>k\<close> successive calls.\<close>

fun op_ids :: "nat \<Rightarrow> u64 \<Rightarrow> u64 list" where
  "op_ids 0 n = []"
| "op_ids (Suc k) n = (let (i, n') = getNextOpId n in i # op_ids k n')"

lemma unat_OpIdInvalid: "unat OpIdInvalid = 2 ^ 64 - 2"
  by (simp add: OpIdInvalid_def)

lemma unat_OpIdIgnore: "unat OpIdIgnore = 2 ^ 64 - 1"
  by (simp add: OpIdIgnore_def unsigned_minus_1_eq_mask mask_eq_exp_minus_1)

lemma magic_iff: "n = OpIdInvalid \<or> n = OpIdIgnore \<longleftrightarrow> 2 ^ 64 - 2 \<le> unat n"
proof -
  have "unat n < 2 ^ LENGTH(64)" by (rule unsigned_less)
  then have "2 ^ 64 - 2 \<le> unat n \<longleftrightarrow> unat n = 2 ^ 64 - 2 \<or> unat n = 2 ^ 64 - 1" by auto
  also have "\<dots> \<longleftrightarrow> unat n = unat OpIdInvalid \<or> unat n = unat OpIdIgnore"
    unfolding unat_OpIdInvalid unat_OpIdIgnore ..
  finally show ?thesis by (simp only: word_unat_eq_iff)
qed

lemma getNextOpId_bounds: "unat (fst (getNextOpId n)) < 2 ^ 64 - 2"
  using magic_iff [of n] by (auto simp: getNextOpId_def Let_def)

lemma getNextOpId_not_magic: "fst (getNextOpId n) \<noteq> OpIdInvalid" "fst (getNextOpId n) \<noteq> OpIdIgnore"
  using magic_iff [of "fst (getNextOpId n)"] getNextOpId_bounds [of n] by (metis not_less)+

lemma getNextOpId_next:
  "unat (fst (getNextOpId (snd (getNextOpId n)))) = (unat (fst (getNextOpId n)) + 1) mod (2 ^ 64 - 2)"
proof -
  define M :: nat where "M = 2 ^ 64 - 2"
  define i where "i = fst (getNextOpId n)"
  have i: "unat i < M" using getNextOpId_bounds [of n] by (simp only: i_def M_def)
  have nx: "snd (getNextOpId n) = i + 1" by (simp add: getNextOpId_def i_def Let_def)
  have "unat (i + 1) = unat i + 1"
    using i by (subst unat_add_lem [THEN iffD1]) (simp_all add: M_def)
  moreover have "i + 1 = OpIdInvalid \<or> i + 1 = OpIdIgnore \<longleftrightarrow> M \<le> unat (i + 1)"
    unfolding M_def by (rule magic_iff)
  ultimately have "unat (fst (getNextOpId (i + 1))) = (if M \<le> unat i + 1 then 0 else unat i + 1)"
    by (simp add: getNextOpId_def Let_def)
  also have "\<dots> = (unat i + 1) mod M" using i by (simp add: mod_if)
  finally show ?thesis unfolding nx i_def [symmetric] M_def .
qed

lemma op_ids_cyclic:
  "map unat (op_ids k n) = map (\<lambda>j. (unat (fst (getNextOpId n)) + j) mod (2 ^ 64 - 2)) [0..<k]"
proof (induction k arbitrary: n)
  case (Suc k)
  define M :: nat where "M = 2 ^ 64 - 2"
  let ?i = "\<lambda>n. unat (fst (getNextOpId n))"
  have "map unat (op_ids (Suc k) n) = ?i n # map unat (op_ids k (snd (getNextOpId n)))"
    by (simp add: case_prod_unfold Let_def)
  also have "\<dots> = ?i n # map (\<lambda>j. (?i (snd (getNextOpId n)) + j) mod M) [0..<k]"
    unfolding M_def by (simp only: Suc)
  also have "\<dots> = ?i n # map (\<lambda>j. (?i n + Suc j) mod M) [0..<k]"
    unfolding getNextOpId_next M_def [symmetric] by (simp add: mod_simps)
  also have "\<dots> = map (\<lambda>j. (?i n + j) mod M) [0..<Suc k]"
    using getNextOpId_bounds [of n] unfolding M_def [symmetric]
    by (simp only: upt_conv_Cons [of 0 "Suc k"] map_Suc_upt [symmetric] list.map) simp
  finally show ?case by (simp only: M_def)
qed simp

lemma inj_on_add_mod: "inj_on (\<lambda>j. (a + j) mod M) {0..<M}" for a M :: nat
proof (rule linorder_inj_onI)
  fix x y assume xy: "x < y" "x \<in> {0..<M}" "y \<in> {0..<M}"
  show "(a + x) mod M \<noteq> (a + y) mod M"
  proof
    assume "(a + x) mod M = (a + y) mod M"
    then have "M dvd (a + y) - (a + x)" using xy by (metis mod_eq_dvd_iff_nat add_left_mono less_imp_le)
    then have "M \<le> y - x" using xy by (auto dest: dvd_imp_le)
    with xy show False by auto
  qed
qed auto

text \<open>
  C26: Operation ids are never one of the two reserved values, and an id is handed out again only
  after 2^64 - 2 other calls, whatever the counter was before.
\<close>

theorem op_ids_distinct:
  assumes "k \<le> 2 ^ 64 - 2"
  shows "distinct (op_ids k n) \<and> OpIdInvalid \<notin> set (op_ids k n) \<and> OpIdIgnore \<notin> set (op_ids k n)"
proof -
  define M :: nat where "M = 2 ^ 64 - 2"
  have "{0..<k} \<subseteq> {0..<M}" using assms unfolding M_def by auto
  then have "distinct (map unat (op_ids k n))"
    unfolding op_ids_cyclic M_def [symmetric]
    by (simp add: distinct_map inj_on_subset [OF inj_on_add_mod])
  then have "distinct (op_ids k n)" by (simp add: distinct_map)
  moreover have "i \<noteq> OpIdInvalid \<and> i \<noteq> OpIdIgnore" if "i \<in> set (op_ids k n)" for i
    using that by (induction k arbitrary: n) (auto simp: case_prod_unfold Let_def getNextOpId_not_magic)
  ultimately show ?thesis by blast
qed

theorem op_ids_distinct_witness:
  "op_ids 3 (- 3) = [- 3, 0, 1] \<and> distinct (op_ids 3 (- 3))"
proof -
  have "op_ids 3 (- 3) = [- 3, 0, 1]" by code_simp
  moreover have "distinct (op_ids 3 (- 3))" using op_ids_distinct [of 3 "- 3"] by simp
  ultimately show ?thesis by blast
qed

subsection \<open>Submission touches the ring only\<close>

primrec op_request :: "io_op \<Rightarrow> request" where
  "op_request (OpAccept fd a al) = Accept fd a al 0"
| "op_request (OpConnect fd a al) = Connect fd a al"
| "op_request (OpSend fd b n) = Send fd b n 0"
| "op_request (OpRecv fd b n) = Recv fd b n 0"
| "op_request (OpRead fd b n) = Read fd b n 0"
| "op_request (OpClose fd) = Close fd"
| "op_request (OpShutdown fd how) = Shutdown fd how"
| "op_request (OpPoll fd ev) = PollAdd fd ev 0"
| "op_request (OpRecvmsg fd m fl) = Recvmsg fd m fl"
| "op_request (OpSendmsg fd m fl) = Sendmsg fd m fl"
| "op_request (OpTimeout ts fl) = Timeout ts 0 fl"

lemmas ioq_defs = ioq_accept_def ioq_connect_def ioq_send_def ioq_recv_def ioq_read_def ioq_close_def
  ioq_shutdown_def ioq_poll_def ioq_recvmsg_def ioq_sendmsg_def ioq_timeout_def

lemma submit_on_ring: "submit P oper = on_ring (prepare_request (uring P) (op_request oper)) finalizeSqe"
  by (cases oper) (simp_all add: ioq_defs)

text \<open>The part of the state that completions and coroutines live in.\<close>

definition core :: "'k io_queue \<Rightarrow> completer_map \<times> (u64 \<rightharpoonup> nat) \<times> (nat \<rightharpoonup> awaiter) \<times> nat \<times> (nat \<times> io_result) list \<times> int" where
  "core q = (completers q, completer_mem q, awaiters q, next_coro q, resumed q, ring_fd (q_ring q))"

lemma core_eqD:
  assumes "core q' = core q"
  shows "completers q' = completers q" "completer_mem q' = completer_mem q" "awaiters q' = awaiters q"
    "next_coro q' = next_coro q" "resumed q' = resumed q" "ring_fd (q_ring q') = ring_fd (q_ring q)"
  using assms by (simp_all add: core_def)

lemma finalizeSqe_id_core: "core (snd (finalizeSqe_id sqe u q)) = core q"
  by (simp add: finalizeSqe_id_def core_def write_sqe_def split: option.splits)

lemma finalizeSqe_core: "core (snd (finalizeSqe sqe q)) = core q"
proof -
  have "core (q\<lparr>nextOpId := n\<rparr>) = core q" for n by (simp add: core_def)
  then show ?thesis by (simp add: finalizeSqe_def case_prod_unfold Let_def finalizeSqe_id_core)
qed

lemma on_ring_core:
  assumes "ring_fd (q_ring q) \<noteq> - 1" and "\<And>sqe q. core (snd (f sqe q)) = core q"
  shows "\<exists>x q'. on_ring (prepare_request lib rq) f q = Inr (x, q') \<and> core q' = core q"
proof -
  from prepare_request_is_fill [of lib rq] obtain e where e: "\<forall>r. prepare_request lib rq r = fill lib e r" by blast
  obtain s r where sr: "fill lib e (q_ring q) = Inr (s, r)" "ring_fd r = ring_fd (q_ring q)"
    using assms(1) by (simp add: fill_initialized split: option.splits)
  have "core (snd (f s (q\<lparr>q_ring := r\<rparr>))) = core q"
    unfolding assms(2) using sr(2) by (simp add: core_def)
  then show ?thesis using sr(1) e by (cases "f s (q\<lparr>q_ring := r\<rparr>)") (simp add: on_ring_def)
qed

lemma submit_core:
  "ring_fd (q_ring q) \<noteq> - 1 \<Longrightarrow> \<exists>h q'. submit P oper q = Inr (h, q') \<and> core q' = core q"
  unfolding submit_on_ring by (rule on_ring_core) (simp_all add: finalizeSqe_core)

lemma prepare_as_request:
  "prepareAsyncCancel lib u = prepare_request lib (AsyncCancel u)"
  "prepareLinkTimeout lib ts fl = prepare_request lib (LinkTimeout ts fl)"
  by simp_all

lemma linkTimeout_core:
  assumes "ring_fd (q_ring q) \<noteq> - 1"
  shows "linkTimeout P ts fl h q = Inl AssertionFailed \<or>
    (\<exists>h' q'. linkTimeout P ts fl h q = Inr (h', q') \<and> core q' = core q)"
proof (cases "oh_valid h \<and> (\<exists>i. lastSqe q = Some i \<and> user_data (sqes (q_ring q) i) = oh_id h)")
  case True
  then obtain i where i: "oh_valid h" "lastSqe q = Some i" "user_data (sqes (q_ring q) i) = oh_id h" by blast
  define q1 where "q1 = q\<lparr>q_ring := write_sqe i (\<lambda>e. e\<lparr>sqe_flags := sqe_flags e OR IOSQE_IO_LINK (uring P)\<rparr>) (q_ring q)\<rparr>"
  have c: "core q1 = core q" "ring_fd (q_ring q1) \<noteq> - 1" using assms by (simp_all add: q1_def core_def write_sqe_def)
  from on_ring_core [OF c(2), of "\<lambda>sqe. finalizeSqe_id sqe OpIdIgnore" "uring P" "LinkTimeout ts (word_of_int fl)"]
  obtain t q2 where "on_ring (prepareLinkTimeout (uring P) ts (word_of_int fl)) (\<lambda>sqe. finalizeSqe_id sqe OpIdIgnore) q1 = Inr (t, q2)"
    "core q2 = core q1" unfolding prepare_as_request using finalizeSqe_id_core by blast
  with i c show ?thesis by (simp add: linkTimeout_def Let_def q1_def)
next
  case False
  then show ?thesis by (auto simp: linkTimeout_def assertE_def Let_def split: option.splits)
qed

subsection \<open>Ownership of completers\<close>

text \<open>
  The completer map owns the completers: every pointer in it is a live completer whose awaiter is
  suspended on exactly the operation it is registered for, and there are no other completers, apart
  from those in \<open>X\<close>, which the loop has taken out of the map and is completing.
\<close>

definition wf_except :: "u64 set \<Rightarrow> 'k io_queue \<Rightarrow> bool" where
  "wf_except X q \<longleftrightarrow>
     cm_inv (completers q) \<and> ring_fd (q_ring q) \<noteq> - 1 \<and>
     (\<forall>i p. cm_abs (completers q) i = Some p \<longrightarrow> p \<notin> X \<and> i \<noteq> OpIdInvalid \<and>
        (\<exists>c a. completer_mem q p = Some c \<and> awaiters q c = Some a \<and> aw_operation a = \<lparr>oh_io = True, oh_id = i\<rparr>)) \<and>
     dom (completer_mem q) = ran (cm_abs (completers q)) \<union> X \<and>
     (\<forall>c. next_coro q \<le> c \<longrightarrow> awaiters q c = None)"

abbreviation ioq_wf :: "'k io_queue \<Rightarrow> bool" where
  "ioq_wf \<equiv> wf_except {}"

text \<open>
  What is expected of the allocator: fresh, non-null addresses that are not the map's tombstone, as
  long as there are less than 2^20 completers.
\<close>

definition malloc_ok :: "'k platform \<Rightarrow> bool" where
  "malloc_ok P \<longleftrightarrow> (\<forall>m. card (dom m) < 2 ^ 20 \<longrightarrow>
     malloc P m \<notin> dom m \<and> malloc P m \<noteq> Empty \<and> malloc P m \<noteq> Tombstone)"

lemma wf_core:
  assumes "core q' = core q"
  shows "wf_except X q' \<longleftrightarrow> wf_except X q"
  using core_eqD [OF assms] by (simp add: wf_except_def)

lemma wf_exceptD:
  assumes "wf_except X q"
  shows "cm_inv (completers q)" "ring_fd (q_ring q) \<noteq> - 1"
    "dom (completer_mem q) = ran (cm_abs (completers q)) \<union> X"
    "\<And>c. next_coro q \<le> c \<Longrightarrow> awaiters q c = None"
  using assms by (auto simp: wf_except_def)

lemma wf_except_entry:
  assumes "wf_except X q" and "cm_abs (completers q) i = Some p"
  obtains c a where "p \<notin> X" "i \<noteq> OpIdInvalid" "completer_mem q p = Some c" "awaiters q c = Some a"
    "aw_operation a = \<lparr>oh_io = True, oh_id = i\<rparr>"
  using assms unfolding wf_except_def by blast

lemma wf_exceptI:
  assumes "cm_inv (completers q)" "ring_fd (q_ring q) \<noteq> - 1"
    and "dom (completer_mem q) = ran (cm_abs (completers q)) \<union> X"
    and "\<And>c. next_coro q \<le> c \<Longrightarrow> awaiters q c = None"
    and "\<And>i p. cm_abs (completers q) i = Some p \<Longrightarrow> p \<notin> X \<and> i \<noteq> OpIdInvalid \<and>
      (\<exists>c a. completer_mem q p = Some c \<and> awaiters q c = Some a \<and> aw_operation a = \<lparr>oh_io = True, oh_id = i\<rparr>)"
  shows "wf_except X q"
  using assms by (simp add: wf_except_def)

lemma wf_entry_unique:
  assumes wf: "wf_except X q" and "cm_abs (completers q) i = Some p" "cm_abs (completers q) j = Some p"
  shows "j = i"
  by (rule wf_except_entry [OF assms(1,2)], rule wf_except_entry [OF assms(1,3)]) simp

lemma cm_abs_pointer: "cm_abs m k = Some p \<Longrightarrow> p \<noteq> 0"
  by (auto simp: cm_abs_def find_Some_iff is_live_def Empty_def)

lemma cm_abs_ran: "ran (cm_abs m) \<subseteq> entry_value ` set (cm_entries m)"
  by (auto simp: cm_abs_def ran_def find_Some_iff)

lemma wf_few_completers:
  assumes wf: "wf_except X q" and X: "finite X" "card X \<le> 1"
  shows "card (dom (completer_mem q)) < 2 ^ 20"
proof -
  let ?R = "ran (cm_abs (completers q))"
  have "card ?R \<le> card (entry_value ` set (cm_entries (completers q)))"
    by (rule card_mono [OF _ cm_abs_ran]) simp
  also have "\<dots> \<le> length (cm_entries (completers q))"
    by (rule order_trans [OF card_image_le card_length]) simp
  also have "\<dots> \<le> 196613"
    using wf_exceptD(1) [OF wf] primes_bounds by (auto simp: cm_inv_def)
  finally have "card ?R + card X < 2 ^ 20" using X by simp
  moreover have "card (?R \<union> X) \<le> card ?R + card X" by (rule card_Un_le)
  ultimately show ?thesis using wf_exceptD(3) [OF wf] by simp
qed

text \<open>Taking a completer out of the map, and deleting it.\<close>

lemma wf_remove:
  assumes wf: "wf_except X q" and rm: "cm_remove (completers q) i = (ptr, cm)"
  shows "cm_abs cm = (cm_abs (completers q))(i := None)"
    and "ptr = 0 \<Longrightarrow> cm_abs (completers q) i = None \<and> wf_except X (q\<lparr>completers := cm\<rparr>)"
    and "ptr \<noteq> 0 \<Longrightarrow> cm_abs (completers q) i = Some ptr \<and> ptr \<notin> X \<and> wf_except (insert ptr X) (q\<lparr>completers := cm\<rparr>)"
proof -
  let ?m = "completers q"
  have inv: "cm_inv ?m" by (rule wf_exceptD(1) [OF wf])
  have cm: "cm_inv cm" and abs: "cm_abs cm = (cm_abs ?m)(i := None)"
    and ptr: "ptr = (case cm_abs ?m i of None \<Rightarrow> 0 | Some v \<Rightarrow> v)"
    using cm_remove_inv [OF inv, of i] cm_remove_abs [OF inv, of i] cm_remove_result [OF inv, of i] rm by simp_all
  from abs show "cm_abs cm = (cm_abs ?m)(i := None)" .
  show "cm_abs ?m i = None \<and> wf_except X (q\<lparr>completers := cm\<rparr>)" if "ptr = 0"
  proof -
    have none: "cm_abs ?m i = None" using ptr that cm_abs_pointer by (auto split: option.splits)
    then have "cm_abs cm = cm_abs ?m" unfolding abs by auto
    with none wf cm show ?thesis by (simp add: wf_except_def)
  qed
  show "cm_abs ?m i = Some ptr \<and> ptr \<notin> X \<and> wf_except (insert ptr X) (q\<lparr>completers := cm\<rparr>)" if "ptr \<noteq> 0"
  proof -
    have some: "cm_abs ?m i = Some ptr" using ptr that by (auto split: option.splits)
    then have nX: "ptr \<notin> X" by (rule wf_except_entry [OF wf])
    have other: "cm_abs cm j = Some p \<longleftrightarrow> j \<noteq> i \<and> cm_abs ?m j = Some p" for j p unfolding abs by simp
    have ne: "p \<noteq> ptr" if "j \<noteq> i" "cm_abs ?m j = Some p" for j p
      using wf_entry_unique [OF wf some] that by blast
    have "insert ptr (ran (cm_abs cm)) = ran (cm_abs ?m)"
      unfolding ran_def other using some by (auto, metis option.inject)
    then have "dom (completer_mem q) = ran (cm_abs cm) \<union> insert ptr X"
      using wf_exceptD(3) [OF wf] by auto
    then have "wf_except (insert ptr X) (q\<lparr>completers := cm\<rparr>)"
    proof (intro wf_exceptI)
      fix j p assume "cm_abs (completers (q\<lparr>completers := cm\<rparr>)) j = Some p"
      then have jp: "j \<noteq> i" "cm_abs ?m j = Some p" by (simp_all add: other)
      obtain c a where "p \<notin> X" "j \<noteq> OpIdInvalid" "completer_mem q p = Some c" "awaiters q c = Some a"
        "aw_operation a = \<lparr>oh_io = True, oh_id = j\<rparr>" by (rule wf_except_entry [OF wf jp(2)])
      with ne [OF jp] show "p \<notin> insert ptr X \<and> j \<noteq> OpIdInvalid \<and>
        (\<exists>c a. completer_mem (q\<lparr>completers := cm\<rparr>) p = Some c \<and> awaiters (q\<lparr>completers := cm\<rparr>) c = Some a \<and>
          aw_operation a = \<lparr>oh_io = True, oh_id = j\<rparr>)" by auto
    qed (use wf_exceptD [OF wf] cm in simp_all)
    with some nX show ?thesis by blast
  qed
qed

lemma wf_delete:
  assumes wf: "wf_except (insert ptr X) q" and new: "ptr \<notin> X" "ptr \<noteq> 0"
  shows "\<exists>q'. delete_completer ptr q = Inr q' \<and> wf_except X q' \<and>
    q' = q\<lparr>completer_mem := (completer_mem q)(ptr := None)\<rparr>"
proof -
  let ?q = "q\<lparr>completer_mem := (completer_mem q)(ptr := None)\<rparr>"
  have d: "dom (completer_mem q) = ran (cm_abs (completers q)) \<union> insert ptr X" by (rule wf_exceptD(3) [OF wf])
  have entry: "p \<noteq> ptr" if "cm_abs (completers q) i = Some p" for i p
    by (rule wf_except_entry [OF wf that]) blast
  then have "ptr \<notin> ran (cm_abs (completers q))" unfolding ran_def by blast
  with d new have "dom (completer_mem ?q) = ran (cm_abs (completers q)) \<union> X" by auto
  then have "wf_except X ?q"
  proof (intro wf_exceptI)
    fix i p assume "cm_abs (completers ?q) i = Some p"
    then have ip: "cm_abs (completers q) i = Some p" by simp
    obtain c a where "p \<notin> insert ptr X" "i \<noteq> OpIdInvalid" "completer_mem q p = Some c" "awaiters q c = Some a"
      "aw_operation a = \<lparr>oh_io = True, oh_id = i\<rparr>" by (rule wf_except_entry [OF wf ip])
    then show "p \<notin> X \<and> i \<noteq> OpIdInvalid \<and> (\<exists>c a. completer_mem ?q p = Some c \<and> awaiters ?q c = Some a \<and>
        aw_operation a = \<lparr>oh_io = True, oh_id = i\<rparr>)" by auto
  qed (use wf_exceptD [OF wf] in simp_all)
  moreover have "completer_mem q ptr \<noteq> None" using d by blast
  ultimately show ?thesis using new by (simp add: delete_completer_def)
qed

text \<open>What the operations of a running coroutine leave alone.\<close>

definition frames_kept :: "'k io_queue \<Rightarrow> 'k io_queue \<Rightarrow> bool" where
  "frames_kept q q' \<longleftrightarrow> awaiters q' = awaiters q \<and> next_coro q' = next_coro q \<and> resumed q' = resumed q"

lemma frames_kept_core: "core q' = core q \<Longrightarrow> frames_kept q q'"
  by (simp add: frames_kept_def core_def)

lemma frames_kept_trans: "frames_kept q q' \<Longrightarrow> frames_kept q' q'' \<Longrightarrow> frames_kept q q''"
  by (simp add: frames_kept_def)

lemma drop_completer_wf:
  assumes wf: "wf_except X q"
  shows "\<exists>q'. (let (ptr, cm) = cm_remove (completers q) i in delete_completer ptr (q\<lparr>completers := cm\<rparr>)) = Inr q' \<and>
    wf_except X q' \<and> frames_kept q q' \<and> cm_abs (completers q') = (cm_abs (completers q))(i := None)"
proof -
  obtain ptr cm where rm: "cm_remove (completers q) i = (ptr, cm)" by fastforce
  note r = wf_remove [OF wf rm]
  show ?thesis
  proof (cases "ptr = 0")
    case True
    with r show ?thesis by (simp add: rm delete_completer_def frames_kept_def)
  next
    case False
    with r(3) have "ptr \<notin> X" "wf_except (insert ptr X) (q\<lparr>completers := cm\<rparr>)" by auto
    from wf_delete [OF this(2,1) False] r(1) show ?thesis by (auto simp: rm frames_kept_def)
  qed
qed

lemma cancel_wf:
  assumes wf: "wf_except X q" and valid: "oh_valid h"
  shows "\<exists>h' q'. ioq_cancel P h b q = Inr (h', q') \<and> wf_except X q' \<and> frames_kept q q' \<and>
    cm_abs (completers q') = (if b then (cm_abs (completers q))(oh_id h := None) else cm_abs (completers q))"
proof -
  obtain q1 where q1: "(if b then let (ptr, cm) = cm_remove (completers q) (oh_id h)
      in delete_completer ptr (q\<lparr>completers := cm\<rparr>) else Inr q) = Inr q1"
    and w1: "wf_except X q1" "frames_kept q q1"
      "cm_abs (completers q1) = (if b then (cm_abs (completers q))(oh_id h := None) else cm_abs (completers q))"
    using drop_completer_wf [OF wf, of "oh_id h"] wf by (cases b) (auto simp: frames_kept_def)
  from on_ring_core [OF wf_exceptD(2) [OF w1(1)], of "\<lambda>sqe. finalizeSqe_id sqe OpIdIgnore" "uring P" "AsyncCancel (oh_id h)"]
  obtain h' q2 where q2: "on_ring (prepareAsyncCancel (uring P) (oh_id h)) (\<lambda>sqe. finalizeSqe_id sqe OpIdIgnore) q1 = Inr (h', q2)"
    "core q2 = core q1" unfolding prepare_as_request using finalizeSqe_id_core by blast
  then have "wf_except X q2" "frames_kept q q2" "completers q2 = completers q1"
    using w1 wf_core [OF q2(2)] frames_kept_trans [OF w1(2) frames_kept_core] core_eqD(1) by auto
  with q1 q2(1) valid w1(3) show ?thesis by (simp add: ioq_cancel_def)
qed

lemma wf_drop_awaiter:
  assumes wf: "wf_except X q"
    and free: "\<And>a. awaiters q c = Some a \<Longrightarrow> oh_valid (aw_operation a) \<Longrightarrow>
      cm_abs (completers q) (oh_id (aw_operation a)) = None"
  shows "wf_except X (q\<lparr>awaiters := (awaiters q)(c := None)\<rparr>)"
proof (rule wf_exceptI)
  let ?q = "q\<lparr>awaiters := (awaiters q)(c := None)\<rparr>"
  fix i p assume "cm_abs (completers ?q) i = Some p"
  then have ip: "cm_abs (completers q) i = Some p" by simp
  obtain d a where da: "p \<notin> X" "i \<noteq> OpIdInvalid" "completer_mem q p = Some d" "awaiters q d = Some a"
    "aw_operation a = \<lparr>oh_io = True, oh_id = i\<rparr>" by (rule wf_except_entry [OF wf ip])
  have "d \<noteq> c" using free [of a] da ip by (auto simp: oh_valid_def)
  with da show "p \<notin> X \<and> i \<noteq> OpIdInvalid \<and> (\<exists>c a. completer_mem ?q p = Some c \<and> awaiters ?q c = Some a \<and>
      aw_operation a = \<lparr>oh_io = True, oh_id = i\<rparr>)" by auto
qed (use wf_exceptD [OF wf] in auto)

lemma destroy_awaiter_wf:
  assumes wf: "wf_except X q"
  shows "\<exists>q'. destroy_awaiter P c q = Inr q' \<and> wf_except X q' \<and> awaiters q' = (awaiters q)(c := None) \<and>
    next_coro q' = next_coro q \<and> resumed q' = resumed q"
proof (cases "awaiters q c")
  case None
  with wf show ?thesis by (simp add: destroy_awaiter_def fun_upd_idem)
next
  case (Some a)
  show ?thesis
  proof (cases "oh_valid (aw_operation a)")
    case True
    from cancel_wf [OF wf True, of P True] obtain h' q1 where
      q1: "ioq_cancel P (aw_operation a) True q = Inr (h', q1)" "wf_except X q1" "frames_kept q q1"
        "cm_abs (completers q1) (oh_id (aw_operation a)) = None" by auto
    have "wf_except X (q1\<lparr>awaiters := (awaiters q1)(c := None)\<rparr>)"
      by (rule wf_drop_awaiter [OF q1(2)]) (use q1(3,4) Some in \<open>simp add: frames_kept_def\<close>)
    with q1 Some True show ?thesis by (simp add: destroy_awaiter_def frames_kept_def)
  next
    case False
    then have "wf_except X (q\<lparr>awaiters := (awaiters q)(c := None)\<rparr>)"
      by (intro wf_drop_awaiter wf) (use Some in simp)
    with Some False show ?thesis by (simp add: destroy_awaiter_def)
  qed
qed

lemma insert_loop_not_UB: "insert_loop m k v h js \<noteq> Inl UndefinedBehaviour"
  by (induction js) (auto simp: Let_def)

lemma cm_insert_not_UB: "cm_insert m k v \<noteq> Inl UndefinedBehaviour"
  by (simp add: cm_insert_def assertE_def insert_loop_not_UB)

lemma await_suspend_wf:
  assumes wf: "wf_except X q" and X: "finite X" "card X \<le> 1" and P: "malloc_ok P"
    and c: "c < next_coro q" "awaiters q c = None" and once: "cm_abs (completers q) (oh_id h) = None"
  shows "await_suspend P h k c q \<noteq> Inl UndefinedBehaviour \<and>
    (\<forall>q'. await_suspend P h k c q = Inr q' \<longrightarrow> wf_except X q' \<and> next_coro q' = next_coro q \<and>
      (\<forall>d. d \<noteq> c \<longrightarrow> awaiters q' d = awaiters q d) \<and> resumed q' = resumed q)"
proof -
  define ptr where "ptr = malloc P (completer_mem q)"
  let ?a = "\<lparr>aw_operation = h, aw_caller = k, aw_result = IoResult_default\<rparr>"
  let ?q = "\<lambda>cm. q\<lparr>awaiters := (awaiters q)(c \<mapsto> ?a), completer_mem := (completer_mem q)(ptr \<mapsto> c), completers := cm\<rparr>"
  have fresh: "ptr \<notin> dom (completer_mem q)" and nn: "ptr \<noteq> Empty" "ptr \<noteq> Tombstone"
    using P wf_few_completers [OF wf X] by (auto simp: malloc_ok_def ptr_def)
  have as: "await_suspend P h k c q = assertE (oh_valid h) (bindE (cm_insert (completers q) (oh_id h) ptr) (\<lambda>cm. Inr (?q cm)))"
    by (simp add: await_suspend_def setCompleter_def Let_def ptr_def)
  have "wf_except X (?q cm)" if v: "oh_valid h" and ins: "cm_insert (completers q) (oh_id h) ptr = Inr cm" for cm
  proof (rule wf_exceptI)
    note ic = cm_insert_Inr [OF wf_exceptD(1) [OF wf] ins once nn]
    then have abs: "cm_abs cm = (cm_abs (completers q))(oh_id h \<mapsto> ptr)" by blast
    show "cm_inv (completers (?q cm))" using ic by simp
    show "ring_fd (q_ring (?q cm)) \<noteq> - 1" using wf_exceptD(2) [OF wf] by simp
    show "dom (completer_mem (?q cm)) = ran (cm_abs (completers (?q cm))) \<union> X"
      using wf_exceptD(3) [OF wf] once by (simp add: abs)
    show "awaiters (?q cm) d = None" if "next_coro (?q cm) \<le> d" for d
      using that c(1) wf_exceptD(4) [OF wf, of d] by simp
    fix i p assume "cm_abs (completers (?q cm)) i = Some p"
    then have ip: "((cm_abs (completers q))(oh_id h \<mapsto> ptr)) i = Some p" by (simp add: abs)
    show "p \<notin> X \<and> i \<noteq> OpIdInvalid \<and> (\<exists>c a. completer_mem (?q cm) p = Some c \<and> awaiters (?q cm) c = Some a \<and>
        aw_operation a = \<lparr>oh_io = True, oh_id = i\<rparr>)"
    proof (cases "i = oh_id h")
      case True
      with ip have "p = ptr" by simp
      moreover have "ptr \<notin> X" using fresh wf_exceptD(3) [OF wf] by blast
      ultimately show ?thesis using True v by (simp add: oh_valid_def)
    next
      case False
      with ip have ip': "cm_abs (completers q) i = Some p" by simp
      obtain d a where da: "p \<notin> X" "i \<noteq> OpIdInvalid" "completer_mem q p = Some d" "awaiters q d = Some a"
        "aw_operation a = \<lparr>oh_io = True, oh_id = i\<rparr>" by (rule wf_except_entry [OF wf ip'])
      moreover have "p \<noteq> ptr" "d \<noteq> c" using da(3,4) fresh c(2) by auto
      ultimately show ?thesis by simp
    qed
  qed
  then show ?thesis
    unfolding as using cm_insert_not_UB [of "completers q" "oh_id h" ptr]
    by (auto simp: assertE_def bindE_eq_Inl bindE_eq_Inr)
qed

subsection \<open>Executing coroutines is safe\<close>

text \<open>
  The one rule a client has to follow: a handle is not awaited while another await of the same
  operation is registered. \<open>single_await\<close> says that the calls a coroutine makes until it suspends
  follow it, and that its own code is defined.
\<close>

primrec single_await :: "'k platform \<Rightarrow> prog \<Rightarrow> nat \<Rightarrow> 'k io_queue \<Rightarrow> bool" where
  "single_await P Return = (\<lambda>c q. True)"
| "single_await P (Submit oper k) = (\<lambda>c q.
     case submit P oper q of Inl _ \<Rightarrow> True | Inr (h, q') \<Rightarrow> single_await P (k h) c q')"
| "single_await P (LinkedTimeout ts fl h k) = (\<lambda>c q.
     case linkTimeout P ts fl h q of Inl _ \<Rightarrow> True | Inr (h', q') \<Rightarrow> single_await P (k h') c q')"
| "single_await P (Await h k) = (\<lambda>c q. cm_abs (completers q) (oh_id h) = None)"
| "single_await P (CancelOp h b k) = (\<lambda>c q.
     case ioq_cancel P h b q of Inl _ \<Rightarrow> True | Inr (h', q') \<Rightarrow> single_await P (k h') c q')"
| "single_await P (Start p k) = (\<lambda>c q.
     single_await P p (next_coro q) (q\<lparr>next_coro := Suc (next_coro q)\<rparr>) \<and>
     (case exec P p (next_coro q) (q\<lparr>next_coro := Suc (next_coro q)\<rparr>) of
        Inl _ \<Rightarrow> True | Inr q' \<Rightarrow> single_await P (k (next_coro q)) c q'))"
| "single_await P (Destroy d p) = (\<lambda>c q.
     case destroy_awaiter P d q of Inl _ \<Rightarrow> True | Inr q' \<Rightarrow> single_await P p c q')"
| "single_await P Undefined = (\<lambda>c q. False)"

text \<open>
  An outcome of running coroutine \<open>c\<close> from \<open>q\<close>: no undefined behaviour, ownership intact, frames of
  other coroutines are only ever removed, and nobody is resumed.
\<close>

definition exec_safe :: "u64 set \<Rightarrow> nat \<Rightarrow> 'k io_queue \<Rightarrow> 'k io_queue outcome \<Rightarrow> bool" where
  "exec_safe X c q m \<longleftrightarrow> m \<noteq> Inl UndefinedBehaviour \<and>
     (\<forall>q'. m = Inr q' \<longrightarrow> wf_except X q' \<and> next_coro q \<le> next_coro q' \<and> resumed q' = resumed q \<and>
        (\<forall>d<next_coro q. d \<noteq> c \<longrightarrow> awaiters q d = None \<longrightarrow> awaiters q' d = None))"

lemma exec_safe_after:
  assumes "next_coro q \<le> next_coro q1" "resumed q1 = resumed q"
    "\<forall>d<next_coro q. d \<noteq> c \<longrightarrow> awaiters q d = None \<longrightarrow> awaiters q1 d = None"
    and "exec_safe X c q1 m"
  shows "exec_safe X c q m"
  using assms unfolding exec_safe_def by (metis order.strict_trans2 order_trans)

lemma exec_safe_kept: "frames_kept q q1 \<Longrightarrow> exec_safe X c q1 m \<Longrightarrow> exec_safe X c q m"
  by (simp add: exec_safe_def frames_kept_def)

lemma exec_wf:
  assumes P: "malloc_ok P" and X: "finite X" "card X \<le> 1"
  shows "wf_except X q \<Longrightarrow> c < next_coro q \<Longrightarrow> awaiters q c = None \<Longrightarrow> single_await P p c q \<Longrightarrow>
    exec_safe X c q (exec P p c q)"
proof (induction p arbitrary: c q)
  case Return
  then show ?case by (simp add: exec_safe_def)
next
  case (Submit oper k)
  obtain h q1 where q1: "submit P oper q = Inr (h, q1)" "core q1 = core q"
    using submit_core [OF wf_exceptD(2) [OF Submit.prems(1)]] by blast
  have "exec_safe X c q1 (exec P (k h) c q1)"
    using Submit.prems q1 core_eqD [OF q1(2)] wf_core [OF q1(2)] by (intro Submit.IH) simp_all
  then show ?case using exec_safe_kept [OF frames_kept_core [OF q1(2)]] q1(1) by simp
next
  case (LinkedTimeout ts fl h k)
  show ?case
  proof (cases "linkTimeout P ts fl h q = Inl AssertionFailed")
    case False
    then obtain h' q1 where q1: "linkTimeout P ts fl h q = Inr (h', q1)" "core q1 = core q"
      using linkTimeout_core [OF wf_exceptD(2) [OF LinkedTimeout.prems(1)]] by blast
    have "exec_safe X c q1 (exec P (k h') c q1)"
      using LinkedTimeout.prems q1 core_eqD [OF q1(2)] wf_core [OF q1(2)] by (intro LinkedTimeout.IH) simp_all
    then show ?thesis using exec_safe_kept [OF frames_kept_core [OF q1(2)]] q1(1) by simp
  qed (simp add: exec_safe_def)
next
  case (Await h k)
  then show ?case
    using await_suspend_wf [OF Await.prems(1) X P Await.prems(2,3), of h k]
    by (simp add: exec_safe_def)
next
  case (CancelOp h b k)
  show ?case
  proof (cases "oh_valid h")
    case True
    from cancel_wf [OF CancelOp.prems(1) True, of P b] obtain h' q1
      where q1: "ioq_cancel P h b q = Inr (h', q1)" "wf_except X q1" "frames_kept q q1" by blast
    have "exec_safe X c q1 (exec P (k h') c q1)"
      using CancelOp.prems q1 by (intro CancelOp.IH) (simp_all add: frames_kept_def)
    then show ?thesis using exec_safe_kept [OF q1(3)] q1(1) by simp
  qed (simp add: exec_safe_def ioq_cancel_def)
next
  case (Start p k)
  let ?n = "next_coro q" and ?q0 = "q\<lparr>next_coro := Suc (next_coro q)\<rparr>"
  have w0: "wf_except X ?q0" using Start.prems(1) by (simp add: wf_except_def)
  have an: "awaiters q ?n = None" using wf_exceptD(4) [OF Start.prems(1)] by simp
  have s0: "exec_safe X ?n ?q0 (exec P p ?n ?q0)"
    using w0 an Start.prems(4) by (intro Start.IH(1)) simp_all
  show ?case
  proof (cases "exec P p ?n ?q0")
    case (Inl e)
    with s0 show ?thesis by (simp add: exec_safe_def)
  next
    case (Inr q1)
    with s0 have q1: "wf_except X q1" "Suc ?n \<le> next_coro q1" "resumed q1 = resumed q"
      "\<forall>d<Suc ?n. d \<noteq> ?n \<longrightarrow> awaiters q d = None \<longrightarrow> awaiters q1 d = None" by (simp_all add: exec_safe_def)
    have "exec_safe X c q1 (exec P (k ?n) c q1)"
      using q1 Start.prems Inr by (intro Start.IH(2)) simp_all
    then have "exec_safe X c q (exec P (k ?n) c q1)"
      by (rule exec_safe_after [rotated 3]) (use q1 in auto)
    with Inr show ?thesis by simp
  qed
next
  case (Destroy d p)
  from destroy_awaiter_wf [OF Destroy.prems(1), of P d] obtain q1 where
    q1: "destroy_awaiter P d q = Inr q1" "wf_except X q1" "awaiters q1 = (awaiters q)(d := None)"
      "next_coro q1 = next_coro q" "resumed q1 = resumed q" by blast
  have "exec_safe X c q1 (exec P p c q1)"
    using q1 Destroy.prems by (intro Destroy.IH) simp_all
  then have "exec_safe X c q (exec P p c q1)"
    by (rule exec_safe_after [rotated 3]) (use q1 in auto)
  with q1(1) show ?case by simp
qed simp

subsection \<open>Dispatching completions\<close>

text \<open>The state in which coroutine \<open>c\<close> is resumed with \<open>res\<close> for operation \<open>i\<close>.\<close>

definition resume_state :: "u64 \<Rightarrow> nat \<Rightarrow> io_result \<Rightarrow> 'k io_queue \<Rightarrow> 'k io_queue" where
  "resume_state i c res q =
     q\<lparr>completers := snd (cm_remove (completers q) i), resumed := resumed q @ [(c, res)],
       awaiters := (awaiters q)(c := None)\<rparr>"

text \<open>The awaiter a completion is for, if any.\<close>

definition registered :: "'k io_queue \<Rightarrow> u64 \<Rightarrow> (u64 \<times> nat \<times> awaiter) option" where
  "registered q i =
     (if i = OpIdIgnore then None
      else case cm_abs (completers q) i of
        None \<Rightarrow> None
      | Some ptr \<Rightarrow>
          (case completer_mem q ptr of
             None \<Rightarrow> None
           | Some c \<Rightarrow> (case awaiters q c of None \<Rightarrow> None | Some a \<Rightarrow> Some (ptr, c, a))))"

lemma registeredD:
  "registered q i = Some (ptr, c, a) \<Longrightarrow>
   i \<noteq> OpIdIgnore \<and> cm_abs (completers q) i = Some ptr \<and> completer_mem q ptr = Some c \<and> awaiters q c = Some a"
  by (simp add: registered_def split: if_splits option.splits)

lemma registered_None:
  assumes wf: "ioq_wf q" and "registered q i = None"
  shows "i = OpIdIgnore \<or> cm_abs (completers q) i = None"
  using assms by (auto simp: registered_def split: if_splits option.splits elim: wf_except_entry)

lemma cm_remove_absent: "cm_inv m \<Longrightarrow> cm_abs m k = None \<Longrightarrow> cm_remove m k = (0, m)"
  using cm_lookup_None [of m k] by (simp add: cm_remove_def)

lemma dispatch_unregistered:
  assumes "ioq_wf q" and "registered q (cqe_user_data cq) = None"
  shows "dispatch P cq q = Inr q"
  using registered_None [OF assms] cm_remove_absent [OF wf_exceptD(1) [OF assms(1)]]
  by (auto simp: dispatch_def)

lemma dispatch_registered:
  assumes wf: "ioq_wf q" and r: "registered q (cqe_user_data cq) = Some (ptr, c, a)"
  shows "dispatch P cq q =
      bindE (exec P (aw_caller a (cqe_res cq)) c (resume_state (cqe_user_data cq) c (cqe_res cq) q)) (delete_completer ptr)"
    and "wf_except {ptr} (resume_state (cqe_user_data cq) c (cqe_res cq) q)"
    and "ptr \<noteq> 0" and "c < next_coro q"
proof -
  let ?i = "cqe_user_data cq"
  note rd = registeredD [OF r]
  obtain p cm where rm: "cm_remove (completers q) ?i = (p, cm)" by fastforce
  note w = wf_remove [OF wf rm]
  have p: "p = ptr"
    using cm_remove_result [OF wf_exceptD(1) [OF wf], of ?i] rd rm by simp
  with cm_abs_pointer rd show nz: "ptr \<noteq> 0" by blast
  with w(3) p have w1: "wf_except {ptr} (q\<lparr>completers := cm\<rparr>)" by simp
  show "c < next_coro q" using wf_exceptD(4) [OF wf, of c] rd by fastforce
  have op: "aw_operation a = \<lparr>oh_io = True, oh_id = ?i\<rparr>" using rd by (auto elim: wf_except_entry [OF wf])
  have "wf_except {ptr} (q\<lparr>completers := cm, awaiters := (awaiters q)(c := None)\<rparr>)"
    using wf_drop_awaiter [OF w1, of c] w(1) rd op by simp
  then show "wf_except {ptr} (resume_state ?i c (cqe_res cq) q)"
    by (simp add: wf_except_def resume_state_def rm)
  show "dispatch P cq q = bindE (exec P (aw_caller a (cqe_res cq)) c (resume_state ?i c (cqe_res cq) q)) (delete_completer ptr)"
    using rd nz by (simp add: dispatch_def rm p complete_def destroy_awaiter_def resume_state_def
      null_handle_def oh_valid_def)
qed

definition dispatch_single_await :: "'k platform \<Rightarrow> cqe \<Rightarrow> 'k io_queue \<Rightarrow> bool" where
  "dispatch_single_await P cq q =
     (case registered q (cqe_user_data cq) of
        None \<Rightarrow> True
      | Some (ptr, c, a) \<Rightarrow>
          single_await P (aw_caller a (cqe_res cq)) c (resume_state (cqe_user_data cq) c (cqe_res cq) q))"

lemma dispatch_wf:
  assumes wf: "ioq_wf q" and P: "malloc_ok P" and once: "dispatch_single_await P cq q"
  shows "dispatch P cq q \<noteq> Inl UndefinedBehaviour \<and>
    (\<forall>q'. dispatch P cq q = Inr q' \<longrightarrow> ioq_wf q' \<and>
       resumed q' = resumed q @ (case registered q (cqe_user_data cq) of
         None \<Rightarrow> [] | Some (_, c, _) \<Rightarrow> [(c, cqe_res cq)]))"
proof (cases "registered q (cqe_user_data cq)")
  case None
  with dispatch_unregistered [OF wf None] wf show ?thesis by simp
next
  case (Some x)
  obtain ptr c a where x: "x = (ptr, c, a)" by (cases x)
  let ?q = "resume_state (cqe_user_data cq) c (cqe_res cq) q"
  note d = dispatch_registered [OF wf Some [unfolded x]]
  have "c < next_coro ?q" "awaiters ?q c = None" "resumed ?q = resumed q @ [(c, cqe_res cq)]"
    using d(4) by (simp_all add: resume_state_def)
  moreover have "single_await P (aw_caller a (cqe_res cq)) c ?q"
    using once by (simp add: dispatch_single_await_def Some x)
  ultimately have s: "exec_safe {ptr} c ?q (exec P (aw_caller a (cqe_res cq)) c ?q)"
    using d(2) by (intro exec_wf P) simp_all
  show ?thesis
  proof (cases "exec P (aw_caller a (cqe_res cq)) c ?q")
    case (Inl e)
    with s show ?thesis by (simp add: d(1) exec_safe_def)
  next
    case (Inr q1)
    with s have q1: "wf_except {ptr} q1" "resumed q1 = resumed q @ [(c, cqe_res cq)]"
      by (simp_all add: exec_safe_def resume_state_def)
    from wf_delete [of ptr "{}" q1] q1(1) d(3) obtain q2 where
      "delete_completer ptr q1 = Inr q2" "ioq_wf q2" "q2 = q1\<lparr>completer_mem := (completer_mem q1)(ptr := None)\<rparr>"
      by auto
    with q1(2) Inr show ?thesis by (simp add: d(1) Some x)
  qed
qed

subsection \<open>The loop is safe\<close>

text \<open>The part of an iteration before a completion is dispatched.\<close>

definition next_completion :: "'k platform \<Rightarrow> 'k io_queue \<Rightarrow> (cqe option \<times> 'k io_queue) outcome" where
  "next_completion P q =
     bindE (submitSqes (uring P) 1 (q_ring q)) (\<lambda>(res, r).
       if res < 0 then Inr (None, q\<lparr>lastSqe := None, q_ring := r\<rparr>)
       else bindE (peekCqe (uring P) r) (\<lambda>(cqe, r'). Inr (cqe, q\<lparr>lastSqe := None, q_ring := r'\<rparr>)))"

lemma run_iteration_split:
  "run_iteration P q = bindE (next_completion P q) (\<lambda>(cqe, q2).
     case cqe of
       None \<Rightarrow> Inr q2
     | Some c \<Rightarrow> bindE (dispatch P c q2) (\<lambda>q3.
         bindE (advanceCq (uring P) 1 (q_ring q3)) (\<lambda>r''. Inr (q3\<lparr>q_ring := r''\<rparr>))))"
proof (cases "submitSqes (uring P) 1 (q_ring q)")
  case (Inr sr)
  obtain res r where sr: "sr = (res, r)" by (cases sr)
  show ?thesis
    unfolding run_iteration_def next_completion_def Inr sr
    by (cases "peekCqe (uring P) r") (auto simp: Let_def)
qed (simp add: run_iteration_def next_completion_def)

lemma next_completion_core:
  assumes "ring_fd (q_ring q) \<noteq> - 1"
  shows "\<exists>cqe q2. next_completion P q = Inr (cqe, q2) \<and> core q2 = core q"
  using assms by (auto simp: next_completion_def submitSqes_def peekCqe_def core_def Let_def split: prod.splits)

fun run_single_await :: "'k platform \<Rightarrow> nat \<Rightarrow> 'k io_queue \<Rightarrow> bool" where
  "run_single_await P 0 q \<longleftrightarrow> True"
| "run_single_await P (Suc n) q \<longleftrightarrow>
     (if 0 < cm_size (completers q)
      then (case next_completion P q of
              Inr (Some c, q2) \<Rightarrow> dispatch_single_await P c q2
            | _ \<Rightarrow> True) \<and>
           (case run_iteration P q of Inl _ \<Rightarrow> True | Inr q' \<Rightarrow> run_single_await P n q')
      else True)"

lemma run_iteration_wf:
  assumes wf: "ioq_wf q" and P: "malloc_ok P"
    and once: "\<And>c q2. next_completion P q = Inr (Some c, q2) \<Longrightarrow> dispatch_single_await P c q2"
  shows "run_iteration P q \<noteq> Inl UndefinedBehaviour \<and> (\<forall>q'. run_iteration P q = Inr q' \<longrightarrow> ioq_wf q')"
proof -
  obtain cqe q2 where nc: "next_completion P q = Inr (cqe, q2)" "core q2 = core q"
    using next_completion_core [OF wf_exceptD(2) [OF wf]] by blast
  then have w2: "ioq_wf q2" using wf wf_core by blast
  show ?thesis
  proof (cases cqe)
    case None
    with nc(1) w2 show ?thesis by (simp add: run_iteration_split)
  next
    case (Some c)
    note d = dispatch_wf [OF w2 P once [OF nc(1) [unfolded Some]]]
    show ?thesis
    proof (cases "dispatch P c q2")
      case (Inl e)
      with d nc(1) Some show ?thesis by (simp add: run_iteration_split)
    next
      case (Inr q3)
      with d have w3: "ioq_wf q3" by blast
      then have "ioq_wf (q3\<lparr>q_ring := (q_ring q3)\<lparr>kern := k\<rparr>\<rparr>)" for k
        by (simp add: wf_except_def)
      with Inr nc(1) Some wf_exceptD(2) [OF w3] show ?thesis
        by (simp add: run_iteration_split advanceCq_def)
    qed
  qed
qed

lemma run_wf:
  assumes P: "malloc_ok P"
  shows "ioq_wf q \<Longrightarrow> run_single_await P n q \<Longrightarrow>
    run P n q \<noteq> Some (Inl UndefinedBehaviour) \<and>
    (\<forall>q'. run P n q = Some (Inr q') \<longrightarrow> ioq_wf q' \<and> cm_size (completers q') = 0)"
proof (induction n arbitrary: q)
  case (Suc n)
  show ?case
  proof (cases "0 < cm_size (completers q)")
    case True
    with Suc.prems(2) have "dispatch_single_await P c q2" if "next_completion P q = Inr (Some c, q2)" for c q2
      using that by simp
    note r = run_iteration_wf [OF Suc.prems(1) P this]
    show ?thesis
      using r Suc.IH Suc.prems(2) True by (cases "run_iteration P q") auto
  next
    case False
    with Suc.prems(1) show ?thesis by (simp add: word_gt_0)
  qed
qed simp

lemma cm_size_0_empty:
  assumes inv: "cm_inv m" and "cm_size m = 0"
  shows "cm_abs m = Map.empty"
proof -
  have "live_count m = 0" using assms by (simp add: cm_inv_def cm_size_def)
  then have "\<forall>e\<in>set (cm_entries m). \<not> is_live e" by (simp add: live_count_def filter_empty_conv)
  then show ?thesis by (auto simp: cm_abs_def fun_eq_iff find_None_iff)
qed

subsection \<open>A platform for concrete runs\<close>

fun first_free :: "nat \<Rightarrow> (u64 \<rightharpoonup> nat) \<Rightarrow> u64 \<Rightarrow> u64" where
  "first_free k m p = (if k = 0 \<or> m p = None then p else first_free (k - 1) m (p + 1))"

declare first_free.simps [simp del]

definition sim_platform :: "sim platform" where
  "sim_platform = \<lparr>uring = sim_lib, malloc = (\<lambda>m. first_free (2 ^ 20) m 1)\<rparr>"

lemma first_free_found:
  "\<exists>j\<le>k. first_free k m (of_nat a) = of_nat (a + j) \<and> (\<forall>i<j. m (of_nat (a + i)) \<noteq> None) \<and>
     (j < k \<longrightarrow> m (of_nat (a + j)) = None)"
proof (induction k arbitrary: a)
  case (Suc k)
  show ?case
  proof (cases "m (of_nat a) = None")
    case True
    then show ?thesis by (intro exI [of _ 0]) (simp add: first_free.simps [of "Suc k"])
  next
    case False
    from Suc [of "Suc a"] obtain j where j: "j \<le> k" "first_free k m (of_nat (Suc a)) = of_nat (Suc a + j)"
      "\<forall>i<j. m (of_nat (Suc a + i)) \<noteq> None" "j < k \<longrightarrow> m (of_nat (Suc a + j)) = None" by blast
    have "m (of_nat (a + i)) \<noteq> None" if "i < Suc j" for i
    proof (cases i)
      case (Suc i')
      with j(3) that have "m (of_nat (Suc a + i')) \<noteq> None" by blast
      then show ?thesis unfolding Suc by (simp only: add_Suc add_Suc_right not_False_eq_True)
    qed (use False in simp)
    then have "\<forall>i<Suc j. m (of_nat (a + i)) \<noteq> None" by blast
    moreover have "first_free (Suc k) m (of_nat a) = of_nat (a + Suc j)"
      using j(2) False by (auto simp: first_free.simps [of "Suc k"] ac_simps)
    ultimately show ?thesis using j(1,4) by (intro exI [of _ "Suc j"]) simp
  qed
qed (simp add: first_free.simps)

lemma sim_malloc_ok: "malloc_ok sim_platform"
proof -
  define K :: nat where "K = 2 ^ 20"
  have K: "K < 2 ^ 63" by (simp add: K_def)
  have "first_free K m 1 \<notin> dom m \<and> first_free K m 1 \<noteq> Empty \<and> first_free K m 1 \<noteq> Tombstone"
    if few: "card (dom m) < K" for m :: "u64 \<rightharpoonup> nat"
  proof -
    from first_free_found [of K m 1] obtain j where j: "j \<le> K" "first_free K m 1 = of_nat (1 + j)"
      "\<forall>i<j. m (of_nat (1 + i)) \<noteq> None" "j < K \<longrightarrow> m (of_nat (1 + j)) = None" by auto
    have "(\<lambda>i. of_nat (1 + i) :: u64) ` {0..<j} \<subseteq> dom m" using j(3) by auto
    moreover have "inj_on (\<lambda>i. of_nat (1 + i) :: u64) {0..<j}"
    proof (rule inj_onI)
      fix x y assume "x \<in> {0..<j}" "y \<in> {0..<j}" "(of_nat (1 + x) :: u64) = of_nat (1 + y)"
      moreover from this have "1 + x < 2 ^ 64" "1 + y < 2 ^ 64" using j(1) K by auto
      then have "unat (of_nat (1 + x) :: u64) = 1 + x" "unat (of_nat (1 + y) :: u64) = 1 + y"
        by (simp_all only: unat_of_nat_u64)
      ultimately show "x = y" by (metis add_left_cancel)
    qed
    ultimately have "j \<le> card (dom m)"
      by (metis card_atLeastLessThan card_image card_mono diff_zero finite)
    with few j(1,4) have free: "m (of_nat (1 + j)) = None" by linarith
    have u: "unat (of_nat (1 + j) :: u64) = 1 + j" using j(1) K by (intro unat_of_nat_u64) simp
    have "unat Tombstone = 2 ^ 64 - 1"
      by (simp add: Tombstone_def unsigned_minus_1_eq_mask mask_eq_exp_minus_1)
    moreover have "1 + j < 2 ^ 64 - 1" using j(1) K by simp
    ultimately have "(of_nat (1 + j) :: u64) \<noteq> Tombstone" using u by force
    moreover have "(of_nat (1 + j) :: u64) \<noteq> Empty" using u by (metis Empty_def add_is_0 unsigned_0 zero_neq_one)
    ultimately show ?thesis using free j(2) by auto
  qed
  then show ?thesis by (simp add: malloc_ok_def sim_platform_def K_def)
qed

text \<open>A queue with room for 52 operations on a ring with 8 entries, and a coroutine that receives once.\<close>

definition sim_queue :: "sim io_queue" where
  "sim_queue =
     \<lparr>nextOpId = 0, q_ring = (sim_ring 8)\<lparr>ring_params := \<lparr>params_flags = 0, sq_entries = 53, features = 6\<rparr>,
        kern := \<lparr>sim_cap = 53, sim_tail = 0, sim_ready = [], sim_cq = []\<rparr>\<rparr>,
      completers = \<lparr>cm_entries = replicate 53 \<lparr>entry_key = - 1, entry_value = 0\<rparr>, cm_count = 0\<rparr>,
      lastSqe = None, completer_mem = Map.empty, awaiters = Map.empty, next_coro = 0, resumed = []\<rparr>"

lemma sim_construct: "IoQueue_construct sim_platform 10 (sim_ring 8) = Inr sim_queue"
  by (simp add: IoQueue_construct_def IoQueueImpl_def impl_init_def CompleterMap_def ring_init_def
    getNextSize_def primes_def sim_platform_def sim_lib_def getParams_def sim_ring_def sim_queue_def cm_capacity_def)

definition start :: "'k platform \<Rightarrow> prog \<Rightarrow> 'k io_queue \<Rightarrow> 'k io_queue outcome" where
  "start P p q = exec P p (next_coro q) (q\<lparr>next_coro := Suc (next_coro q)\<rparr>)"

definition start_single_await :: "'k platform \<Rightarrow> prog \<Rightarrow> 'k io_queue \<Rightarrow> bool" where
  "start_single_await P p q \<longleftrightarrow> single_await P p (next_coro q) (q\<lparr>next_coro := Suc (next_coro q)\<rparr>)"

definition recv_once :: prog where
  "recv_once = Submit (OpRecv 5 4096 512) (\<lambda>h. Await h (\<lambda>_. Return))"

definition sim_waiting :: "sim io_queue" where
  "sim_waiting = sim_queue
     \<lparr>nextOpId := 1, next_coro := 1, lastSqe := Some 0,
      q_ring := (q_ring sim_queue)\<lparr>sqes := (sqes (q_ring sim_queue))(0 := (base_sqe IORING_OP_RECV 5 0 4096 512)),
        kern := \<lparr>sim_cap = 53, sim_tail = 1, sim_ready = [0], sim_cq = []\<rparr>\<rparr>,
      completers := \<lparr>cm_entries = (replicate 53 \<lparr>entry_key = - 1, entry_value = 0\<rparr>)
          [0 := \<lparr>entry_key = 0, entry_value = 1\<rparr>], cm_count = 1\<rparr>,
      completer_mem := [1 \<mapsto> 0],
      awaiters := [0 \<mapsto> \<lparr>aw_operation = \<lparr>oh_io = True, oh_id = 0\<rparr>, aw_caller = (\<lambda>_. Return), aw_result = IoResult_default\<rparr>]\<rparr>"

lemma upt_53: "[0..<53] = 0 # [1..<53]"
  by (simp add: upt_conv_Cons)

lemmas sim_defs = sim_platform_def sim_lib_def sim_ring_def sim_queue_def sim_waiting_def
  OpIdInvalid_def OpIdIgnore_def Let_def

lemma sim_submit:
  "submit sim_platform (OpRecv 5 4096 512) (sim_queue\<lparr>next_coro := 1\<rparr>) =
     Inr (\<lparr>oh_io = True, oh_id = 0\<rparr>, sim_waiting\<lparr>completers := completers sim_queue,
       completer_mem := Map.empty, awaiters := Map.empty\<rparr>)"
  unfolding submit.simps ioq_recv_def prepareRecv_def prepare_fill if_sqe_fill on_ring_def
  by (simp add: fill_initialized finalizeSqe_def getNextOpId_def finalizeSqe_id_def write_sqe_def sim_defs base_sqe_def)

lemma sim_start: "start sim_platform recv_once sim_queue = Inr sim_waiting"
proof -
  have "cm_insert (completers sim_queue) 0 1 = Inr (completers sim_waiting)"
    by (simp add: cm_insert_def cm_size_def cm_capacity_def probe_index_def Empty_def upt_53 sim_defs)
  with sim_submit show ?thesis
    by (simp add: start_def recv_once_def await_suspend_def setCompleter_def oh_valid_def)
      (simp add: sim_defs first_free.simps)
qed

lemma sim_start_single: "start_single_await sim_platform recv_once sim_queue"
proof -
  have "cm_abs (completers sim_queue) 0 = None" by (simp add: cm_abs_def sim_queue_def find_None_iff is_live_def Empty_def)
  with sim_submit show ?thesis
    by (simp add: start_single_await_def recv_once_def) (simp add: sim_queue_def)
qed

definition sim_done :: "sim io_queue" where
  "sim_done = sim_waiting\<lparr>lastSqe := None, q_ring := (q_ring sim_waiting)\<lparr>
      kern := \<lparr>sim_cap = 53, sim_tail = 1, sim_ready = [], sim_cq = []\<rparr>\<rparr>,
      completers := \<lparr>cm_entries = (replicate 53 \<lparr>entry_key = - 1, entry_value = 0\<rparr>)
          [0 := \<lparr>entry_key = 0, entry_value = Tombstone\<rparr>], cm_count = 0\<rparr>,
      completer_mem := Map.empty, awaiters := Map.empty, resumed := [(0, 512)]\<rparr>"

lemma sim_iteration: "run_iteration sim_platform sim_waiting = Inr sim_done"
proof -
  let ?c = "\<lparr>cqe_user_data = 0, cqe_res = 512\<rparr>"
  let ?q = "\<lambda>cq. sim_waiting\<lparr>lastSqe := None, q_ring := (q_ring sim_waiting)\<lparr>
      kern := \<lparr>sim_cap = 53, sim_tail = 1, sim_ready = [], sim_cq = cq\<rparr>\<rparr>\<rparr>"
  have "next_completion sim_platform sim_waiting = Inr (Some ?c, ?q [?c])"
    by (simp add: next_completion_def submitSqes_def peekCqe_def sim_defs sim_res_def base_sqe_def)
  moreover have "cm_remove (completers sim_waiting) 0 = (1, completers sim_done)"
    by (simp add: cm_remove_def cm_lookup_def probe_index_def upt_53 sim_defs sim_done_def Empty_def Tombstone_def)
  then have "dispatch sim_platform ?c (?q [?c]) = Inr (sim_done\<lparr>q_ring := q_ring (?q [?c])\<rparr>)"
    by (simp add: dispatch_def complete_def destroy_awaiter_def delete_completer_def null_handle_def
      oh_valid_def sim_done_def sim_waiting_def OpIdIgnore_def sim_queue_def)
  ultimately show ?thesis
    by (simp add: run_iteration_split advanceCq_def sim_done_def) (simp add: sim_defs)
qed

lemma sim_run: "run sim_platform 2 sim_waiting = Some (Inr sim_done)"
  using sim_iteration by (simp add: eval_nat_numeral cm_size_def sim_done_def) (simp add: sim_defs)

lemma sim_run_single: "run_single_await sim_platform n sim_waiting"
proof -
  have trivial: "single_await P (aw_caller a r) c q'" if "registered q i = Some (ptr, c, a)" "awaiters q = awaiters sim_waiting"
    for P :: "sim platform" and a r c q' i ptr and q :: "sim io_queue"
    using registeredD [OF that(1)] that(2) by (auto simp: sim_waiting_def split: if_splits)
  have "dispatch_single_await sim_platform c q2" if "next_completion sim_platform sim_waiting = Inr (Some c, q2)" for c q2
  proof -
    have "core q2 = core sim_waiting"
      using next_completion_core [of sim_waiting sim_platform] that by (auto simp: sim_defs)
    then have "awaiters q2 = awaiters sim_waiting" by (rule core_eqD(3))
    then show ?thesis by (auto simp: dispatch_single_await_def intro: trivial split: option.splits)
  qed
  moreover have "run_single_await sim_platform k sim_done" for k
    by (cases k) (simp_all add: cm_size_def sim_done_def)
  ultimately show ?thesis
    using sim_iteration by (cases n) (auto split: sum.splits option.splits)
qed

subsection \<open>Properties\<close>

text \<open>
  What is expected of the ring: a successful initialisation yields a file descriptor. The header of
  liburing documents a negative result for failure.
\<close>

definition init_ok :: "'k platform \<Rightarrow> bool" where
  "init_ok P \<longleftrightarrow> (\<forall>n fd p k. case queue_init_params (uring P) n fd p k of (res, fd', _) \<Rightarrow> 0 \<le> res \<longrightarrow> fd' \<noteq> - 1)"

lemma impl_init_True:
  assumes "impl_init P b q = (True, q')"
  shows "fst (ring_init (uring P) (cm_capacity (completers q)) b (q_ring q))"
    and "q' = q\<lparr>q_ring := snd (ring_init (uring P) (cm_capacity (completers q)) b (q_ring q))\<rparr>"
  using assms by (simp_all add: impl_init_def Let_def case_prod_unfold split: if_splits)

lemma ring_init_fd:
  assumes "init_ok P" and "fst (ring_init (uring P) n b r)"
  shows "ring_fd (snd (ring_init (uring P) n b r)) \<noteq> - 1"
  using assms by (simp add: init_ok_def ring_init_def Let_def case_prod_unfold)

lemma construct_wf:
  assumes "init_ok P" and "IoQueue_construct P sz r = Inr q"
  shows "ioq_wf q \<and> awaiters q = Map.empty"
proof -
  from assms(2) obtain q1 where q1: "IoQueueImpl sz r = Inr q1" "impl_init P False q1 = (True, q)"
    by (auto simp: IoQueue_construct_def bindE_eq_Inr Let_def case_prod_unfold prod_eq_iff split: if_splits)
  from q1(1) obtain cm where cm: "CompleterMap sz = Inr cm" "completers q1 = cm" "completer_mem q1 = Map.empty"
    "awaiters q1 = Map.empty" by (auto simp: IoQueueImpl_def bindE_eq_Inr)
  note i = impl_init_True [OF q1(2)]
  have "ring_fd (q_ring q) \<noteq> - 1" using ring_init_fd [OF assms(1) i(1)] i(2) by simp
  with CompleterMap_inv [OF cm(1)] cm(2-4) i(2) show ?thesis by (simp add: wf_except_def)
qed

lemma start_wf:
  assumes wf: "ioq_wf q" and P: "malloc_ok P" and once: "start_single_await P p q"
  shows "start P p q \<noteq> Inl UndefinedBehaviour \<and> (\<forall>q'. start P p q = Inr q' \<longrightarrow> ioq_wf q')"
proof -
  let ?q = "q\<lparr>next_coro := Suc (next_coro q)\<rparr>"
  have "ioq_wf ?q" using wf by (simp add: wf_except_def)
  then have "exec_safe {} (next_coro q) ?q (exec P p (next_coro q) ?q)"
    using once wf_exceptD(4) [OF wf] by (intro exec_wf P) (simp_all add: start_single_await_def)
  then show ?thesis by (simp add: exec_safe_def start_def)
qed

text \<open>
  C1: A program that constructs a queue, starts a coroutine and runs the loop never touches a
  completer or awaiter that is gone, never deletes one twice, and when \<^verbatim>\<open>run\<close> returns, no completer is
  left, neither registered nor leaked. The coroutine is arbitrary: it may start others, cancel
  operations with or without their handler, link timeouts and destroy suspended coroutines, in any
  order and with any results from the kernel. The only rule is that no operation is awaited while
  another await of it is pending, and that the coroutine's own code is defined. A coroutine whose operation was
  cancelled together with its handler is never resumed and stays suspended; nothing is said about its frame.
\<close>

theorem event_loop_safe:
  assumes P: "malloc_ok P" "init_ok P" and q0: "IoQueue_construct P sz r = Inr q0"
    and once: "start_single_await P main q0" "\<And>q. start P main q0 = Inr q \<Longrightarrow> run_single_await P n q"
  shows "start P main q0 \<noteq> Inl UndefinedBehaviour \<and>
    (\<forall>q. start P main q0 = Inr q \<longrightarrow> run P n q \<noteq> Some (Inl UndefinedBehaviour) \<and>
      (\<forall>q'. run P n q = Some (Inr q') \<longrightarrow>
         cm_abs (completers q') = Map.empty \<and> completer_mem q' = Map.empty))"
proof -
  from construct_wf [OF P(2) q0] have wf0: "ioq_wf q0" by blast
  note st = start_wf [OF wf0 P(1) once(1)]
  have "run P n q \<noteq> Some (Inl UndefinedBehaviour) \<and> (\<forall>q'. run P n q = Some (Inr q') \<longrightarrow>
      cm_abs (completers q') = Map.empty \<and> completer_mem q' = Map.empty)" if q: "start P main q0 = Inr q" for q
  proof -
    have "ioq_wf q" using st q by blast
    from run_wf [OF P(1) this once(2) [OF q]]
    have r: "run P n q \<noteq> Some (Inl UndefinedBehaviour)"
      "\<And>q'. run P n q = Some (Inr q') \<Longrightarrow> ioq_wf q' \<and> cm_size (completers q') = 0" by blast+
    have "cm_abs (completers q') = Map.empty \<and> completer_mem q' = Map.empty"
      if "run P n q = Some (Inr q')" for q'
      using r(2) [OF that] cm_size_0_empty wf_exceptD(1,3) [of "{}" q'] by (metis Un_empty_right dom_eq_empty_conv ran_empty)
    with r(1) show ?thesis by blast
  qed
  with st show ?thesis by blast
qed

lemma sim_init_ok: "init_ok sim_platform"
  by (simp add: init_ok_def sim_platform_def sim_lib_def)

theorem event_loop_safe_witness:
  "start sim_platform recv_once sim_queue = Inr sim_waiting \<and>
   run sim_platform 2 sim_waiting = Some (Inr sim_done) \<and> resumed sim_done = [(0, 512)] \<and>
   completer_mem sim_done = Map.empty"
proof -
  have "run_single_await sim_platform 2 q" if "start sim_platform recv_once sim_queue = Inr q" for q
    using that sim_start sim_run_single by simp
  from event_loop_safe [OF sim_malloc_ok sim_init_ok sim_construct sim_start_single this] sim_start sim_run
  show ?thesis by (simp add: sim_done_def)
qed

text \<open>
  C4: A completion resumes exactly the coroutine that awaits the completed operation, exactly once,
  with the result of the completion, and removes the registration; a completion for an id that is
  not registered, in particular a second one for the same operation, or for the ignored id, changes
  nothing.
\<close>

theorem dispatch_resumes_once:
  assumes wf: "ioq_wf q" and P: "malloc_ok P" and once: "dispatch_single_await P cq q"
    and ok: "dispatch P cq q = Inr q'"
  shows "case registered q (cqe_user_data cq) of
      None \<Rightarrow> q' = q
    | Some (ptr, c, a) \<Rightarrow>
        oh_id (aw_operation a) = cqe_user_data cq \<and> resumed q' = resumed q @ [(c, cqe_res cq)] \<and>
        cm_abs (completers (resume_state (cqe_user_data cq) c (cqe_res cq) q)) (cqe_user_data cq) = None \<and>
        (\<exists>q1. exec P (aw_caller a (cqe_res cq)) c (resume_state (cqe_user_data cq) c (cqe_res cq) q) = Inr q1 \<and>
              delete_completer ptr q1 = Inr q')"
proof (cases "registered q (cqe_user_data cq)")
  case None
  with dispatch_unregistered [OF wf None] ok show ?thesis by simp
next
  case (Some x)
  obtain ptr c a where x: "x = (ptr, c, a)" by (cases x)
  note rd = registeredD [OF Some [unfolded x]]
  have "oh_id (aw_operation a) = cqe_user_data cq" using rd by (auto elim: wf_except_entry [OF wf])
  moreover have "cm_abs (snd (cm_remove (completers q) (cqe_user_data cq))) (cqe_user_data cq) = None"
    using cm_remove_abs [OF wf_exceptD(1) [OF wf]] by simp
  moreover have "resumed q' = resumed q @ [(c, cqe_res cq)]"
    using dispatch_wf [OF wf P once] ok Some x by simp
  ultimately show ?thesis
    using ok dispatch_registered(1) [OF wf Some [unfolded x], of P]
    by (simp add: Some x bindE_eq_Inr resume_state_def)
qed

lemma sim_waiting_wf: "ioq_wf sim_waiting"
  using start_wf [OF construct_wf [OF sim_init_ok sim_construct, THEN conjunct1] sim_malloc_ok sim_start_single] sim_start
  by simp

lemma sim_waiting_abs: "cm_abs (completers sim_waiting) 0 = Some 1"
  by (simp add: cm_abs_def sim_waiting_def is_live_def Empty_def Tombstone_def eval_nat_numeral)

lemma sim_registered:
  "registered sim_waiting 0 = Some (1, 0, \<lparr>aw_operation = \<lparr>oh_io = True, oh_id = 0\<rparr>, aw_caller = (\<lambda>_. Return), aw_result = IoResult_default\<rparr>)"
  by (simp add: registered_def sim_waiting_abs OpIdIgnore_def) (simp add: sim_waiting_def)

theorem dispatch_resumes_once_witness:
  "\<exists>q'. dispatch sim_platform \<lparr>cqe_user_data = 0, cqe_res = - 104\<rparr> sim_waiting = Inr q' \<and> resumed q' = [(0, - 104)]"
proof -
  let ?c = "\<lparr>cqe_user_data = 0, cqe_res = - 104\<rparr>"
  have one: "dispatch_single_await sim_platform ?c sim_waiting" by (simp add: dispatch_single_await_def sim_registered)
  have "isl (dispatch sim_platform ?c sim_waiting) = False"
    using dispatch_registered(1) [OF sim_waiting_wf, of ?c 1 0] sim_registered
    by (simp add: resume_state_def delete_completer_def) (simp add: sim_waiting_def)
  then obtain q' where "dispatch sim_platform ?c sim_waiting = Inr q'" by (cases "dispatch sim_platform ?c sim_waiting") auto
  with dispatch_resumes_once [OF sim_waiting_wf sim_malloc_ok one this] show ?thesis
    by (simp add: sim_registered) (simp add: sim_waiting_def sim_queue_def)
qed

text \<open>
  C15: Cancelling with \<^verbatim>\<open>cancelHandler\<close> set takes effect at once: it always succeeds on a valid handle, the
  completer is deleted, and whatever completion still arrives for the operation resumes nobody.
\<close>

theorem cancel_prevents_resumption:
  assumes wf: "ioq_wf q" and valid: "oh_valid h"
  shows "\<exists>h' q'. ioq_cancel P h True q = Inr (h', q') \<and> ioq_wf q' \<and>
    (\<forall>ptr. cm_abs (completers q) (oh_id h) = Some ptr \<longrightarrow> completer_mem q' ptr = None) \<and>
    (\<forall>res. dispatch P \<lparr>cqe_user_data = oh_id h, cqe_res = res\<rparr> q' = Inr q')"
proof -
  from cancel_wf [OF wf valid, of P True] obtain h' q' where
    q': "ioq_cancel P h True q = Inr (h', q')" "ioq_wf q'"
      "cm_abs (completers q') = (cm_abs (completers q))(oh_id h := None)" by auto
  have "completer_mem q' ptr = None" if "cm_abs (completers q) (oh_id h) = Some ptr" for ptr
  proof -
    have "ptr \<notin> ran (cm_abs (completers q'))"
      unfolding q'(3) ran_def using wf_entry_unique [OF wf that] by auto
    then show ?thesis using wf_exceptD(3) [OF q'(2)] by auto
  qed
  moreover have "registered q' (oh_id h) = None" by (simp add: registered_def q'(3))
  then have "dispatch P \<lparr>cqe_user_data = oh_id h, cqe_res = res\<rparr> q' = Inr q'" for res
    using dispatch_unregistered [OF q'(2), of "\<lparr>cqe_user_data = oh_id h, cqe_res = res\<rparr>"] by simp
  ultimately show ?thesis using q'(1,2) by blast
qed

theorem cancel_prevents_resumption_witness:
  "\<exists>h' q'. ioq_cancel sim_platform \<lparr>oh_io = True, oh_id = 0\<rparr> True sim_waiting = Inr (h', q') \<and>
     completer_mem q' 1 = None \<and>
     (\<forall>res. dispatch sim_platform \<lparr>cqe_user_data = 0, cqe_res = res\<rparr> q' = Inr q')"
proof -
  have "oh_valid \<lparr>oh_io = True, oh_id = 0\<rparr>" by (simp add: oh_valid_def OpIdInvalid_def)
  from cancel_prevents_resumption [OF sim_waiting_wf this, of sim_platform] show ?thesis
    using sim_waiting_abs by fastforce
qed

lemma op_request_not_epoll: "op_request oper \<noteq> EpollCtl efd oper' fd ev"
  by (cases oper) simp_all

text \<open>
  C16: Submitting an operation to an initialised queue either fills one slot of the ring with an entry
  that the kernel reads as the request, labelled with the next operation id, which is the id of the
  returned valid handle; or, when the ring is full, returns the invalid handle. Completers and
  coroutines are not touched, and no other slot is. The lengths of the operation have to be below 4 GiB, and its flags and
  events in the range of their C types (\<open>representable\<close>): a longer transfer is submitted with its length modulo 2^32.
\<close>

theorem submit_refines:
  assumes rep: "representable (op_request oper)" and init: "ring_fd (q_ring q) \<noteq> - 1"
  shows "\<exists>h q'. submit P oper q = Inr (h, q') \<and> core q' = core q \<and>
    (case fst (get_sqe (uring P) (kern (q_ring q))) of
       None \<Rightarrow> \<not> oh_valid h \<and> sqes (q_ring q') = sqes (q_ring q) \<and> lastSqe q' = lastSqe q
     | Some i \<Rightarrow> oh_valid h \<and> oh_id h = fst (getNextOpId (nextOpId q)) \<and> lastSqe q' = Some i \<and>
         read_sqe (sqes (q_ring q') i) = Some (op_request oper) \<and> user_data (sqes (q_ring q') i) = oh_id h \<and>
         (\<forall>j. j \<noteq> i \<longrightarrow> sqes (q_ring q') j = sqes (q_ring q) j))"
proof -
  from prepare_request_fill [OF rep op_request_not_epoll, of "uring P"] obtain e where
    e: "\<forall>r. prepare_request (uring P) (op_request oper) r = fill (uring P) e r" "read_sqe e = Some (op_request oper)" by blast
  obtain h q' where s: "submit P oper q = Inr (h, q')" "core q' = core q" using submit_core [OF init] by blast
  have label: "read_sqe (e\<lparr>user_data := u\<rparr>) = read_sqe e" for u by (simp add: read_sqe_def clean_sqe_def Let_def)
  from s(1) have "(case fst (get_sqe (uring P) (kern (q_ring q))) of
       None \<Rightarrow> \<not> oh_valid h \<and> sqes (q_ring q') = sqes (q_ring q) \<and> lastSqe q' = lastSqe q
     | Some i \<Rightarrow> oh_valid h \<and> oh_id h = fst (getNextOpId (nextOpId q)) \<and> lastSqe q' = Some i \<and>
         read_sqe (sqes (q_ring q') i) = Some (op_request oper) \<and> user_data (sqes (q_ring q') i) = oh_id h \<and>
         (\<forall>j. j \<noteq> i \<longrightarrow> sqes (q_ring q') j = sqes (q_ring q) j))"
    using e(2) init unfolding submit_on_ring on_ring_def e(1) [rule_format]
    by (cases "fst (get_sqe (uring P) (kern (q_ring q)))")
      (auto simp: fill_initialized finalizeSqe_def finalizeSqe_id_def write_sqe_def null_handle_def oh_valid_def
        case_prod_unfold Let_def getNextOpId_not_magic label)
  with s show ?thesis by blast
qed

theorem submit_refines_witness:
  "\<exists>h q'. submit sim_platform (OpRecv 5 4096 512) (sim_queue\<lparr>next_coro := 1\<rparr>) = Inr (h, q') \<and> oh_id h = 0 \<and>
     read_sqe (sqes (q_ring q') 0) = Some (Recv 5 4096 512 0)"
proof -
  have "representable (op_request (OpRecv 5 4096 512))" "ring_fd (q_ring (sim_queue\<lparr>next_coro := 1\<rparr>)) \<noteq> - 1"
    "fst (get_sqe (uring sim_platform) (kern (q_ring (sim_queue\<lparr>next_coro := 1\<rparr>)))) = Some 0"
    by (simp_all add: in_int_def sim_defs)
  from submit_refines [OF this(1,2), of sim_platform] this(3) sim_submit show ?thesis by auto
qed

text \<open>
  C27: A linked timeout is attached to the last prepared entry and only there: that entry gets the link
  flag and is otherwise unchanged, the next slot gets a link-timeout entry with the ignored id, every
  other slot is unchanged, and the handle of the operation itself is returned.
\<close>

theorem link_timeout_refines:
  assumes init: "ring_fd (q_ring q) \<noteq> - 1" and valid: "oh_valid h"
    and last: "lastSqe q = Some i" "user_data (sqes (q_ring q) i) = oh_id h"
    and slot: "fst (get_sqe (uring P) (kern (q_ring q))) = Some j" "j \<noteq> i"
  shows "\<exists>q'. linkTimeout P ts fl h q = Inr (h, q') \<and> core q' = core q \<and> lastSqe q' = Some j \<and>
    sqes (q_ring q') i = (sqes (q_ring q) i)\<lparr>sqe_flags := sqe_flags (sqes (q_ring q) i) OR IOSQE_IO_LINK (uring P)\<rparr> \<and>
    read_sqe (sqes (q_ring q') j) = Some (LinkTimeout ts (word_of_int fl)) \<and>
    user_data (sqes (q_ring q') j) = OpIdIgnore \<and>
    (\<forall>m. m \<noteq> i \<and> m \<noteq> j \<longrightarrow> sqes (q_ring q') m = sqes (q_ring q) m)"
proof -
  have "representable (LinkTimeout ts (word_of_int fl))" by simp
  from prepare_request_as_read [OF this, of "uring P"] obtain e where
    e: "\<And>r. prepareLinkTimeout (uring P) ts (word_of_int fl) r = fill (uring P) e r"
      "read_sqe e = Some (LinkTimeout ts (word_of_int fl))" by auto
  have label: "read_sqe (e\<lparr>user_data := u\<rparr>) = read_sqe e" for u by (simp add: read_sqe_def clean_sqe_def Let_def)
  have "OpIdIgnore \<noteq> OpIdInvalid" by (simp add: OpIdIgnore_def OpIdInvalid_def)
  then show ?thesis
    using assms e(2) unfolding linkTimeout_def on_ring_def e(1)
    by (auto simp: Let_def fill_initialized write_sqe_def finalizeSqe_id_def oh_valid_def core_def label)
qed

lemma sim_submitted_init: "ring_fd (q_ring sim_waiting) \<noteq> - 1"
  by (simp add: sim_defs)

theorem link_timeout_refines_witness:
  "\<exists>q'. linkTimeout sim_platform 8192 0 \<lparr>oh_io = True, oh_id = 0\<rparr> sim_waiting = Inr (\<lparr>oh_io = True, oh_id = 0\<rparr>, q') \<and>
     sqe_flags (sqes (q_ring q') 0) = 4 \<and> read_sqe (sqes (q_ring q') 1) = Some (LinkTimeout 8192 0)"
proof -
  let ?h = "\<lparr>oh_io = True, oh_id = 0\<rparr>"
  have "oh_valid ?h" "lastSqe sim_waiting = Some 0" "user_data (sqes (q_ring sim_waiting) 0) = oh_id ?h"
    "fst (get_sqe (uring sim_platform) (kern (q_ring sim_waiting))) = Some 1" "(1 :: nat) \<noteq> 0"
    "sqe_flags (sqes (q_ring sim_waiting) 0) OR IOSQE_IO_LINK (uring sim_platform) = 4"
    by (simp_all add: sim_defs oh_valid_def base_sqe_def)
  with link_timeout_refines [OF sim_submitted_init this(1-5), of 8192 0] show ?thesis by auto
qed

text \<open>
  \<^verbatim>\<open>Task<IoResult> timeout(Timespec*, int, OperationHandle)\<close>: link the timeout and await the operation.
\<close>

definition timeout_linked :: "u64 \<Rightarrow> int \<Rightarrow> operation_handle \<Rightarrow> (io_result \<Rightarrow> prog) \<Rightarrow> prog" where
  "timeout_linked ts flags h k = LinkedTimeout ts flags h (\<lambda>h'. Await h' k)"

text \<open>
  A timeout cannot be attached to an operation that is not the last one prepared: that fails an
  assertion. When the ring has no slot left for the timeout, the operation is left marked as linked
  although nothing follows it, and awaiting the returned invalid handle ends the program.
\<close>

theorem link_timeout_failures:
  assumes init: "ring_fd (q_ring q) \<noteq> - 1" and valid: "oh_valid h"
  shows "((\<forall>i. lastSqe q = Some i \<longrightarrow> user_data (sqes (q_ring q) i) \<noteq> oh_id h) \<longrightarrow>
      linkTimeout P ts fl h q = Inl AssertionFailed) \<and>
    (\<forall>i. lastSqe q = Some i \<and> user_data (sqes (q_ring q) i) = oh_id h \<and>
        fst (get_sqe (uring P) (kern (q_ring q))) = None \<longrightarrow>
      (\<exists>q'. linkTimeout P ts fl h q = Inr (null_handle, q') \<and>
         sqe_flags (sqes (q_ring q') i) = sqe_flags (sqes (q_ring q) i) OR IOSQE_IO_LINK (uring P)) \<and>
      exec P (timeout_linked ts fl h k) c q = Inl AssertionFailed)"
proof -
  from prepare_request_is_fill [of "uring P" "LinkTimeout ts (word_of_int fl)"] obtain e where
    e: "\<And>r. prepareLinkTimeout (uring P) ts (word_of_int fl) r = fill (uring P) e r" by auto
  have "linkTimeout P ts fl h q = Inl AssertionFailed"
    if "\<forall>i. lastSqe q = Some i \<longrightarrow> user_data (sqes (q_ring q) i) \<noteq> oh_id h"
    using valid that by (auto simp: linkTimeout_def split: option.splits)
  moreover have "(\<exists>q'. linkTimeout P ts fl h q = Inr (null_handle, q') \<and>
         sqe_flags (sqes (q_ring q') i) = sqe_flags (sqes (q_ring q) i) OR IOSQE_IO_LINK (uring P)) \<and>
      exec P (timeout_linked ts fl h k) c q = Inl AssertionFailed"
    if "lastSqe q = Some i" "user_data (sqes (q_ring q) i) = oh_id h" "fst (get_sqe (uring P) (kern (q_ring q))) = None" for i
    using assms that unfolding timeout_linked_def exec.simps linkTimeout_def on_ring_def e
    by (simp add: Let_def fill_initialized write_sqe_def finalizeSqe_id_def null_handle_def oh_valid_def await_suspend_def)
  ultimately show ?thesis by blast
qed

definition sim_full :: "sim io_queue" where
  "sim_full = sim_waiting\<lparr>q_ring := (q_ring sim_waiting)\<lparr>kern := \<lparr>sim_cap = 1, sim_tail = 1, sim_ready = [0], sim_cq = []\<rparr>\<rparr>\<rparr>"

theorem link_timeout_failures_witness:
  "exec sim_platform (timeout_linked 8192 0 \<lparr>oh_io = True, oh_id = 0\<rparr> (\<lambda>_. Return)) 0 sim_full = Inl AssertionFailed"
proof -
  let ?h = "\<lparr>oh_io = True, oh_id = 0\<rparr>"
  have "ring_fd (q_ring sim_full) \<noteq> - 1" "oh_valid ?h" "lastSqe sim_full = Some 0"
    "user_data (sqes (q_ring sim_full) 0) = oh_id ?h" "fst (get_sqe (uring sim_platform) (kern (q_ring sim_full))) = None"
    by (simp_all add: sim_full_def sim_defs oh_valid_def base_sqe_def)
  with link_timeout_failures [OF this(1,2)] show ?thesis by blast
qed

text \<open>
  Awaiting the handle that \<^verbatim>\<open>cancel\<close> returns never finishes. The handle is valid, but it carries the
  ignored id, and no completion, whatever its id, resumes a coroutine that awaits the ignored id; since
  its completer stays registered, \<^verbatim>\<open>run\<close> does not return either.
\<close>

theorem cancel_handle_never_resumes:
  assumes wf: "ioq_wf q" and P: "malloc_ok P" and once: "dispatch_single_await P cq q"
    and waits: "cm_abs (completers q) OpIdIgnore = Some ptr" "completer_mem q ptr = Some c"
    and ok: "dispatch P cq q = Inr q'"
  shows "(\<forall>res. (c, res) \<notin> set (drop (length (resumed q)) (resumed q'))) \<and> 0 < cm_size (completers q)"
proof -
  obtain a where a: "awaiters q c = Some a" "aw_operation a = \<lparr>oh_io = True, oh_id = OpIdIgnore\<rparr>"
    by (rule wf_except_entry [OF wf waits(1)]) (use waits(2) in auto)
  have "d \<noteq> c" if r: "registered q (cqe_user_data cq) = Some (p, d, b)" for p d b
  proof -
    have "aw_operation b = \<lparr>oh_io = True, oh_id = cqe_user_data cq\<rparr>" "cqe_user_data cq \<noteq> OpIdIgnore" "awaiters q d = Some b"
      using registeredD [OF r] by (auto elim: wf_except_entry [OF wf])
    with a show ?thesis by auto
  qed
  moreover have "resumed q' = resumed q @ (case registered q (cqe_user_data cq) of
      None \<Rightarrow> [] | Some (_, c, _) \<Rightarrow> [(c, cqe_res cq)])" using dispatch_wf [OF wf P once] ok by blast
  moreover have "cm_size (completers q) \<noteq> 0"
    using cm_size_0_empty [OF wf_exceptD(1) [OF wf]] waits(1) by auto
  ultimately show ?thesis by (auto simp: word_gt_0 split: option.splits)
qed

definition await_cancel :: prog where
  "await_cancel = CancelOp \<lparr>oh_io = True, oh_id = 7\<rparr> False (\<lambda>h. Await h (\<lambda>_. Return))"

lemma sim_await_cancel:
  "\<exists>q. start sim_platform await_cancel sim_queue = Inr q \<and> start_single_await sim_platform await_cancel sim_queue \<and>
     cm_abs (completers q) OpIdIgnore = Some 1 \<and> completer_mem q 1 = Some 0"
proof -
  let ?cm = "\<lparr>cm_entries = replicate 53 \<lparr>entry_key = - 1, entry_value = 0\<rparr>, cm_count = 0\<rparr>"
  have inv: "cm_inv ?cm" and e: "cm_abs ?cm = Map.empty"
    using CompleterMap_inv [of 10 ?cm] by (simp_all add: CompleterMap_def getNextSize_def primes_def)
  have j: "probe_index 53 (- 1) h 0 < 53" for h by (rule probe_index_less) (simp add: primes_def)
  obtain m where m: "cm_insert ?cm (- 1) 1 = Inr m"
    using j by (simp add: cm_insert_def cm_size_def cm_capacity_def Empty_def upt_53)
  then have "cm_abs m (- 1) = Some 1"
    using cm_insert_Inr [OF inv m] e by (simp add: Empty_def Tombstone_def)
  with m e show ?thesis
    by (simp add: start_def start_single_await_def await_cancel_def ioq_cancel_def oh_valid_def
        on_ring_def prepareAsyncCancel_def prepare_fill fill_initialized finalizeSqe_id_def await_suspend_def
        setCompleter_def sim_defs write_sqe_def first_free.simps)
qed

theorem cancel_handle_never_resumes_witness:
  "\<exists>q. start sim_platform await_cancel sim_queue = Inr q \<and> 0 < cm_size (completers q) \<and>
     (\<forall>q'. dispatch sim_platform \<lparr>cqe_user_data = OpIdIgnore, cqe_res = 0\<rparr> q = Inr q' \<longrightarrow>
        (0, 0) \<notin> set (drop (length (resumed q)) (resumed q')))"
proof -
  from sim_await_cancel obtain q where q: "start sim_platform await_cancel sim_queue = Inr q"
    "start_single_await sim_platform await_cancel sim_queue" "cm_abs (completers q) OpIdIgnore = Some 1"
    "completer_mem q 1 = Some 0" by blast
  have wf: "ioq_wf q"
    using start_wf [OF construct_wf [OF sim_init_ok sim_construct, THEN conjunct1] sim_malloc_ok q(2)] q(1) by blast
  let ?c = "\<lparr>cqe_user_data = OpIdIgnore, cqe_res = 0\<rparr>"
  have "dispatch_single_await sim_platform ?c q" by (simp add: dispatch_single_await_def registered_def)
  moreover have "dispatch sim_platform ?c q = Inr q" by (simp add: dispatch_def)
  ultimately show ?thesis
    using cancel_handle_never_resumes [OF wf sim_malloc_ok _ q(3,4)] q(1) by blast
qed

end
