(* ===== verification/Discipline.thy ===== *)
theory Discipline
  imports IoQueue
begin

text \<open>
  A discipline under which client coroutines are safe on the event loop without any assumption about the
  state of the loop: every operation is awaited right after it was submitted (or linked to a timeout and then
  awaited), by the coroutine itself or by one it starts for that purpose, as \<^verbatim>\<open>callback\<close> does. All clients in
  the repository are written this way. The theory proves that such coroutines never await an operation
  twice, because operation ids are not handed out again before 2^64 - 2 operations have been submitted.
\<close>

subsection \<open>The discipline\<close>

text \<open>
  \<open>disciplined B p b x\<close>: with the handle \<open>x\<close> in hand, \<open>p\<close> submits at most \<open>b\<close> operations until it suspends, and
  at most \<open>B\<close> each time it is resumed, and awaits exactly the handle that it got last. Awaiting the null handle is a failing
  assertion, with which a coroutine may end the program at any time.
\<close>

primrec disciplined :: "nat \<Rightarrow> prog \<Rightarrow> nat \<Rightarrow> operation_handle option \<Rightarrow> bool" where
  "disciplined B Return = (\<lambda>b x. True)"
| "disciplined B (Submit oper k) = (\<lambda>b x. 0 < b \<and> (\<forall>h. disciplined B (k h) (b - 1) (Some h)))"
| "disciplined B (LinkedTimeout ts fl h k) = (\<lambda>b x. x = Some h \<and> (\<forall>h'. disciplined B (k h') b (Some h')))"
| "disciplined B (Await h k) = (\<lambda>b x. (x = Some h \<or> h = null_handle) \<and> (\<forall>r. disciplined B (k r) B None))"
| "disciplined B (CancelOp h ch k) = (\<lambda>b x. \<forall>h'. disciplined B (k h') b None)"
| "disciplined B (Start p k) = (\<lambda>b x. \<exists>b'\<le>b. disciplined B p b' x \<and> (\<forall>n. disciplined B (k n) (b - b') None))"
| "disciplined B (Destroy d p) = (\<lambda>b x. disciplined B p b x)"
| "disciplined B Undefined = (\<lambda>b x. False)"

lemma disciplined_mono: "disciplined B p b x \<Longrightarrow> b \<le> b' \<Longrightarrow> disciplined B p b' x"
proof (induction p arbitrary: b b' x)
  case (Submit oper k)
  have "disciplined B (k h) (b' - 1) (Some h)" for h
    by (rule Submit.IH [OF rangeI, of h "b - 1"]) (use Submit.prems in auto)
  with Submit.prems show ?case by auto
next
  case (Start p k)
  from Start.prems obtain c where c: "c \<le> b" "disciplined B p c x" "\<And>n. disciplined B (k n) (b - c) None" by auto
  have "disciplined B (k n) (b' - c) None" for n
    by (rule Start.IH(2) [OF rangeI c(3)]) (use Start.prems(2) in auto)
  with c Start.prems(2) show ?case by (auto intro!: exI [of _ c])
next
  case (LinkedTimeout ts fl h k)
  then show ?case by simp (blast intro: rangeI)
next
  case (CancelOp h ch k)
  then show ?case by simp (blast intro: rangeI)
qed auto

subsection \<open>Fresh operation ids\<close>

definition ids_below :: "'k io_queue \<Rightarrow> bool" where
  "ids_below q \<longleftrightarrow> (\<forall>i p. cm_abs (completers q) i = Some p \<longrightarrow> unat i < unat (nextOpId q))"

definition free_handle :: "operation_handle option \<Rightarrow> 'k io_queue \<Rightarrow> bool" where
  "free_handle x q \<longleftrightarrow> (\<forall>h. x = Some h \<longrightarrow> cm_abs (completers q) (oh_id h) = None \<and>
     (oh_valid h \<longrightarrow> unat (oh_id h) < unat (nextOpId q)))"

definition callers_ok :: "nat \<Rightarrow> 'k io_queue \<Rightarrow> bool" where
  "callers_ok B q \<longleftrightarrow> (\<forall>c a r. awaiters q c = Some a \<longrightarrow> disciplined B (aw_caller a r) B None)"

definition tame :: "nat \<Rightarrow> 'k io_queue \<Rightarrow> bool" where
  "tame B q \<longleftrightarrow> ids_below q \<and> callers_ok B q"

lemma tameI:
  assumes "tame B q" and "\<And>i p. cm_abs (completers q') i = Some p \<Longrightarrow> cm_abs (completers q) i = Some p"
    and "\<And>c a. awaiters q' c = Some a \<Longrightarrow> awaiters q c = Some a" and "unat (nextOpId q) \<le> unat (nextOpId q')"
  shows "tame B q'"
  using assms unfolding tame_def ids_below_def callers_ok_def by (meson order.strict_trans2)

lemma free_handleI:
  assumes "free_handle x q" and "\<And>i p. cm_abs (completers q') i = Some p \<Longrightarrow> cm_abs (completers q) i = Some p"
    and "unat (nextOpId q) \<le> unat (nextOpId q')"
  shows "free_handle x q'"
  unfolding free_handle_def
proof (intro allI impI conjI)
  fix h assume x: "x = Some h"
  with assms(1) have h: "cm_abs (completers q) (oh_id h) = None" "oh_valid h \<Longrightarrow> unat (oh_id h) < unat (nextOpId q)"
    by (simp_all add: free_handle_def)
  show "cm_abs (completers q') (oh_id h) = None" using h(1) assms(2) by (metis not_None_eq)
  show "unat (oh_id h) < unat (nextOpId q')" if "oh_valid h" using h(2) [OF that] assms(3) by simp
qed

lemma getNextOpId_plain:
  assumes "unat n < 2 ^ 64 - 2"
  shows "getNextOpId n = (n, n + 1)" and "unat (n + 1) = unat n + 1"
proof -
  have nm: "\<not> (n = OpIdInvalid \<or> n = OpIdIgnore)" using assms magic_iff [of n] by linarith
  then show "getNextOpId n = (n, n + 1)" by (simp add: getNextOpId_def)
  show "unat (n + 1) = unat n + 1" using assms by (subst unat_add_lem [THEN iffD1]) simp_all
qed

lemma submit_ids:
  assumes "submit P oper q = Inr (h, q')"
  shows "nextOpId q' = snd (getNextOpId (nextOpId q))"
    and "h = null_handle \<or> h = \<lparr>oh_io = True, oh_id = fst (getNextOpId (nextOpId q))\<rparr>"
  using assms unfolding submit_on_ring
  by (auto simp: on_ring_def bindE_eq_Inr finalizeSqe_def finalizeSqe_id_def case_prod_unfold Let_def split: option.splits)

lemma link_ids:
  assumes "linkTimeout P ts fl h q = Inr (h', q')"
  shows "nextOpId q' = nextOpId q" and "h' = h \<or> h' = null_handle"
  using assms
  by (auto simp: linkTimeout_def on_ring_def bindE_eq_Inr finalizeSqe_id_def case_prod_unfold Let_def assertE_eq_Inr
      split: option.splits if_splits)

lemma cancel_ids: "ioq_cancel P h b q = Inr (h', q') \<Longrightarrow> nextOpId q' = nextOpId q"
  by (auto simp: ioq_cancel_def on_ring_def bindE_eq_Inr finalizeSqe_id_def delete_completer_def case_prod_unfold Let_def
      assertE_eq_Inr split: option.splits if_splits)

lemma destroy_ids:
  assumes wf: "wf_except X q" and d: "destroy_awaiter P c q = Inr q'"
  shows "nextOpId q' = nextOpId q" and "cm_abs (completers q') i = Some p \<Longrightarrow> cm_abs (completers q) i = Some p"
proof -
  have "nextOpId q' = nextOpId q \<and> (cm_abs (completers q') i = Some p \<longrightarrow> cm_abs (completers q) i = Some p)"
  proof (cases "awaiters q c")
    case None
    with d show ?thesis by (simp add: destroy_awaiter_def)
  next
    case (Some a)
    show ?thesis
    proof (cases "oh_valid (aw_operation a)")
      case True
      from cancel_wf [OF wf True, of P True] obtain h' q1 where
        q1: "ioq_cancel P (aw_operation a) True q = Inr (h', q1)"
          "cm_abs (completers q1) = (cm_abs (completers q))(oh_id (aw_operation a) := None)" by auto
      have "nextOpId q1 = nextOpId q" by (rule cancel_ids [OF q1(1)])
      with q1 d Some True show ?thesis by (auto simp: destroy_awaiter_def split: if_splits)
    next
      case False
      with d Some show ?thesis by (auto simp: destroy_awaiter_def)
    qed
  qed
  then show "nextOpId q' = nextOpId q" "cm_abs (completers q') i = Some p \<Longrightarrow> cm_abs (completers q) i = Some p" by auto
qed

lemma await_suspend_ids:
  assumes wf: "wf_except X q" and X: "finite X" "card X \<le> 1" and P: "malloc_ok P"
    and once: "cm_abs (completers q) (oh_id h) = None" and a: "await_suspend P h k c q = Inr q'"
  shows "nextOpId q' = nextOpId q" "oh_valid h"
    "awaiters q' = (awaiters q)(c \<mapsto> \<lparr>aw_operation = h, aw_caller = k, aw_result = IoResult_default\<rparr>)"
    "cm_abs (completers q') i = Some p \<Longrightarrow> i = oh_id h \<or> cm_abs (completers q) i = Some p"
proof -
  define ptr where "ptr = malloc P (completer_mem q)"
  have nn: "ptr \<noteq> Empty" "ptr \<noteq> Tombstone"
    using P wf_few_completers [OF wf X] by (auto simp: malloc_ok_def ptr_def)
  from a obtain cm where cm: "cm_insert (completers q) (oh_id h) ptr = Inr cm" "oh_valid h"
    "q' = q\<lparr>awaiters := (awaiters q)(c \<mapsto> \<lparr>aw_operation = h, aw_caller = k, aw_result = IoResult_default\<rparr>),
      completer_mem := (completer_mem q)(ptr \<mapsto> c), completers := cm\<rparr>"
    by (auto simp: await_suspend_def setCompleter_def Let_def ptr_def assertE_eq_Inr bindE_eq_Inr)
  from cm_insert_Inr [OF wf_exceptD(1) [OF wf] cm(1) once nn]
  have "cm_abs cm = (cm_abs (completers q))(oh_id h \<mapsto> ptr)" by blast
  with cm(3) show "cm_abs (completers q') i = Some p \<Longrightarrow> i = oh_id h \<or> cm_abs (completers q) i = Some p"
    by (auto split: if_splits)
  from cm show "nextOpId q' = nextOpId q" "oh_valid h"
    "awaiters q' = (awaiters q)(c \<mapsto> \<lparr>aw_operation = h, aw_caller = k, aw_result = IoResult_default\<rparr>)" by simp_all
qed

subsection \<open>Executing disciplined coroutines\<close>

text \<open>The calls up to the next suspension follow the rule of the event loop and keep the ids fresh.\<close>

definition exec_tame :: "'k platform \<Rightarrow> nat \<Rightarrow> prog \<Rightarrow> nat \<Rightarrow> nat \<Rightarrow> 'k io_queue \<Rightarrow> bool" where
  "exec_tame P B p b c q \<longleftrightarrow> single_await P p c q \<and>
     (\<forall>q'. exec P p c q = Inr q' \<longrightarrow> tame B q' \<and> unat (nextOpId q') \<le> unat (nextOpId q) + b)"

lemma free_handle_null: "wf_except X q \<Longrightarrow> free_handle (Some null_handle) q"
  by (auto simp: free_handle_def null_handle_def oh_valid_def wf_except_def) (metis not_None_eq)

lemma tame_core:
  assumes "core q' = core q" "unat (nextOpId q) \<le> unat (nextOpId q')" "tame B q"
  shows "tame B q'"
  using assms(3) by (rule tameI) (use core_eqD [OF assms(1)] assms(2) in simp_all)

lemma exec_disciplined:
  assumes P: "malloc_ok P" and X: "finite X" "card X \<le> 1"
  shows "wf_except X q \<Longrightarrow> c < next_coro q \<Longrightarrow> awaiters q c = None \<Longrightarrow> disciplined B p b x \<Longrightarrow> tame B q \<Longrightarrow>
    free_handle x q \<Longrightarrow> unat (nextOpId q) + b \<le> 2 ^ 64 - 2 \<Longrightarrow> exec_tame P B p b c q"
proof (induction p arbitrary: c q b x)
  case Return
  then show ?case by (simp add: exec_tame_def)
next
  case (Submit oper k)
  from Submit.prems(4) have b: "0 < b" "\<And>h. disciplined B (k h) (b - 1) (Some h)" by simp_all
  obtain h q1 where q1: "submit P oper q = Inr (h, q1)" "core q1 = core q"
    using submit_core [OF wf_exceptD(2) [OF Submit.prems(1)]] by blast
  have n: "unat (nextOpId q) < 2 ^ 64 - 2" using Submit.prems(7) b(1) by linarith
  note ids = submit_ids [OF q1(1), unfolded getNextOpId_plain(1) [OF n]]
  have n1: "unat (nextOpId q1) = unat (nextOpId q) + 1" using ids(1) getNextOpId_plain(2) [OF n] by simp
  have w1: "wf_except X q1" using Submit.prems(1) wf_core [OF q1(2)] by blast
  have free: "cm_abs (completers q) (nextOpId q) = None"
    using Submit.prems(5) by (auto simp: tame_def ids_below_def)
  then have hand: "free_handle (Some h) q1"
    using ids(2) free_handle_null [OF w1] core_eqD(1) [OF q1(2)] n1 by (auto simp: free_handle_def)
  have "exec_tame P B (k h) (b - 1) c q1"
  proof (rule Submit.IH [OF rangeI w1 _ _ b(2) _ hand])
    show "tame B q1" by (rule tame_core [OF q1(2) _ Submit.prems(5)]) (simp add: n1)
    show "unat (nextOpId q1) + (b - 1) \<le> 2 ^ 64 - 2" using n1 Submit.prems(7) b(1) by linarith
  qed (use Submit.prems(2,3) core_eqD [OF q1(2)] in simp_all)
  with q1(1) n1 b(1) show ?case by (auto simp: exec_tame_def)
next
  case (LinkedTimeout ts fl h k)
  show ?case
  proof (cases "linkTimeout P ts fl h q = Inl AssertionFailed")
    case False
    then obtain h' q1 where q1: "linkTimeout P ts fl h q = Inr (h', q1)" "core q1 = core q"
      using linkTimeout_core [OF wf_exceptD(2) [OF LinkedTimeout.prems(1)]] by blast
    note ids = link_ids [OF q1(1)]
    have w1: "wf_except X q1" using LinkedTimeout.prems(1) wf_core [OF q1(2)] by blast
    have hand: "free_handle (Some h') q1"
      using ids LinkedTimeout.prems(4,6) free_handle_null [OF w1] core_eqD(1) [OF q1(2)] by (auto simp: free_handle_def)
    have "exec_tame P B (k h') b c q1"
    proof (rule LinkedTimeout.IH [OF rangeI w1 _ _ _ _ hand])
      show "tame B q1" by (rule tame_core [OF q1(2) _ LinkedTimeout.prems(5)]) (simp add: ids)
    qed (use LinkedTimeout.prems core_eqD [OF q1(2)] ids in simp_all)
    with q1(1) ids show ?thesis by (simp add: exec_tame_def)
  qed (simp add: exec_tame_def)
next
  case (Await h k)
  have fh: "free_handle (Some h) q" using Await.prems(4,6) free_handle_null [OF Await.prems(1)] by auto
  then have once: "cm_abs (completers q) (oh_id h) = None" by (simp add: free_handle_def)
  have "tame B q' \<and> nextOpId q' = nextOpId q" if a: "await_suspend P h k c q = Inr q'" for q'
  proof -
    note ids = await_suspend_ids [OF Await.prems(1) X P once a]
    have below: "unat (oh_id h) < unat (nextOpId q)" using ids(2) fh by (simp add: free_handle_def)
    have "unat i < unat (nextOpId q')" if "cm_abs (completers q') i = Some p" for i p
      using ids(4) [OF that] below Await.prems(5) unfolding ids(1) tame_def ids_below_def by blast
    then have "ids_below q'" by (simp add: ids_below_def)
    moreover have "callers_ok B q'"
      using Await.prems(4,5) unfolding callers_ok_def ids(3) tame_def by simp
    ultimately show ?thesis using ids(1) by (simp add: tame_def)
  qed
  then have "\<forall>q'. await_suspend P h k c q = Inr q' \<longrightarrow> tame B q' \<and> unat (nextOpId q') \<le> unat (nextOpId q) + b" by fastforce
  with once show ?case by (simp add: exec_tame_def)
next
  case (CancelOp h ch k)
  show ?case
  proof (cases "oh_valid h")
    case True
    from cancel_wf [OF CancelOp.prems(1) True, of P ch] obtain h' q1
      where q1: "ioq_cancel P h ch q = Inr (h', q1)" "wf_except X q1" "frames_kept q q1"
        "cm_abs (completers q1) = (if ch then (cm_abs (completers q))(oh_id h := None) else cm_abs (completers q))" by blast
    note n = cancel_ids [OF q1(1)]
    have "exec_tame P B (k h') b c q1"
    proof (rule CancelOp.IH [OF rangeI q1(2)])
      show "tame B q1"
        using CancelOp.prems(5) by (rule tameI) (use q1(3,4) n in \<open>auto simp: frames_kept_def split: if_splits\<close>)
    qed (use CancelOp.prems q1(3) n in \<open>auto simp: frames_kept_def free_handle_def\<close>)
    with q1(1) n show ?thesis by (simp add: exec_tame_def)
  qed (simp add: exec_tame_def ioq_cancel_def)
next
  case (Start p k)
  let ?n = "next_coro q" and ?q0 = "q\<lparr>next_coro := Suc (next_coro q)\<rparr>"
  from Start.prems(4) obtain b' where b': "b' \<le> b" "disciplined B p b' x" "\<And>n. disciplined B (k n) (b - b') None" by auto
  have w0: "wf_except X ?q0" using Start.prems(1) by (simp add: wf_except_def)
  have an: "awaiters q ?n = None" using wf_exceptD(4) [OF Start.prems(1)] by simp
  have t0: "exec_tame P B p b' ?n ?q0"
    using w0 an b' Start.prems(5-7)
    by (intro Start.IH(1)) (simp_all add: tame_def ids_below_def callers_ok_def free_handle_def)
  then have s0: "exec_safe X ?n ?q0 (exec P p ?n ?q0)"
    using w0 an by (intro exec_wf P X) (simp_all add: exec_tame_def)
  show ?case
  proof (cases "exec P p ?n ?q0")
    case (Inl e)
    with t0 show ?thesis by (simp add: exec_tame_def)
  next
    case (Inr q1)
    from t0 Inr have t1: "single_await P p ?n ?q0" "tame B q1" "unat (nextOpId q1) \<le> unat (nextOpId q) + b'"
      by (simp_all add: exec_tame_def)
    from s0 Inr have w1: "wf_except X q1" "Suc ?n \<le> next_coro q1"
      "\<forall>d<Suc ?n. d \<noteq> ?n \<longrightarrow> awaiters q d = None \<longrightarrow> awaiters q1 d = None" by (simp_all add: exec_safe_def)
    have "exec_tame P B (k ?n) (b - b') c q1"
      using w1 t1 Start.prems(2,3,7) b' by (intro Start.IH(2) [of _ _ _ _ None]) (auto simp: free_handle_def)
    with Inr t1 b'(1) show ?thesis by (auto simp: exec_tame_def)
  qed
next
  case (Destroy d p)
  from destroy_awaiter_wf [OF Destroy.prems(1), of P d] obtain q1 where
    q1: "destroy_awaiter P d q = Inr q1" "wf_except X q1" "awaiters q1 = (awaiters q)(d := None)"
      "next_coro q1 = next_coro q" by blast
  note ids = destroy_ids [OF Destroy.prems(1) q1(1)]
  have "exec_tame P B p b c q1"
  proof (rule Destroy.IH [OF q1(2)])
    show "tame B q1" using Destroy.prems(5) by (rule tameI) (use q1(3) ids in \<open>auto split: if_splits\<close>)
    show "free_handle x q1" using Destroy.prems(6) by (rule free_handleI) (use ids in auto)
  qed (use Destroy.prems q1 ids in simp_all)
  with q1(1) ids(1) show ?case by (simp add: exec_tame_def)
qed simp

subsection \<open>The loop with disciplined coroutines\<close>

lemma dispatch_disciplined:
  assumes wf: "ioq_wf q" and P: "malloc_ok P" and t: "tame B q" and n: "unat (nextOpId q) + B \<le> 2 ^ 64 - 2"
  shows "dispatch_single_await P cq q \<and>
    (\<forall>q'. dispatch P cq q = Inr q' \<longrightarrow> tame B q' \<and> unat (nextOpId q') \<le> unat (nextOpId q) + B)"
proof (cases "registered q (cqe_user_data cq)")
  case None
  with dispatch_unregistered [OF wf None] t show ?thesis by (simp add: dispatch_single_await_def)
next
  case (Some x)
  obtain ptr c a where x: "x = (ptr, c, a)" by (cases x)
  let ?i = "cqe_user_data cq" and ?p = "aw_caller a (cqe_res cq)"
  let ?q = "resume_state ?i c (cqe_res cq) q"
  note d = dispatch_registered [OF wf Some [unfolded x]]
  have "tame B ?q"
    using t by (rule tameI)
      (use cm_remove_abs [OF wf_exceptD(1) [OF wf], of ?i] in \<open>auto simp: resume_state_def split: if_splits\<close>)
  moreover have "disciplined B ?p B None"
    using t registeredD [OF Some [unfolded x]] by (auto simp: tame_def callers_ok_def)
  ultimately have e: "exec_tame P B ?p B c ?q"
    using d(2,4) n by (intro exec_disciplined [OF P, of "{ptr}" _ _ _ _ _ None]) (simp_all add: resume_state_def free_handle_def)
  have "tame B q' \<and> unat (nextOpId q') \<le> unat (nextOpId q) + B" if r: "dispatch P cq q = Inr q'" for q'
  proof -
    from r d(1) obtain q1 where q1: "exec P ?p c ?q = Inr q1" "delete_completer ptr q1 = Inr q'"
      by (auto simp: bindE_eq_Inr)
    from q1(1) e have q2: "tame B q1" "unat (nextOpId q1) \<le> unat (nextOpId q) + B"
      by (simp_all add: exec_tame_def resume_state_def)
    from q1(2) have q': "completers q' = completers q1" "awaiters q' = awaiters q1" "nextOpId q' = nextOpId q1"
      by (auto simp: delete_completer_def split: if_splits)
    have "tame B q'" using q2(1) by (rule tameI) (simp_all add: q')
    with q2(2) q'(3) show ?thesis by simp
  qed
  with e show ?thesis by (simp add: dispatch_single_await_def Some x exec_tame_def)
qed

lemma next_completion_ids:
  assumes "next_completion P q = Inr (cqe, q2)"
  shows "nextOpId q2 = nextOpId q"
  using assms by (auto simp: next_completion_def bindE_eq_Inr split: if_splits)

lemma run_iteration_disciplined:
  assumes wf: "ioq_wf q" and P: "malloc_ok P" and t: "tame B q" and n: "unat (nextOpId q) + B \<le> 2 ^ 64 - 2"
  shows "(\<forall>c q2. next_completion P q = Inr (Some c, q2) \<longrightarrow> dispatch_single_await P c q2) \<and>
    (\<forall>q'. run_iteration P q = Inr q' \<longrightarrow> tame B q' \<and> unat (nextOpId q') \<le> unat (nextOpId q) + B)"
proof -
  obtain cqe q2 where nc: "next_completion P q = Inr (cqe, q2)" "core q2 = core q"
    using next_completion_core [OF wf_exceptD(2) [OF wf]] by blast
  have w2: "ioq_wf q2" using wf wf_core [OF nc(2)] by blast
  have n2: "nextOpId q2 = nextOpId q" by (rule next_completion_ids [OF nc(1)])
  have t2: "tame B q2" by (rule tame_core [OF nc(2) _ t]) (simp add: n2)
  note d = dispatch_disciplined [OF w2 P t2, unfolded n2, OF n]
  have "tame B q' \<and> unat (nextOpId q') \<le> unat (nextOpId q) + B" if r: "run_iteration P q = Inr q'" for q'
  proof (cases cqe)
    case None
    with r nc(1) t2 n2 show ?thesis by (simp add: run_iteration_split)
  next
    case (Some c)
    with r nc(1) obtain q3 rr where q3: "dispatch P c q2 = Inr q3" "q' = q3\<lparr>q_ring := rr\<rparr>"
      by (auto simp: run_iteration_split bindE_eq_Inr)
    from d [of c] q3(1) have "tame B q3" "unat (nextOpId q3) \<le> unat (nextOpId q) + B" by blast+
    with q3(2) show ?thesis by (simp add: tame_def ids_below_def callers_ok_def)
  qed
  with d nc(1) show ?thesis by auto
qed

lemma run_disciplined:
  assumes P: "malloc_ok P"
  shows "ioq_wf q \<Longrightarrow> tame B q \<Longrightarrow> unat (nextOpId q) + n * B \<le> 2 ^ 64 - 2 \<Longrightarrow> run_single_await P n q"
proof (induction n arbitrary: q)
  case (Suc n)
  from Suc.prems(3) have nB: "unat (nextOpId q) + B \<le> 2 ^ 64 - 2" by simp
  note it = run_iteration_disciplined [OF Suc.prems(1) P Suc.prems(2) nB]
  show ?case
  proof (cases "run_iteration P q")
    case (Inl e)
    with it show ?thesis by (auto split: sum.splits prod.splits option.splits)
  next
    case (Inr q')
    with it have q': "tame B q'" "unat (nextOpId q') \<le> unat (nextOpId q) + B" by blast+
    have "ioq_wf q'" using run_iteration_wf [OF Suc.prems(1) P] it Inr by blast
    moreover have "unat (nextOpId q') + n * B \<le> 2 ^ 64 - 2" using q'(2) Suc.prems(3) by simp
    ultimately have "run_single_await P n q'" using q'(1) by (intro Suc.IH)
    with Inr it show ?thesis by (auto split: sum.splits prod.splits option.splits)
  qed
qed simp

lemma start_disciplined:
  assumes wf: "ioq_wf q" and P: "malloc_ok P" and t: "tame B q" and d: "disciplined B p B None"
    and n: "unat (nextOpId q) + B \<le> 2 ^ 64 - 2"
  shows "start_single_await P p q \<and>
    (\<forall>q'. start P p q = Inr q' \<longrightarrow> tame B q' \<and> unat (nextOpId q') \<le> unat (nextOpId q) + B)"
proof -
  let ?q = "q\<lparr>next_coro := Suc (next_coro q)\<rparr>"
  have "exec_tame P B p B (next_coro q) ?q"
    using wf wf_exceptD(4) [OF wf] t d n
    by (intro exec_disciplined [OF P, of "{}" _ _ _ _ _ None])
      (simp_all add: wf_except_def tame_def ids_below_def callers_ok_def free_handle_def)
  then show ?thesis by (simp add: exec_tame_def start_def start_single_await_def)
qed

lemma construct_tame:
  assumes "IoQueue_construct P sz r = Inr q"
  shows "nextOpId q = 0" "awaiters q = Map.empty" "completer_mem q = Map.empty"
  using assms
  by (auto simp: IoQueue_construct_def IoQueueImpl_def impl_init_def bindE_eq_Inr Let_def case_prod_unfold split: if_splits)

lemma construct_resumed: "IoQueue_construct P sz r = Inr q \<Longrightarrow> resumed q = []"
  by (auto simp: IoQueue_construct_def IoQueueImpl_def impl_init_def bindE_eq_Inr Let_def case_prod_unfold split: if_splits)

lemma construct_unregistered:
  assumes "init_ok P" "IoQueue_construct P sz r = Inr q"
  shows "cm_abs (completers q) = Map.empty"
proof
  fix i
  have "ioq_wf q" using construct_wf [OF assms] by blast
  then have "ran (cm_abs (completers q)) = {}" using wf_exceptD(3) construct_tame(3) [OF assms(2)] by (metis Un_empty_right dom_empty)
  then show "cm_abs (completers q) i = None" by (metis empty_iff not_None_eq ranI)
qed

text \<open>
  A queue on which \<open>s\<close> disciplined coroutines have been started or resumed. A program constructs the queue, starts its
  coroutines and runs the loop; each of these keeps the predicate.
\<close>

definition loop_ready :: "nat \<Rightarrow> nat \<Rightarrow> 'k io_queue \<Rightarrow> bool" where
  "loop_ready B s q \<longleftrightarrow> ioq_wf q \<and> tame B q \<and> unat (nextOpId q) \<le> s * B"

lemma loop_ready_construct:
  assumes "init_ok P" "IoQueue_construct P sz r = Inr q"
  shows "loop_ready B 0 q"
  using construct_wf [OF assms] construct_tame [OF assms(2)]
  by (simp add: loop_ready_def tame_def ids_below_def callers_ok_def construct_unregistered [OF assms])

lemma loop_ready_start:
  assumes P: "malloc_ok P" and q: "loop_ready B s q" and d: "disciplined B p B None" and n: "Suc s * B \<le> 2 ^ 64 - 2"
  shows "start P p q \<noteq> Inl UndefinedBehaviour" "start P p q = Inr q' \<Longrightarrow> loop_ready B (Suc s) q'"
proof -
  from q have w: "ioq_wf q" "tame B q" and u: "unat (nextOpId q) \<le> s * B" by (simp_all add: loop_ready_def)
  have b: "unat (nextOpId q) + B \<le> 2 ^ 64 - 2" using u n by simp
  note st = start_disciplined [OF w(1) P w(2) d b]
  note sw = start_wf [OF w(1) P conjunct1 [OF st]]
  from sw show "start P p q \<noteq> Inl UndefinedBehaviour" by blast
  show "loop_ready B (Suc s) q'" if "start P p q = Inr q'"
    using sw st that u by (auto simp: loop_ready_def intro: order_trans)
qed

lemma loop_ready_run:
  assumes P: "malloc_ok P" and q: "loop_ready B s q" and n: "(s + n) * B \<le> 2 ^ 64 - 2"
  shows "run P n q \<noteq> Some (Inl UndefinedBehaviour)"
    "run P n q = Some (Inr q') \<Longrightarrow> cm_abs (completers q') = Map.empty \<and> completer_mem q' = Map.empty"
proof -
  from q have w: "ioq_wf q" "tame B q" by (simp_all add: loop_ready_def)
  have b: "unat (nextOpId q) + n * B \<le> 2 ^ 64 - 2" using q n by (simp add: loop_ready_def add_mult_distrib)
  from run_wf [OF P w(1) run_disciplined [OF P w b]]
  have r: "run P n q \<noteq> Some (Inl UndefinedBehaviour)"
    "\<And>q'. run P n q = Some (Inr q') \<Longrightarrow> ioq_wf q' \<and> cm_size (completers q') = 0" by blast+
  from r(1) show "run P n q \<noteq> Some (Inl UndefinedBehaviour)" .
  show "cm_abs (completers q') = Map.empty \<and> completer_mem q' = Map.empty" if "run P n q = Some (Inr q')"
    using r(2) [OF that] cm_size_0_empty wf_exceptD(1,3) [of "{}" q'] by (metis Un_empty_right dom_eq_empty_conv ran_empty)
qed

text \<open>Everything a program with one disciplined coroutine can do up to \<open>n\<close> iterations of the loop.\<close>

lemma disciplined_loop:
  assumes P: "malloc_ok P" "init_ok P" and q0: "IoQueue_construct P sz r = Inr q0"
    and d: "disciplined B p B None" and n: "Suc n * B \<le> 2 ^ 64 - 2"
  shows "start P p q0 \<noteq> Inl UndefinedBehaviour \<and>
    (\<forall>q. start P p q0 = Inr q \<longrightarrow> run P n q \<noteq> Some (Inl UndefinedBehaviour) \<and>
      (\<forall>q'. run P n q = Some (Inr q') \<longrightarrow> cm_abs (completers q') = Map.empty \<and> completer_mem q' = Map.empty))"
proof -
  have n1: "Suc 0 * B \<le> 2 ^ 64 - 2" and n2: "(Suc 0 + n) * B \<le> 2 ^ 64 - 2" using n by simp_all
  note st = loop_ready_start [OF P(1) loop_ready_construct [OF P(2) q0] d n1]
  show ?thesis using st(1) loop_ready_run [OF P(1) st(2) n2] by blast
qed

end
