(* ===== verification/Result.thy ===== *)
theory Result
  imports Aiopp_Prelude
begin

text \<open>
  The result type of \<^verbatim>\<open>result.hpp\<close>: a variant that holds a value or an error. Accessing the alternative that is not
  held throws \<^verbatim>\<open>std::bad_variant_access\<close>, which is \<open>None\<close> here. A \<^verbatim>\<open>std::error_code\<close> of the generic category is its
  number.
\<close>

subsection \<open>Errors\<close>

record 'e error_wrapper =
  ew_value :: 'e

definition error :: "'e \<Rightarrow> 'e error_wrapper" where
  "error e = \<lparr>ew_value = e\<rparr>"

text \<open>\<open>errno\<close> is the value of the thread's error number.\<close>

definition errnoError :: "int \<Rightarrow> int error_wrapper" where
  "errnoError errno = error errno"

subsection \<open>Results\<close>

datatype ('t, 'e) result = HoldsValue 't | HoldsError 'e

text \<open>The constructors: \<open>init\<close> is \<^verbatim>\<open>T {}\<close>, \<open>conv\<close> the conversion of the error \<^verbatim>\<open>E { e.value }\<close>.\<close>

definition Result_default :: "'t \<Rightarrow> ('t, 'e) result" where
  "Result_default init = HoldsValue init"

definition Result_value :: "'t \<Rightarrow> ('t, 'e) result" where
  "Result_value t = HoldsValue t"

definition Result_error :: "('u \<Rightarrow> 'e) \<Rightarrow> 'u error_wrapper \<Rightarrow> ('t, 'e) result" where
  "Result_error conv e = HoldsError (conv (ew_value e))"

primrec result_index :: "('t, 'e) result \<Rightarrow> nat" where
  "result_index (HoldsValue t) = 0"
| "result_index (HoldsError e) = 1"

definition hasValue :: "('t, 'e) result \<Rightarrow> bool" where
  "hasValue r \<longleftrightarrow> result_index r = 0"

definition result_bool :: "('t, 'e) result \<Rightarrow> bool" where
  "result_bool r = hasValue r"

text \<open>\<open>value\<close> and \<open>error\<close>, and the two dereferencing operators, which call \<open>value\<close>.\<close>

primrec result_value :: "('t, 'e) result \<Rightarrow> 't option" where
  "result_value (HoldsValue t) = Some t"
| "result_value (HoldsError e) = None"

definition result_deref :: "('t, 'e) result \<Rightarrow> 't option" where
  "result_deref r = result_value r"

primrec result_error :: "('t, 'e) result \<Rightarrow> 'e option" where
  "result_error (HoldsValue t) = None"
| "result_error (HoldsError e) = Some e"

lemmas result_defs = error_def errnoError_def Result_default_def Result_value_def Result_error_def
  hasValue_def result_bool_def result_deref_def

subsection \<open>Lemmas\<close>

text \<open>Testing a result decides which access throws.\<close>

lemma result_bool_iff: "result_bool r \<longleftrightarrow> result_value r \<noteq> None" "result_bool r \<longleftrightarrow> result_error r = None"
  by (cases r; simp add: result_defs)+

lemma result_boolE:
  obtains t where "result_bool r" "result_deref r = Some t" "r = Result_value t"
  | e where "\<not> result_bool r" "result_error r = Some e" "r = Result_error (\<lambda>x. x) (error e)"
  by (cases r) (auto simp: result_defs)

lemma result_bool_simps [simp]:
  "result_bool (Result_value t)" "\<not> result_bool (Result_error conv e)"
  "result_deref (Result_value t) = Some t" "result_error (Result_error conv e) = Some (conv (ew_value e))"
  "result_value (Result_error conv e) = None" "result_deref (Result_error conv e) = None"
  by (simp_all add: result_defs)

end
