(* ===== verification/Operations.thy ===== *)
theory Operations
  imports Discipline Socket Result
begin

text \<open>
  The tasks of the queue that wrap a single operation (\<^verbatim>\<open>ioqueue.cpp\<close>, \<^verbatim>\<open>ioqueue_impl_iouring.cpp\<close>,
  \<^verbatim>\<open>eventfd.cpp\<close>): timeouts with their conversion of durations and time points, \<^verbatim>\<open>connect\<close> to an address with
  port, \<^verbatim>\<open>recvfrom\<close> and \<^verbatim>\<open>sendto\<close>, and reading an event file descriptor. A task that prepares a local structure
  is modelled by the contents of that structure, which lives in the coroutine frame at a given address, and
  the code that submits and awaits the operation; \<open>k\<close> is the code of the coroutine that awaits the task.
\<close>

subsection \<open>Time\<close>

record timespec =
  tv_sec :: int
  tv_nsec :: int

definition setTimespec_ms :: "int \<Rightarrow> timespec" where
  "setTimespec_ms ms = \<lparr>tv_sec = c_div ms 1000, tv_nsec = c_mod ms 1000 * 1000 * 1000\<rparr>"

text \<open>
  \<open>now\<close> and \<open>tp\<close> are times of the steady clock in nanoseconds, \<open>nowTs\<close> what \<^verbatim>\<open>clock_gettime\<close> returns; conversion to
  milliseconds truncates.
\<close>

definition setTimespec_tp :: "int \<Rightarrow> timespec \<Rightarrow> int \<Rightarrow> timespec outcome" where
  "setTimespec_tp now nowTs tp =
     assertE (tp \<le> now)
       (let deltaMs = c_div (tp - now) (1000 * 1000);
            s = tv_sec nowTs + c_div deltaMs 1000;
            ns = tv_nsec nowTs + c_mod deltaMs 1000 * 1000 * 1000
        in Inr \<lparr>tv_sec = s + c_div ns (1000 * 1000 * 1000), tv_nsec = c_mod ns (1000 * 1000 * 1000)\<rparr>)"

text \<open>A time as the kernel takes it, and its value in nanoseconds.\<close>

definition timespec_valid :: "timespec \<Rightarrow> bool" where
  "timespec_valid t \<longleftrightarrow> 0 \<le> tv_nsec t \<and> tv_nsec t < 1000000000"

definition timespec_ns :: "timespec \<Rightarrow> int" where
  "timespec_ns t = tv_sec t * 1000000000 + tv_nsec t"

subsection \<open>Tasks\<close>

text \<open>\<^verbatim>\<open>co_return co_await op\<close>: submit, await, pass the result on.\<close>

definition await_op :: "io_op \<Rightarrow> (io_result \<Rightarrow> prog) \<Rightarrow> prog" where
  "await_op oper k = Submit oper (\<lambda>h. Await h k)"

definition IORING_TIMEOUT_ABS :: int where
  "IORING_TIMEOUT_ABS = 1"

definition timeout_dur :: "u64 \<Rightarrow> int \<Rightarrow> (io_result \<Rightarrow> prog) \<Rightarrow> timespec \<times> prog" where
  "timeout_dur ts dur k = (setTimespec_ms dur, await_op (OpTimeout ts 0) k)"

definition timeout_tp :: "int \<Rightarrow> timespec \<Rightarrow> u64 \<Rightarrow> int \<Rightarrow> (io_result \<Rightarrow> prog) \<Rightarrow> (timespec \<times> prog) outcome" where
  "timeout_tp now nowTs ts tp k =
     bindE (setTimespec_tp now nowTs tp) (\<lambda>t. Inr (t, await_op (OpTimeout ts (word_of_int IORING_TIMEOUT_ABS)) k))"

definition timeout_dur_op :: "u64 \<Rightarrow> int \<Rightarrow> operation_handle \<Rightarrow> (io_result \<Rightarrow> prog) \<Rightarrow> timespec \<times> prog" where
  "timeout_dur_op ts dur h k = (setTimespec_ms dur, timeout_linked ts 0 h k)"

definition timeout_tp_op :: "int \<Rightarrow> timespec \<Rightarrow> u64 \<Rightarrow> int \<Rightarrow> operation_handle \<Rightarrow> (io_result \<Rightarrow> prog)
    \<Rightarrow> (timespec \<times> prog) outcome" where
  "timeout_tp_op now nowTs ts tp h k =
     bindE (setTimespec_tp now nowTs tp) (\<lambda>t. Inr (t, timeout_linked ts IORING_TIMEOUT_ABS h k))"

text \<open>The size of \<^verbatim>\<open>sockaddr_in\<close> is 16.\<close>

definition connect_sa :: "int \<Rightarrow> u64 \<Rightarrow> io_op" where
  "connect_sa sockfd sa = OpConnect sockfd sa 16"

definition connect_ipp :: "inet_api \<Rightarrow> u64 \<Rightarrow> int \<Rightarrow> IpAddressPort \<Rightarrow> (io_result \<Rightarrow> prog) \<Rightarrow> sockaddr_in \<times> prog" where
  "connect_ipp A sa sockfd a k =
     (\<lparr>sin_family = AF_INET A, sin_port = htons A (port a), s_addr = address a\<rparr>, await_op (connect_sa sockfd sa) k)"

record msghdr =
  iov_base :: u64
  iov_len :: u64
  msg_name :: u64
  msg_namelen :: u32
  msg_iovlen :: u64
  msg_control :: u64
  msg_controllen :: u64
  msg_flags :: int

definition MsgHdr :: "u64 \<Rightarrow> u64 \<Rightarrow> u64 \<Rightarrow> u32 \<Rightarrow> msghdr" where
  "MsgHdr buf n name_ptr addrLen =
     \<lparr>iov_base = buf, iov_len = n, msg_name = name_ptr, msg_namelen = addrLen, msg_iovlen = 1, msg_control = 0,
      msg_controllen = 0, msg_flags = 0\<rparr>"

definition recvfrom :: "u64 \<Rightarrow> int \<Rightarrow> u64 \<Rightarrow> u64 \<Rightarrow> int \<Rightarrow> u64 \<Rightarrow> u32 \<Rightarrow> (io_result \<Rightarrow> prog) \<Rightarrow> msghdr \<times> prog" where
  "recvfrom hdr sockfd buf n flags srcAddr addrLen k =
     (MsgHdr buf n srcAddr addrLen, await_op (OpRecvmsg sockfd hdr flags) k)"

definition sendto :: "u64 \<Rightarrow> int \<Rightarrow> u64 \<Rightarrow> u64 \<Rightarrow> int \<Rightarrow> u64 \<Rightarrow> u32 \<Rightarrow> (io_result \<Rightarrow> prog) \<Rightarrow> msghdr \<times> prog" where
  "sendto hdr sockfd buf n flags destAddr addrLen k =
     (MsgHdr buf n destAddr addrLen, await_op (OpSendmsg sockfd hdr flags) k)"

text \<open>
  Reading an event file descriptor: \<open>contents\<close> is what the kernel has written to the buffer at \<open>buf\<close>. The error is
  computed when the operation has failed.
\<close>

definition eventfd_read :: "int \<Rightarrow> u64 \<Rightarrow> u64 \<Rightarrow> ((u64, int) result outcome \<Rightarrow> prog) \<Rightarrow> prog" where
  "eventfd_read fd buf contents k =
     await_op (OpRead fd buf 8) (\<lambda>res.
       if io_result_ok res then k (Inr (Result_value contents))
       else k (bindE (io_result_error res) (\<lambda>e. Inr (Result_error (\<lambda>x. x) (error e)))))"

text \<open>A failing assertion ends the program, like awaiting an invalid handle does; so does \<^verbatim>\<open>std::abort\<close>.\<close>

definition failed_assertion :: prog where
  "failed_assertion = Await null_handle (\<lambda>_. Return)"

text \<open>
  What \<^verbatim>\<open>Channel::receive\<close> and \<^verbatim>\<open>IoQueue::wait\<close> do with the result of a read: an error is logged and the process
  aborted, otherwise the coroutine goes on with the value of the counter.
\<close>

definition read_or_abort :: "int \<Rightarrow> u64 \<Rightarrow> u64 \<Rightarrow> (u64 \<Rightarrow> prog) \<Rightarrow> prog" where
  "read_or_abort fd buf contents k =
     eventfd_read fd buf contents (\<lambda>r.
       case r of
         Inl e \<Rightarrow> failed_assertion
       | Inr res \<Rightarrow>
           if \<not> result_bool res then failed_assertion
           else case result_deref res of None \<Rightarrow> failed_assertion | Some v \<Rightarrow> k v)"

text \<open>
  \<^verbatim>\<open>Channel::receive\<close>: read the event file descriptor, then \<^verbatim>\<open>pop\<close>; \<open>ms\<close> is the queue of messages at that time.
\<close>

definition channel_receive :: "int \<Rightarrow> u64 \<Rightarrow> u64 \<Rightarrow> 'm list \<Rightarrow> ('m \<Rightarrow> prog) \<Rightarrow> prog" where
  "channel_receive fd buf contents ms k =
     read_or_abort fd buf contents (\<lambda>_. case ms of [] \<Rightarrow> failed_assertion | msg # _ \<Rightarrow> k msg)"

text \<open>
  \<^verbatim>\<open>IoQueue::wait\<close>: \<open>ready\<close> is what \<^verbatim>\<open>Future::ready\<close> returns, \<open>v\<close> what \<^verbatim>\<open>Future::get\<close> returns.
\<close>

definition ioq_wait :: "bool \<Rightarrow> int \<Rightarrow> u64 \<Rightarrow> u64 \<Rightarrow> 'v \<Rightarrow> ('v \<Rightarrow> prog) \<Rightarrow> prog" where
  "ioq_wait ready fd buf contents v k =
     (if ready then k v
      else read_or_abort fd buf contents (\<lambda>count. if count = 1 then k v else failed_assertion))"

subsection \<open>Discipline\<close>

named_theorems discipline \<open>the tasks keep the discipline of the event loop\<close>

lemma disciplined_await_op [discipline]:
  "disciplined B (await_op oper k) b x \<longleftrightarrow> 0 < b \<and> (\<forall>r. disciplined B (k r) B None)"
  by (simp add: await_op_def)

lemma disciplined_failed_assertion [discipline]: "disciplined B failed_assertion b x"
  by (simp add: failed_assertion_def)

lemma disciplined_read_or_abort [discipline]:
  assumes "0 < b" and "\<And>v. disciplined B (k v) B None"
  shows "disciplined B (read_or_abort fd buf contents k) b x"
  using assms
  by (simp add: read_or_abort_def eventfd_read_def disciplined_await_op disciplined_failed_assertion io_result_error_def)

lemma disciplined_timeout_linked [discipline]:
  "disciplined B (timeout_linked ts fl h k) b x \<longleftrightarrow> x = Some h \<and> (\<forall>r. disciplined B (k r) B None)"
  by (simp add: timeout_linked_def)

subsection \<open>Arithmetic of truncating division\<close>

lemma c_div_mod: "c_div a b * b + c_mod a b = a"
  by (simp add: c_mod_def)

lemma c_mod_neg: "a < 0 \<Longrightarrow> 0 < b \<Longrightarrow> c_mod a b = - ((- a) mod b)"
  by (simp add: c_mod_def c_div_def sgn_if minus_mult_div_eq_mod [symmetric] algebra_simps)

lemma c_mod_bounds:
  assumes "0 < b"
  shows "- b < c_mod a b" "c_mod a b < b" "0 \<le> c_mod a b \<longleftrightarrow> 0 \<le> a \<or> b dvd a"
proof -
  have "- b < c_mod a b \<and> c_mod a b < b \<and> (0 \<le> c_mod a b \<longleftrightarrow> 0 \<le> a \<or> b dvd a)"
  proof (cases "0 \<le> a")
    case True
    have "0 \<le> a mod b" "a mod b < b" using assms by simp_all
    with True assms show ?thesis by (simp add: c_mod_nonneg)
  next
    case False
    define m where "m = (- a) mod b"
    have m: "0 \<le> m" "m < b" using assms by (simp_all add: m_def)
    have z: "m = 0 \<longleftrightarrow> b dvd a" unfolding m_def by (metis dvd_eq_mod_eq_0 dvd_minus_iff)
    have "c_mod a b = - m" using False assms by (simp add: c_mod_neg m_def)
    with m z False show ?thesis by auto
  qed
  then show "- b < c_mod a b" "c_mod a b < b" "0 \<le> c_mod a b \<longleftrightarrow> 0 \<le> a \<or> b dvd a" by blast+
qed

subsection \<open>Properties\<close>

text \<open>
  A relative timeout is converted exactly: the result is the duration to the nanosecond, and it is a time the
  kernel accepts exactly when the duration is not negative or a whole number of seconds.
\<close>

theorem timespec_duration:
  "timespec_ns (setTimespec_ms ms) = ms * 1000000 \<and>
   (timespec_valid (setTimespec_ms ms) \<longleftrightarrow> 0 \<le> ms \<or> 1000 dvd ms)"
proof -
  have "c_div ms 1000 * 1000 + c_mod ms 1000 = ms" by (rule c_div_mod)
  then have "timespec_ns (setTimespec_ms ms) = ms * 1000000"
    by (simp add: timespec_ns_def setTimespec_ms_def)
  moreover have "timespec_valid (setTimespec_ms ms) \<longleftrightarrow> 0 \<le> ms \<or> 1000 dvd ms"
    using c_mod_bounds [of 1000 ms] by (auto simp: timespec_valid_def setTimespec_ms_def)
  ultimately show ?thesis by blast
qed

text \<open>
  An absolute timeout works only for time points that have passed. For a time point in the future the
  assertion, which compares the wrong way round, ends the program. For one in the past the result is the
  monotonic clock plus the truncated difference in milliseconds, but in a form the kernel refuses whenever
  the sub-second part of the difference takes more nanoseconds off than the clock shows.
\<close>

theorem timespec_deadline:
  assumes "timespec_valid nowTs"
  shows "if now < tp then setTimespec_tp now nowTs tp = Inl AssertionFailed
    else \<exists>t. setTimespec_tp now nowTs tp = Inr t \<and>
      timespec_ns t = timespec_ns nowTs + c_div (tp - now) 1000000 * 1000000 \<and>
      (timespec_valid t \<longleftrightarrow> 0 \<le> tv_nsec nowTs + c_mod (c_div (tp - now) 1000000) 1000 * 1000000)"
proof (cases "now < tp")
  case False
  define d where "d = c_div (tp - now) 1000000"
  define ns where "ns = tv_nsec nowTs + c_mod d 1000 * 1000000"
  define t where "t = \<lparr>tv_sec = tv_sec nowTs + c_div d 1000 + c_div ns 1000000000, tv_nsec = c_mod ns 1000000000\<rparr>"
  have r: "setTimespec_tp now nowTs tp = Inr t"
    using False by (simp add: setTimespec_tp_def t_def ns_def d_def Let_def mult.assoc)
  have "c_div d 1000 * 1000 + c_mod d 1000 = d" "c_div ns 1000000000 * 1000000000 + c_mod ns 1000000000 = ns"
    by (rule c_div_mod)+
  then have "timespec_ns t = timespec_ns nowTs + d * 1000000"
    unfolding timespec_ns_def t_def ns_def by simp
  moreover have "timespec_valid t \<longleftrightarrow> 0 \<le> ns"
  proof -
    have "- 1000000000 < ns" using assms c_mod_bounds(1) [of 1000 d] by (simp add: ns_def timespec_valid_def)
    then have "0 \<le> ns" if "1000000000 dvd ns" using that by (elim dvdE) simp
    then show ?thesis using c_mod_bounds [of 1000000000 ns] by (auto simp: timespec_valid_def t_def)
  qed
  ultimately show ?thesis using r False unfolding ns_def d_def by auto
qed (simp add: setTimespec_tp_def)

theorem timespec_deadline_witness:
  "\<exists>t. setTimespec_tp 5500000000 \<lparr>tv_sec = 5, tv_nsec = 500000000\<rparr> 4900000000 = Inr t \<and> \<not> timespec_valid t"
proof -
  have v: "timespec_valid \<lparr>tv_sec = 5, tv_nsec = 500000000\<rparr>" by (simp add: timespec_valid_def)
  have d: "c_mod (c_div (4900000000 - 5500000000) 1000000) 1000 = - 600" by (simp add: c_mod_def c_div_def)
  from timespec_deadline [OF v, of 5500000000 4900000000] show ?thesis unfolding d by auto
qed

end
