(* ===== verification/Servers.thy ===== *)
theory Servers
  imports Operations
begin

text \<open>
  The servers under \<^verbatim>\<open>examples/\<close>, which are the clients the library comes with: the echo server as coroutines
  and with callbacks, the HTTP server, the proxy and the UDP echo server. Each is the tree of the library calls
  it makes (\<open>prog\<close>). Loops that never end are unrolled: the bound \<open>n\<close> is the number of rounds after which
  the model stops; whatever such a server does in finitely many rounds is what the model does for a large
  enough bound. The addresses of buffers and other locals are parameters. Log output is left out.
\<close>

subsection \<open>Sending everything\<close>

text \<open>Linux: the error of an operation that was cancelled.\<close>

definition ECANCELED :: int where
  "ECANCELED = 125"

text \<open>
  \<^verbatim>\<open>sendAll\<close> of \<^verbatim>\<open>echo-tcp-coro.cpp\<close> and \<^verbatim>\<open>http-coro.cpp\<close>; the result is an error code, 0 for none, and whether the
  connection was closed.
\<close>

function sendAll :: "int \<Rightarrow> u64 \<Rightarrow> nat \<Rightarrow> nat \<Rightarrow> (int \<times> bool \<Rightarrow> prog) \<Rightarrow> prog" where
  "sendAll fd buf sz offset k =
     (if offset < sz
      then await_op (OpSend fd (buf + of_nat offset) (of_nat (sz - offset))) (\<lambda>sentBytes.
             if \<not> io_result_ok sentBytes then k (- sentBytes, False)
             else if sentBytes = 0 then k (0, True)
             else sendAll fd buf sz (offset + nat sentBytes) k)
      else k (0, False))"
  by pat_completeness auto
termination
  by (relation "measure (\<lambda>(fd, buf, sz, offset, k). sz - offset)") (auto simp: io_result_ok_def)

declare sendAll.simps [simp del]

subsection \<open>The echo server as coroutines\<close>

definition close_fd :: "int \<Rightarrow> prog" where
  "close_fd fd = await_op (OpClose fd) (\<lambda>_. Return)"

text \<open>
  One session. \<open>mem n\<close> is the address of the buffer of round \<open>n\<close>, \<open>bye\<close> that of the 23 characters sent when the
  session times out, \<open>ts\<close> that of the timeout.
\<close>

primrec echo :: "(nat \<Rightarrow> u64) \<Rightarrow> u64 \<Rightarrow> u64 \<Rightarrow> nat \<Rightarrow> int \<Rightarrow> prog" where
  "echo mem bye ts 0 fd = Return"
| "echo mem bye ts (Suc n) fd =
     Submit (OpRecv fd (mem n) 1024) (\<lambda>oper. snd (timeout_dur_op ts 5000 oper (\<lambda>receivedBytes.
       if \<not> io_result_ok receivedBytes \<and> - receivedBytes = ECANCELED
       then sendAll fd bye 23 0 (\<lambda>_. close_fd fd)
       else if \<not> io_result_ok receivedBytes then close_fd fd
       else if receivedBytes = 0 then close_fd fd
       else sendAll fd (mem n) (nat receivedBytes) 0 (\<lambda>(sendEc, eof).
              if sendEc \<noteq> 0 \<or> eof then close_fd fd else echo mem bye ts n fd))))"

text \<open>Accepting connections; every session is a coroutine of its own.\<close>

primrec serve :: "(nat \<Rightarrow> int \<Rightarrow> prog) \<Rightarrow> int \<Rightarrow> u64 \<Rightarrow> u64 \<Rightarrow> nat \<Rightarrow> prog" where
  "serve session listenSocket sa sockLen 0 = Return"
| "serve session listenSocket sa sockLen (Suc n) =
     await_op (OpAccept listenSocket sa sockLen) (\<lambda>fd.
       if \<not> io_result_ok fd then serve session listenSocket sa sockLen n
       else Start (session n fd) (\<lambda>_. serve session listenSocket sa sockLen n))"

definition echo_server :: "(nat \<Rightarrow> nat \<Rightarrow> u64) \<Rightarrow> u64 \<Rightarrow> (nat \<Rightarrow> u64) \<Rightarrow> int \<Rightarrow> nat \<Rightarrow> prog" where
  "echo_server mem bye ts listenSocket n = serve (\<lambda>i. echo (mem i) bye (ts i) n) listenSocket 0 0 n"

subsection \<open>The HTTP server\<close>

primrec startSession :: "(nat \<Rightarrow> u64) \<Rightarrow> u64 \<Rightarrow> nat \<Rightarrow> nat \<Rightarrow> int \<Rightarrow> prog" where
  "startSession mem response sz 0 fd = Return"
| "startSession mem response sz (Suc n) fd =
     await_op (OpRecv fd (mem n) 1024) (\<lambda>receivedBytes.
       if \<not> io_result_ok receivedBytes then close_fd fd
       else if receivedBytes = 0 then close_fd fd
       else sendAll fd response sz 0 (\<lambda>(sendEc, eof).
              if sendEc \<noteq> 0 \<or> eof then close_fd fd else startSession mem response sz n fd))"

definition http_server :: "(nat \<Rightarrow> nat \<Rightarrow> u64) \<Rightarrow> u64 \<Rightarrow> nat \<Rightarrow> int \<Rightarrow> nat \<Rightarrow> prog" where
  "http_server mem response sz listenSocket n = serve (\<lambda>i. startSession (mem i) response sz n) listenSocket 0 0 n"

text \<open>The text of the response.\<close>

definition crlf :: string where
  "crlf = [CHR 0x0D, CHR 0x0A]"

definition response_body :: string where
  "response_body = ''This is a short string that serves as a response''"

definition getResponse :: string where
  "getResponse =
     ''HTTP/1.1 200 OK'' @ crlf @ ''Server: aiopp coro'' @ crlf @ ''Content-Type: text/plain'' @ crlf @
     ''Content-Length: '' @ to_string (length response_body) @ crlf @ crlf @ response_body"

subsection \<open>The proxy\<close>

text \<open>
  One direction of a connection. The two \<^verbatim>\<open>Fd\<close> objects are shared with the other direction, which may release a
  descriptor while this one is suspended; \<open>recvSocket t\<close> and \<open>sendSocket t\<close> are the descriptors in the two objects when the
  direction submits its \<open>t\<close>-th operation. This \<^verbatim>\<open>sendAll\<close> does not look at a result of 0, so it need not end; \<open>n\<close> bounds
  the number of operations. Its result is an error code, 0 for none, here with the number of the next operation.
  \<open>rest\<close> is what the coroutine that awaits the direction does afterwards.
\<close>

primrec sendAll_proxy :: "nat \<Rightarrow> (nat \<Rightarrow> int) \<Rightarrow> nat \<Rightarrow> u64 \<Rightarrow> nat \<Rightarrow> nat \<Rightarrow> (int \<times> nat \<Rightarrow> prog) \<Rightarrow> prog" where
  "sendAll_proxy 0 socket t buf sz offset k = Return"
| "sendAll_proxy (Suc n) socket t buf sz offset k =
     (if offset < sz
      then await_op (OpSend (socket t) (buf + of_nat offset) (of_nat (sz - offset))) (\<lambda>sentBytes.
             if \<not> io_result_ok sentBytes then k (- sentBytes, Suc t)
             else sendAll_proxy n socket (Suc t) buf sz (offset + nat sentBytes) k)
      else k (0, t))"

definition SHUT_RDWR :: int where
  "SHUT_RDWR = 2"

definition relay_end :: "(nat \<Rightarrow> int) \<Rightarrow> (nat \<Rightarrow> int) \<Rightarrow> prog \<Rightarrow> nat \<Rightarrow> prog" where
  "relay_end recvSocket sendSocket rest t =
     await_op (OpShutdown (recvSocket t) SHUT_RDWR) (\<lambda>_. await_op (OpClose (recvSocket (t + 1))) (\<lambda>_.
       await_op (OpShutdown (sendSocket (t + 2)) SHUT_RDWR) (\<lambda>_. await_op (OpClose (sendSocket (t + 3))) (\<lambda>_. rest))))"

primrec relay :: "u64 \<Rightarrow> (nat \<Rightarrow> int) \<Rightarrow> (nat \<Rightarrow> int) \<Rightarrow> prog \<Rightarrow> nat \<Rightarrow> nat \<Rightarrow> prog" where
  "relay buf recvSocket sendSocket rest 0 = (\<lambda>t. Return)"
| "relay buf recvSocket sendSocket rest (Suc n) = (\<lambda>t.
     await_op (OpRecv (recvSocket t) buf 8192) (\<lambda>receivedBytes.
       if \<not> io_result_ok receivedBytes then relay_end recvSocket sendSocket rest (Suc t)
       else if receivedBytes = 0 then relay_end recvSocket sendSocket rest (Suc t)
       else sendAll_proxy n sendSocket (Suc t) buf (nat receivedBytes) 0 (\<lambda>(sendRes, t').
              if sendRes \<noteq> 0 then relay_end recvSocket sendSocket rest t' else relay buf recvSocket sendSocket rest n t')))"

text \<open>
  A connection. The address of the upstream server is a reference; it is \<open>None\<close> when the variable it refers to is gone, and
  then reading it is undefined. Connect to the upstream server with a timeout, then relay in both directions and wait for
  both with \<^verbatim>\<open>WaitAll\<close>: a helper coroutine awaits each direction and then reads the pointer it has captured out of its
  closure, a temporary of \<^verbatim>\<open>add\<close> that is gone by then (\<open>Wait\<close>), so that its rest is undefined as well. The two descriptors are not
  shared before the connection is made.
\<close>

definition helper_rest :: prog where
  "helper_rest = Undefined"

definition handleClient :: "(nat \<Rightarrow> u64) \<Rightarrow> IpAddressPort option \<Rightarrow> u64 \<Rightarrow> u64 \<Rightarrow> nat \<Rightarrow> (nat \<Rightarrow> int) \<times> (nat \<Rightarrow> int)
    \<Rightarrow> (nat \<Rightarrow> int) \<times> (nat \<Rightarrow> int) \<Rightarrow> int \<Rightarrow> int \<Rightarrow> prog" where
  "handleClient mem upstreamAddr sa ts n forward backward clientSocket upstreamSocket =
     (case upstreamAddr of
        None \<Rightarrow> Undefined
      | Some a \<Rightarrow>
          Submit (connect_sa upstreamSocket sa) (\<lambda>oper. snd (timeout_dur_op ts 2000 oper (\<lambda>connRes.
            if \<not> io_result_ok connRes
            then await_op (OpClose clientSocket) (\<lambda>_. await_op (OpClose upstreamSocket) (\<lambda>_. Return))
            else Start (relay (mem 0) (fst forward) (snd forward) helper_rest n 0) (\<lambda>_.
                   Start (relay (mem 1) (fst backward) (snd backward) helper_rest n 0) (\<lambda>_. Return))))))"

definition proxy_server :: "(nat \<Rightarrow> nat \<Rightarrow> u64) \<Rightarrow> IpAddressPort option \<Rightarrow> u64 \<Rightarrow> (nat \<Rightarrow> u64) \<Rightarrow> (nat \<Rightarrow> (nat \<Rightarrow> int) \<times> (nat \<Rightarrow> int))
    \<Rightarrow> (nat \<Rightarrow> (nat \<Rightarrow> int) \<times> (nat \<Rightarrow> int)) \<Rightarrow> (nat \<Rightarrow> int) \<Rightarrow> int \<Rightarrow> u64 \<Rightarrow> u64 \<Rightarrow> nat \<Rightarrow> prog" where
  "proxy_server mem upstreamAddr sa ts forward backward upstreamSocket listenSocket peer peerLen n =
     serve (\<lambda>i fd. handleClient (mem i) upstreamAddr sa (ts i) n (forward i) (backward i) fd (upstreamSocket i))
       listenSocket peer peerLen n"

subsection \<open>The echo server with callbacks\<close>

text \<open>\<^verbatim>\<open>OperationHandle::callback\<close>: a coroutine that awaits the operation and calls the function.\<close>

definition callback_op :: "operation_handle \<Rightarrow> (io_result \<Rightarrow> prog) \<Rightarrow> prog \<Rightarrow> prog" where
  "callback_op h func rest = Start (Await h func) (\<lambda>_. rest)"

definition session_close :: "int \<Rightarrow> prog" where
  "session_close fd = Submit (OpClose fd) (\<lambda>h. callback_op h (\<lambda>_. Return) Return)"

function sendResponse :: "int \<Rightarrow> u64 \<Rightarrow> nat \<Rightarrow> nat \<Rightarrow> prog \<Rightarrow> prog" where
  "sendResponse fd buf sz sendOffset receive =
     (if sendOffset < sz
      then Submit (OpSend fd (buf + of_nat sendOffset) (of_nat (sz - sendOffset))) (\<lambda>h. callback_op h (\<lambda>sentBytes.
             if \<not> io_result_ok sentBytes then session_close fd
             else if sentBytes = 0 then session_close fd
             else if sendOffset + nat sentBytes < sz then sendResponse fd buf sz (sendOffset + nat sentBytes) receive
             else receive) Return)
      else failed_assertion)"
  by pat_completeness auto
termination
  by (relation "measure (\<lambda>(fd, buf, sz, offset, k). sz - offset)") (auto simp: io_result_ok_def)

declare sendResponse.simps [simp del]

primrec receive :: "(nat \<Rightarrow> u64) \<Rightarrow> nat \<Rightarrow> int \<Rightarrow> prog \<Rightarrow> prog" where
  "receive mem 0 fd rest = rest"
| "receive mem (Suc n) fd rest =
     Submit (OpRecv fd (mem n) 2048) (\<lambda>h. callback_op h (\<lambda>readBytes.
       if \<not> io_result_ok readBytes then session_close fd
       else if readBytes = 0 then session_close fd
       else sendResponse fd (mem n) (nat readBytes) 0 (receive mem n fd Return)) rest)"

text \<open>\<open>accept\<close> tries again when the operation could not be submitted, after it has attached the callback to it.\<close>

primrec accept :: "(nat \<Rightarrow> nat \<Rightarrow> u64) \<Rightarrow> int \<Rightarrow> nat \<Rightarrow> prog" where
  "accept mem listenSocket 0 = Return"
| "accept mem listenSocket (Suc n) =
     Submit (OpAccept listenSocket 0 0) (\<lambda>h. callback_op h (\<lambda>fd.
       if \<not> io_result_ok fd then accept mem listenSocket n
       else receive (mem n) n fd (accept mem listenSocket n))
       (if oh_valid h then Return else accept mem listenSocket n))"

subsection \<open>The UDP echo servers\<close>

primrec udp_serve :: "(nat \<Rightarrow> u64) \<Rightarrow> u64 \<Rightarrow> u64 \<Rightarrow> int \<Rightarrow> nat \<Rightarrow> prog" where
  "udp_serve mem hdr clientAddr fd 0 = Return"
| "udp_serve mem hdr clientAddr fd (Suc n) =
     snd (recvfrom hdr fd (mem n) 1024 0 clientAddr 16 (\<lambda>receivedBytes.
       if \<not> io_result_ok receivedBytes then udp_serve mem hdr clientAddr fd n
       else snd (sendto hdr fd (mem n) (word_of_int receivedBytes) 0 clientAddr 16 (\<lambda>_.
              udp_serve mem hdr clientAddr fd n))))"

text \<open>
  With callbacks: \<^verbatim>\<open>Task::callback\<close> starts a coroutine that awaits the task, but the task is a temporary of the
  statement and is destroyed at its end, with the operation it waits for.
\<close>

definition callback_temporary :: "prog \<Rightarrow> prog" where
  "callback_temporary task = Start task (\<lambda>t. Destroy t Return)"

primrec udp_receive :: "u64 \<Rightarrow> u64 \<Rightarrow> u64 \<Rightarrow> int \<Rightarrow> nat \<Rightarrow> prog" where
  "udp_receive buf hdr clientAddr fd 0 = Return"
| "udp_receive buf hdr clientAddr fd (Suc n) =
     callback_temporary (snd (recvfrom hdr fd buf 1024 0 clientAddr 16 (\<lambda>receivedBytes.
       if \<not> io_result_ok receivedBytes then udp_receive buf hdr clientAddr fd n
       else callback_temporary (snd (sendto hdr fd buf (word_of_int receivedBytes) 0 clientAddr 16 (\<lambda>_.
              udp_receive buf hdr clientAddr fd n))))))"

subsection \<open>The channel and the resolver\<close>

text \<open>
  The coroutines of \<^verbatim>\<open>channel.cpp\<close> and \<^verbatim>\<open>resolve.cpp\<close> as the event loop sees them; what the threads do to the channel
  and to the future is in the models of these. In round \<open>n\<close> of a receiver the kernel writes \<open>contents n\<close> to the
  buffer at \<open>mem n\<close>, and the queue of the channel is \<open>ms n\<close> when the receiver takes its message.
\<close>

primrec receiver :: "int \<Rightarrow> (nat \<Rightarrow> u64) \<Rightarrow> (nat \<Rightarrow> u64) \<Rightarrow> (nat \<Rightarrow> string list) \<Rightarrow> nat \<Rightarrow> prog" where
  "receiver eventFd mem contents ms 0 = Return"
| "receiver eventFd mem contents ms (Suc n) =
     channel_receive eventFd (mem n) (contents n) (ms n) (\<lambda>msg. receiver eventFd mem contents ms n)"

primrec sender :: "u64 \<Rightarrow> nat \<Rightarrow> prog" where
  "sender ts 0 = Return"
| "sender ts (Suc n) = snd (timeout_dur ts 1000 (\<lambda>_. sender ts n))"

definition resolve_start :: "bool \<Rightarrow> int \<Rightarrow> u64 \<Rightarrow> u64 \<Rightarrow> IpAddress list \<Rightarrow> prog" where
  "resolve_start ready eventFd buf contents res = ioq_wait ready eventFd buf contents res (\<lambda>_. Return)"

subsection \<open>The servers keep the discipline\<close>

lemma disciplined_close [discipline]: "0 < b \<Longrightarrow> disciplined B (close_fd fd) b x"
  by (simp add: close_fd_def discipline)

lemma disciplined_sendAll:
  assumes "0 < B" and "\<And>y. disciplined B (k y) 1 None"
  shows "0 < b \<Longrightarrow> disciplined B (sendAll fd buf sz offset k) b None"
proof (induction "sz - offset" arbitrary: offset b rule: less_induct)
  case less
  have k: "disciplined B (k y) c None" if "0 < c" for y c using that by (intro disciplined_mono [OF assms(2)]) simp
  have "disciplined B (sendAll fd buf sz (offset + nat r) k) B None" if "offset < sz" "io_result_ok r" "r \<noteq> 0" for r
    using that assms(1) by (intro less.hyps) (auto simp: io_result_ok_def)
  with k less.prems assms(1) show ?case by (subst sendAll.simps) (auto simp: discipline)
qed

lemma disciplined_echo: "0 < B \<Longrightarrow> disciplined B (echo mem bye ts n fd) 1 None"
proof (induction n)
  case (Suc n)
  then show ?case
    by (auto simp: timeout_dur_op_def discipline io_result_ok_def intro!: disciplined_sendAll)
qed simp

lemma disciplined_startSession: "0 < B \<Longrightarrow> disciplined B (startSession mem response sz n fd) 1 None"
  by (induction n) (auto simp: discipline intro!: disciplined_sendAll)

lemma disciplined_serve:
  assumes "2 \<le> B" and "\<And>i fd. disciplined B (session i fd) 1 None"
  shows "disciplined B (serve session l sa sl n) 1 None"
proof (induction n)
  case (Suc n)
  have "disciplined B (serve session l sa sl n) B None" "disciplined B (serve session l sa sl n) (B - 1) None"
    using assms(1) by (auto intro: disciplined_mono [OF Suc])
  with assms show ?case by (auto simp: discipline intro!: exI [of _ 1])
qed simp

lemma disciplined_callback_op:
  "(\<And>r. disciplined B (func r) B None) \<Longrightarrow> disciplined B rest b None \<Longrightarrow> disciplined B (callback_op h func rest) b (Some h)"
  by (auto simp: callback_op_def intro!: exI [of _ 0])

lemma disciplined_session_close: "0 < b \<Longrightarrow> disciplined B (session_close fd) b x"
  by (auto simp: session_close_def intro!: disciplined_callback_op)

lemma disciplined_sendResponse:
  assumes "0 < B" and k: "disciplined B k 1 None"
  shows "0 < b \<Longrightarrow> offset < sz \<Longrightarrow> disciplined B (sendResponse fd buf sz offset k) b None"
proof (induction "sz - offset" arbitrary: offset b rule: less_induct)
  case less
  have kB: "disciplined B k B None" using assms(1) by (intro disciplined_mono [OF k]) simp
  have "disciplined B (sendResponse fd buf sz (offset + nat r) k) B None"
    if "io_result_ok r" "r \<noteq> 0" "offset + nat r < sz" for r
    using that assms(1) less.prems by (intro less.hyps) (auto simp: io_result_ok_def)
  with kB less.prems assms(1) show ?case
    by (subst sendResponse.simps) (auto intro!: disciplined_callback_op disciplined_session_close)
qed

lemma disciplined_receive:
  assumes "0 < B"
  shows "disciplined B rest b None \<Longrightarrow> disciplined B (receive mem n fd rest) (Suc b) None"
proof (induction n arbitrary: rest b)
  case 0
  then show ?case by (auto intro: disciplined_mono)
next
  case (Suc n)
  have "disciplined B (receive mem n fd Return) 1 None" using Suc.IH [of Return 0] by simp
  with Suc.prems assms show ?case
    by (auto simp: io_result_ok_def intro!: disciplined_callback_op disciplined_session_close disciplined_sendResponse)
qed

lemma disciplined_accept: "n < B \<Longrightarrow> n \<le> b \<Longrightarrow> disciplined B (accept mem l n) b None"
proof (induction n arbitrary: b)
  case (Suc n)
  have a: "disciplined B (accept mem l n) c None" if "n \<le> c" for c using that Suc by simp
  have "disciplined B (receive (mem n) n fd (accept mem l n)) B None" for fd
    using disciplined_mono [OF disciplined_receive [OF _ a [of n]]] Suc.prems by simp
  with a Suc.prems show ?case by (auto intro!: disciplined_callback_op)
qed simp

lemma disciplined_udp_serve: "0 < B \<Longrightarrow> 0 < b \<Longrightarrow> disciplined B (udp_serve mem hdr ca fd n) b None"
  by (induction n arbitrary: b) (auto simp: recvfrom_def sendto_def discipline)

lemma disciplined_udp_receive: "0 < B \<Longrightarrow> 0 < b \<Longrightarrow> disciplined B (udp_receive buf hdr ca fd n) b None"
proof (induction n arbitrary: b)
  case (Suc n)
  have t: "disciplined B (callback_temporary p) c None" if "disciplined B p c None" for p c
    using that by (auto simp: callback_temporary_def)
  from Suc show ?case by (auto simp: recvfrom_def sendto_def discipline intro!: t)
qed simp

lemma disciplined_receiver: "0 < B \<Longrightarrow> 0 < b \<Longrightarrow> disciplined B (receiver fd mem contents ms n) b None"
proof (induction n arbitrary: b)
  case (Suc n)
  then show ?case by (auto simp: channel_receive_def discipline split: list.split intro!: disciplined_read_or_abort)
qed simp

lemma disciplined_sender: "0 < B \<Longrightarrow> 0 < b \<Longrightarrow> disciplined B (sender ts n) b None"
  by (induction n arbitrary: b) (auto simp: timeout_dur_def discipline)

lemma disciplined_resolve_start: "0 < B \<Longrightarrow> disciplined B (resolve_start ready fd buf contents res) B None"
  by (auto simp: resolve_start_def ioq_wait_def discipline intro!: disciplined_read_or_abort)

subsection \<open>Properties\<close>

text \<open>
  The coroutines that the example programs start, each with some bound on its rounds. The proxy is not among them: its
  own code is undefined once it accepts a connection.
\<close>

inductive server :: "nat \<Rightarrow> prog \<Rightarrow> bool" where
  echo_tcp_coro: "server m (echo_server mem bye ts l m)"
| echo_tcp: "server m (accept mems l m)"
| http_coro: "server m (http_server mem response sz l m)"
| echo_udp_coro: "server m (udp_serve bufs hdr ca fd m)"
| echo_udp: "server m (udp_receive buf hdr ca fd m)"
| channel_receiver: "server m (receiver fd bufs contents ms m)"
| channel_sender: "server m (sender tsp m)"
| resolver: "server m (resolve_start ready fd buf count res)"

lemma server_disciplined:
  assumes "server m p"
  shows "disciplined (m + 2) p (m + 2) None"
  using assms
proof cases
  case echo_tcp_coro
  have "disciplined (m + 2) p 1 None"
    unfolding echo_tcp_coro echo_server_def by (intro disciplined_serve disciplined_echo) simp_all
  then show ?thesis by (rule disciplined_mono) simp
next
  case http_coro
  have "disciplined (m + 2) p 1 None"
    unfolding http_coro http_server_def by (intro disciplined_serve disciplined_startSession) simp_all
  then show ?thesis by (rule disciplined_mono) simp
qed (simp_all add: disciplined_accept disciplined_udp_serve disciplined_udp_receive disciplined_receiver disciplined_sender
    disciplined_resolve_start)

text \<open>
  The other servers of the repository are memory safe on the event loop. Whatever the kernel answers, however many
  sessions are open, for any number of rounds and of loop iterations until the operation ids are used up, no
  completer or awaiter is accessed after it is gone or deleted twice, and when the loop returns none is left.
\<close>

theorem servers_memory_safe:
  assumes P: "malloc_ok P" "init_ok P" and q0: "IoQueue_construct P sz r = Inr q0"
    and p: "server m p" and n: "Suc n * (m + 2) \<le> 2 ^ 64 - 2"
  shows "start P p q0 \<noteq> Inl UndefinedBehaviour \<and>
    (\<forall>q. start P p q0 = Inr q \<longrightarrow> run P n q \<noteq> Some (Inl UndefinedBehaviour) \<and>
      (\<forall>q'. run P n q = Some (Inr q') \<longrightarrow> cm_abs (completers q') = Map.empty \<and> completer_mem q' = Map.empty))"
  using disciplined_loop [OF P q0 server_disciplined [OF p] n] .

theorem servers_memory_safe_witness:
  "start sim_platform (echo_server (\<lambda>_ _. 4096) 8192 (\<lambda>_. 64) 3 100) sim_queue \<noteq> Inl UndefinedBehaviour"
  using servers_memory_safe [OF sim_malloc_ok sim_init_ok sim_construct
      server.echo_tcp_coro [of 100 "\<lambda>_ _. 4096" 8192 "\<lambda>_. 64" 3], of 1000] by simp

lemma cm_empty_size: "cm_inv m \<Longrightarrow> cm_abs m = Map.empty \<Longrightarrow> cm_size m = 0"
proof -
  assume inv: "cm_inv m" and e: "cm_abs m = Map.empty"
  have "\<not> is_live x" if "x \<in> set (cm_entries m)" for x
    using that cm_abs_iff [OF inv, of "entry_key x" "entry_value x"] e by (auto simp: in_set_conv_nth)
  then have "live_count m = 0" by (simp add: live_count_def filter_empty_conv)
  then have "unat (cm_count m) = 0" using inv by (simp add: cm_inv_def)
  then show ?thesis by (simp add: cm_size_def unat_eq_0)
qed

text \<open>What attaching a callback to a temporary task leaves registered: nothing new.\<close>

lemma temporary_cancelled:
  assumes wf: "ioq_wf q" and P: "malloc_ok P" and t: "tame B q" and n: "unat (nextOpId q) < 2 ^ 64 - 2"
    and e: "exec P (callback_temporary (await_op oper f)) c q = Inr q'"
  shows "cm_abs (completers q') i = Some p \<Longrightarrow> cm_abs (completers q) i = Some p"
    and "awaiters q' = awaiters q"
proof -
  let ?q0 = "q\<lparr>next_coro := Suc (next_coro q)\<rparr>" and ?t = "next_coro q"
  have w0: "ioq_wf ?q0" using wf by (simp add: wf_except_def)
  obtain h q1 where q1: "submit P oper ?q0 = Inr (h, q1)" "core q1 = core ?q0"
    using submit_core [OF wf_exceptD(2) [OF w0]] by blast
  note c1 = core_eqD [OF q1(2)]
  have w1: "ioq_wf q1" using w0 wf_core [OF q1(2)] by blast
  have h: "h = null_handle \<or> oh_id h = nextOpId q"
    using submit_ids(2) [OF q1(1)] getNextOpId_plain(1) [OF n] by auto
  have "cm_abs (completers q) (nextOpId q) = None" using t by (auto simp: tame_def ids_below_def)
  with h free_handle_null [OF w1] c1(1) have once: "cm_abs (completers q1) (oh_id h) = None" by (auto simp: free_handle_def)
  from e q1(1) obtain q2 where q2: "await_suspend P h f ?t q1 = Inr q2" "destroy_awaiter P ?t q2 = Inr q'"
    by (auto simp: callback_temporary_def await_op_def bindE_eq_Inr)
  have none: "finite ({} :: u64 set)" "card ({} :: u64 set) \<le> 1" by simp_all
  note a = await_suspend_ids [OF w1 none P once q2(1)]
  have "?t < next_coro q1" "awaiters q1 ?t = None" using wf_exceptD(4) [OF wf, of ?t] c1(3,4) by simp_all
  from await_suspend_wf [OF w1 none P this once] q2(1) have w2: "ioq_wf q2" by blast
  have at: "awaiters q2 ?t = Some \<lparr>aw_operation = h, aw_caller = f, aw_result = IoResult_default\<rparr>" using a(3) by simp
  from cancel_wf [OF w2 a(2), of P True] obtain h' q3 where
    q3: "ioq_cancel P h True q2 = Inr (h', q3)" "cm_abs (completers q3) = (cm_abs (completers q2))(oh_id h := None)" by auto
  have "completers q' = completers q3" using q2(2) at a(2) q3(1) by (auto simp: destroy_awaiter_def)
  then show "cm_abs (completers q') i = Some p \<Longrightarrow> cm_abs (completers q) i = Some p"
    using q3(2) a(4) [of i p] c1(1) by (auto split: if_splits)
  from destroy_awaiter_wf [OF w2, of P ?t] q2(2) have "awaiters q' = (awaiters q2)(?t := None)" by auto
  then show "awaiters q' = awaiters q"
    using a(3) c1(3) wf_exceptD(4) [OF wf, of ?t] by (simp add: fun_upd_idem)
qed

text \<open>
  C38: The UDP server with callbacks stops at once. The task it attaches its callback to is a temporary, whose
  destruction cancels the receive operation: after the server has been started no operation is awaited, the
  loop returns without an iteration, and no callback is ever called.
\<close>

theorem udp_callback_server_stops:
  assumes P: "malloc_ok P" "init_ok P" and q0: "IoQueue_construct P sz r = Inr q0"
    and st: "start P (udp_receive buf hdr ca fd (Suc m)) q0 = Inr q"
  shows "run P (Suc n) q = Some (Inr q) \<and> awaiters q = Map.empty \<and> resumed q = []"
proof -
  let ?p = "udp_receive buf hdr ca fd (Suc m)" and ?q = "q0\<lparr>next_coro := Suc (next_coro q0)\<rparr>"
  note c = construct_tame [OF q0]
  from construct_wf [OF P(2) q0] have wf0: "ioq_wf q0" by blast
  have e0: "cm_abs (completers q0) = Map.empty" by (rule construct_unregistered [OF P(2) q0])
  have t0: "tame 1 q0" by (simp add: tame_def ids_below_def callers_ok_def c(2) e0)
  then have t: "tame 1 ?q" by (simp add: tame_def ids_below_def callers_ok_def)
  have w: "ioq_wf ?q" using wf0 by (simp add: wf_except_def)
  have d: "disciplined 1 ?p 1 None" by (rule disciplined_udp_receive) simp_all
  have ss: "start_single_await P ?p q0"
    using start_disciplined [OF wf0 P(1) t0 d] c(1) by simp
  have wq: "ioq_wf q" using start_wf [OF wf0 P(1) ss] st by blast
  have "resumed q = resumed q0"
    using exec_wf [OF P(1), of "{}" ?q "next_coro q0" ?p] w ss st c(2)
    by (simp add: start_def start_single_await_def exec_safe_def)
  moreover have "resumed q0 = []" by (rule construct_resumed [OF q0])
  moreover obtain f where ex: "exec P (callback_temporary (await_op (OpRecvmsg fd hdr 0) f)) (next_coro q0) ?q = Inr q"
    using st by (auto simp: start_def recvfrom_def)
  have n0: "unat (nextOpId ?q) < 2 ^ 64 - 2" using c(1) by simp
  note tc = temporary_cancelled [OF w P(1) t n0 ex]
  have "cm_abs (completers q) i = None" for i using tc(1) [of i] e0 by (cases "cm_abs (completers q) i") auto
  then have "cm_size (completers q) = 0" by (intro cm_empty_size wf_exceptD(1) [OF wq]) auto
  then have "run P (Suc n) q = Some (Inr q)" by simp
  moreover have "awaiters q = Map.empty" using tc(2) c(2) by simp
  ultimately show ?thesis by simp
qed

lemma sim_udp_start: "\<exists>q. start sim_platform (udp_receive 4096 64 128 3 1) sim_queue = Inr q"
proof -
  let ?q = "sim_queue\<lparr>next_coro := 2\<rparr>"
  define f where "f = (\<lambda>receivedBytes. if \<not> io_result_ok receivedBytes then udp_receive 4096 64 128 3 0
       else callback_temporary (snd (sendto 64 3 4096 (word_of_int receivedBytes) 0 128 16 (\<lambda>_. udp_receive 4096 64 128 3 0))))"
  have w: "ioq_wf sim_queue" using construct_wf [OF sim_init_ok sim_construct] by blast
  then have w0: "ioq_wf ?q" by (simp add: wf_except_def sim_queue_def)
  obtain q1 where sub: "submit sim_platform (OpRecvmsg 3 64 0) ?q = Inr (\<lparr>oh_io = True, oh_id = 0\<rparr>, q1)"
    unfolding submit.simps ioq_recvmsg_def prepareRecvmsg_def prepare_fill if_sqe_fill on_ring_def
    by (simp add: fill_initialized finalizeSqe_def getNextOpId_def finalizeSqe_id_def sim_defs)
  with submit_core [OF wf_exceptD(2) [OF w0], of sim_platform "OpRecvmsg 3 64 0"] have c1: "core q1 = core ?q" by simp
  note d1 = core_eqD [OF c1]
  have w1: "ioq_wf q1" using w0 wf_core [OF c1] by blast
  have "completer_mem q1 = Map.empty" "completers q1 = completers sim_queue" using d1 by (simp_all add: sim_queue_def)
  moreover have "cm_insert (completers sim_queue) 0 1 = Inr (completers sim_waiting)"
    by (simp add: cm_insert_def cm_size_def cm_capacity_def probe_index_def Empty_def upt_53 sim_defs)
  ultimately obtain q2 where q2: "await_suspend sim_platform \<lparr>oh_io = True, oh_id = 0\<rparr> f 1 q1 = Inr q2"
    by (simp add: await_suspend_def setCompleter_def oh_valid_def sim_platform_def first_free.simps OpIdInvalid_def)
  have none: "finite ({} :: u64 set)" "card ({} :: u64 set) \<le> 1" by simp_all
  have "cm_abs (completers q1) (oh_id \<lparr>oh_io = True, oh_id = 0\<rparr>) = None" "1 < next_coro q1" "awaiters q1 1 = None"
    using construct_unregistered [OF sim_init_ok sim_construct] d1 by (simp_all add: sim_queue_def)
  from await_suspend_wf [OF w1 none sim_malloc_ok this(2,3,1)] q2 have w2: "ioq_wf q2" by blast
  from destroy_awaiter_wf [OF w2, of sim_platform 1] obtain q3 where "destroy_awaiter sim_platform 1 q2 = Inr q3" by blast
  with sub q2 show ?thesis
    by (simp add: start_def callback_temporary_def await_op_def recvfrom_def f_def sim_queue_def numeral_2_eq_2)
qed

theorem udp_callback_server_stops_witness:
  "\<exists>q. start sim_platform (udp_receive 4096 64 128 3 1) sim_queue = Inr q \<and> run sim_platform 1 q = Some (Inr q) \<and> resumed q = []"
proof -
  from sim_udp_start obtain q where q: "start sim_platform (udp_receive 4096 64 128 3 (Suc 0)) sim_queue = Inr q" by auto
  from udp_callback_server_stops [OF sim_malloc_ok sim_init_ok sim_construct q, of 0] q show ?thesis by auto
qed

end
