(* ===== verification/Sessions.thy ===== *)
theory Sessions
  imports Servers "HOL-Library.Sublist"
begin

text \<open>
  What the sessions of the servers send and receive. A coroutine is driven by replies of the kernel, over a
  memory of bytes: a receive operation writes into the buffer, a send operation reads from it. The
  specification of a session is a relation between the bytes it receives and those it sends; the echo
  sessions in both styles, the HTTP session and the proxy are proved to implement it.
\<close>

subsection \<open>Memory\<close>

type_synonym memory = "u64 \<Rightarrow> u8"

definition peek :: "memory \<Rightarrow> u64 \<Rightarrow> nat \<Rightarrow> u8 list" where
  "peek m a n = map (\<lambda>i. m (a + of_nat i)) [0..<n]"

definition poke :: "memory \<Rightarrow> u64 \<Rightarrow> u8 list \<Rightarrow> memory" where
  "poke m a bs = (\<lambda>x. if unat (x - a) < length bs then bs ! unat (x - a) else m x)"

text \<open>Two regions have no byte in common.\<close>

definition apart :: "u64 \<Rightarrow> nat \<Rightarrow> u64 \<Rightarrow> nat \<Rightarrow> bool" where
  "apart a n b l \<longleftrightarrow> (\<forall>j<l. n \<le> unat (b + of_nat j - a))"

lemma length_peek [simp]: "length (peek m a n) = n"
  by (simp add: peek_def)

lemma nth_peek: "i < n \<Longrightarrow> peek m a n ! i = m (a + of_nat i)"
  by (simp add: peek_def)

lemma drop_peek: "drop k (peek m a n) = peek m (a + of_nat k) (n - k)"
proof (rule nth_equalityI)
  fix i assume "i < length (drop k (peek m a n))"
  then have "k + i < n" "i < n - k" "k \<le> n" by simp_all
  then show "drop k (peek m a n) ! i = peek m (a + of_nat k) (n - k) ! i" by (simp add: nth_peek add.assoc)
qed simp

lemma take_peek: "take k (peek m a n) = peek m a (min k n)"
  by (rule nth_equalityI) (simp_all add: peek_def)

lemma peek_poke: "length bs < 2 ^ 64 \<Longrightarrow> peek (poke m a bs) a (length bs) = bs"
  by (rule nth_equalityI) (simp_all add: peek_def poke_def unat_of_nat_u64)

lemma peek_poke_apart: "apart a n b l \<Longrightarrow> length bs \<le> n \<Longrightarrow> peek (poke m a bs) b l = peek m b l"
  by (rule nth_equalityI) (auto simp: peek_def poke_def apart_def)

text \<open>The bytes of a text.\<close>

definition bytes_of :: "string \<Rightarrow> u8 list" where
  "bytes_of s = map of_char s"

subsection \<open>Replies and transcripts\<close>

text \<open>
  \<open>Fail e\<close> is the error \<open>e + 1\<close>; \<open>Bytes bs\<close> is, for a receive operation, the data that has arrived, of which it
  takes what fits, and for others the number of bytes the kernel accepts.
\<close>

datatype reply = Fail nat | Bytes "u8 list"

datatype io_event =
    Received "u8 list"
  | Sent "u8 list"
  | Blocked "io_op option"

fun answer :: "io_op option \<Rightarrow> reply \<Rightarrow> memory \<Rightarrow> io_result \<times> io_event list \<times> memory" where
  "answer x (Fail e) m = (- (int e + 1), [], m)"
| "answer (Some (OpRecv fd buf n)) (Bytes bs) m =
     (let d = take (unat n) bs in (int (length d), [Received d], poke m buf d))"
| "answer (Some (OpSend fd buf n)) (Bytes bs) m =
     (let c = min (length bs) (unat n) in (int c, [Sent (peek m buf c)], m))"
| "answer x (Bytes bs) m = (int (length bs), [], m)"

text \<open>
  The transcript of a coroutine, or of the coroutine it starts for a callback, until the replies are used up.
  Every operation is taken to have been submitted.
\<close>

definition some_handle :: operation_handle where
  "some_handle = \<lparr>oh_io = True, oh_id = 0\<rparr>"

primrec talk :: "prog \<Rightarrow> io_op option \<Rightarrow> memory \<Rightarrow> reply list \<Rightarrow> io_event list" where
  "talk Return = (\<lambda>x m rs. [])"
| "talk (Submit oper k) = (\<lambda>x m rs. talk (k some_handle) (Some oper) m rs)"
| "talk (LinkedTimeout ts fl h k) = (\<lambda>x m rs. talk (k h) x m rs)"
| "talk (Await h k) = (\<lambda>x m rs.
     case rs of
       [] \<Rightarrow> [Blocked x]
     | rep # rs' \<Rightarrow> (case answer x rep m of (r, evs, m') \<Rightarrow> evs @ talk (k r) None m' rs'))"
| "talk (CancelOp h b k) = (\<lambda>x m rs. talk (k some_handle) None m rs)"
| "talk (Start p k) = (\<lambda>x m rs. talk p x m rs)"
| "talk (Destroy d p) = (\<lambda>x m rs. talk p x m rs)"
| "talk Undefined = (\<lambda>x m rs. [])"

fun sent :: "io_event list \<Rightarrow> u8 list" where
  "sent [] = []"
| "sent (Sent bs # es) = bs @ sent es"
| "sent (e # es) = sent es"

text \<open>What is expected to be sent: \<open>g\<close> of every piece of data that was received.\<close>

fun expected :: "(u8 list \<Rightarrow> u8 list) \<Rightarrow> io_event list \<Rightarrow> u8 list" where
  "expected g [] = []"
| "expected g (Received d # es) = (if d = [] then [] else g d) @ expected g es"
| "expected g (e # es) = expected g es"

fun is_recv :: "io_op option \<Rightarrow> bool" where
  "is_recv (Some (OpRecv _ _ _)) = True"
| "is_recv _ = False"

definition asks_more :: "io_event list \<Rightarrow> bool" where
  "asks_more evs \<longleftrightarrow> (\<exists>x. Blocked x \<in> set evs \<and> is_recv x)"

text \<open>
  The specification: nothing is sent that is not expected, in order, except for \<open>extra\<close> at the end, and whenever
  the session waits for more data it has sent all it owes.
\<close>

definition serves :: "(u8 list \<Rightarrow> u8 list) \<Rightarrow> u8 list \<Rightarrow> io_event list \<Rightarrow> bool" where
  "serves g extra evs \<longleftrightarrow> prefix (sent evs) (expected g evs @ extra) \<and> (asks_more evs \<longrightarrow> sent evs = expected g evs)"

lemma sent_append [simp]: "sent (es @ fs) = sent es @ sent fs"
  by (induction es rule: sent.induct) simp_all

lemma expected_append [simp]: "expected g (es @ fs) = expected g es @ expected g fs"
  by (induction g es rule: expected.induct) simp_all

lemma asks_more_append [simp]: "asks_more (es @ fs) \<longleftrightarrow> asks_more es \<or> asks_more fs"
  by (auto simp: asks_more_def)

lemma asks_more_simps [simp]: "\<not> asks_more []" "asks_more (Received d # es) \<longleftrightarrow> asks_more es"
    "asks_more (Sent d # es) \<longleftrightarrow> asks_more es" "asks_more (Blocked x # es) \<longleftrightarrow> is_recv x \<or> asks_more es"
  by (auto simp: asks_more_def)

lemma serves_silent: "sent evs = [] \<Longrightarrow> expected g evs = [] \<Longrightarrow> serves g extra evs"
  by (simp add: serves_def)

lemma talk_await_op:
  "talk (await_op oper k) x m rs =
     (case rs of
        [] \<Rightarrow> [Blocked (Some oper)]
      | rep # rs' \<Rightarrow> (case answer (Some oper) rep m of (r, evs, m') \<Rightarrow> evs @ talk (k r) None m' rs'))"
  by (simp add: await_op_def)

lemma talk_callback_op:
  "talk (callback_op h f rest) x m rs =
     (case rs of
        [] \<Rightarrow> [Blocked x]
      | rep # rs' \<Rightarrow> (case answer x rep m of (r, evs, m') \<Rightarrow> evs @ talk (f r) None m' rs'))"
  by (simp add: callback_op_def)

subsection \<open>Sending everything\<close>

text \<open>
  The transcript of sending the region of \<open>sz\<close> bytes at \<open>buf\<close> from \<open>offset\<close> on, up to the point where the loop
  returns \<open>y\<close>, or where the replies are used up.
\<close>

definition sends :: "memory \<Rightarrow> u64 \<Rightarrow> nat \<Rightarrow> nat \<Rightarrow> bool \<Rightarrow> io_event list \<Rightarrow> bool" where
  "sends m buf sz offset all_sent evs \<longleftrightarrow>
     prefix (sent evs) (drop offset (peek m buf sz)) \<and> (\<forall>g. expected g evs = []) \<and> \<not> asks_more evs \<and>
     (all_sent \<longrightarrow> sent evs = drop offset (peek m buf sz))"

lemma sends_step:
  assumes "c \<le> sz - offset" and "sends m buf sz (offset + c) b evs"
  shows "sends m buf sz offset b (Sent (peek m (buf + of_nat offset) c) # evs)"
proof -
  have "drop offset (peek m buf sz) = peek m (buf + of_nat offset) c @ drop (offset + c) (peek m buf sz)"
  proof -
    have "drop offset (peek m buf sz) = take c (drop offset (peek m buf sz)) @ drop c (drop offset (peek m buf sz))"
      by (rule append_take_drop_id [symmetric])
    also have "take c (drop offset (peek m buf sz)) = peek m (buf + of_nat offset) c"
      using assms(1) by (simp add: drop_peek take_peek)
    finally show ?thesis by (simp add: add.commute)
  qed
  with assms(2) show ?thesis by (simp add: sends_def)
qed

text \<open>
  A loop that sends is described by what it has sent, \<open>evs\<close>, and what follows: either it ended with a result
  \<open>y\<close>, everything having been sent if \<open>ok y\<close>, and \<open>tail\<close> is what is done with the result, or it was stopped (\<open>early\<close>).
\<close>

definition send_ends :: "memory \<Rightarrow> u64 \<Rightarrow> nat \<Rightarrow> nat \<Rightarrow> ('y \<Rightarrow> prog) \<Rightarrow> ('y \<Rightarrow> bool) \<Rightarrow> bool \<Rightarrow> io_event list
    \<Rightarrow> io_event list \<Rightarrow> bool" where
  "send_ends m buf sz offset k ok early evs tail \<longleftrightarrow>
     (\<exists>y rs'. tail = talk (k y) None m rs' \<and> sends m buf sz offset (ok y) evs) \<or>
     early \<and> tail = [] \<and> sends m buf sz offset False evs"

lemma send_endsI:
  "sends m buf sz offset b evs \<Longrightarrow> b = ok y \<Longrightarrow> send_ends m buf sz offset k ok early evs (talk (k y) None m rs')"
  unfolding send_ends_def by blast

lemma send_ends_step:
  assumes "send_ends m buf sz (offset + c) k ok early evs tail" "c \<le> sz - offset" "early \<longrightarrow> early'"
  shows "send_ends m buf sz offset k ok early' (Sent (peek m (buf + of_nat offset) c) # evs) tail"
  using assms(1,3) sends_step [OF assms(2)] unfolding send_ends_def by blast

definition all_ok :: "int \<times> bool \<Rightarrow> bool" where
  "all_ok y \<longleftrightarrow> y = (0, False)"

lemma talk_sendAll:
  assumes "sz < 2 ^ 64" "offset \<le> sz"
  shows "\<exists>evs tail. talk (sendAll fd buf sz offset k) None m rs = evs @ tail \<and> send_ends m buf sz offset k all_ok (length rs < sz - offset) evs tail"
  using assms(2)
proof (induction rs arbitrary: offset)
  case Nil
  show ?case
  proof (cases "offset < sz")
    case True
    then show ?thesis
      by (intro exI [of _ "[Blocked (Some (OpSend fd (buf + of_nat offset) (of_nat (sz - offset))))]"] exI [of _ "[]"])
        (simp add: sendAll.simps talk_await_op send_ends_def sends_def)
  next
    case False
    with Nil have "sends m buf sz offset (all_ok (0, False)) []" by (simp add: sends_def all_ok_def)
    then show ?thesis using False send_endsI [of m buf sz offset _ "[]" all_ok "(0, False)"]
      by (intro exI [of _ "[]"] exI [of _ "talk (k (0, False)) None m []"]) (simp add: sendAll.simps)
  qed
next
  case (Cons rep rs)
  show ?case
  proof (cases "offset < sz")
    case True
    have u: "unat (of_nat (sz - offset) :: u64) = sz - offset" using assms(1) by (intro unat_of_nat_u64) simp
    show ?thesis
    proof (cases rep)
      case (Fail e)
      have "sends m buf sz offset (all_ok (int e + 1, False)) []" by (simp add: sends_def all_ok_def)
      from send_endsI [OF this, of all_ok "(int e + 1, False)"] Fail show ?thesis
        using True by (intro exI [of _ "[]"] exI [of _ "talk (k (int e + 1, False)) None m rs"])
          (simp add: sendAll.simps talk_await_op io_result_ok_def add.commute)
    next
      case (Bytes bs)
      define c where "c = min (length bs) (sz - offset)"
      have ans: "answer (Some (OpSend fd (buf + of_nat offset) (of_nat (sz - offset)))) rep m =
        (int c, [Sent (peek m (buf + of_nat offset) c)], m)" using Bytes u by (simp add: c_def Let_def)
      show ?thesis
      proof (cases "c = 0")
        case True
        have "sends m buf sz offset (all_ok (0, True)) [Sent []]" by (simp add: sends_def all_ok_def)
        from send_endsI [OF this, of all_ok "(0, True)"] True ans \<open>offset < sz\<close> show ?thesis
          by (intro exI [of _ "[Sent []]"] exI [of _ "talk (k (0, True)) None m rs"])
            (simp add: sendAll.simps [of _ _ _ offset] talk_await_op io_result_ok_def peek_def)
      next
        case False
        then have c: "offset + c \<le> sz" "c \<le> sz - offset" "0 < c" using True by (simp_all add: c_def)
        from Cons.IH [OF c(1)] obtain evs tail where
          t: "talk (sendAll fd buf sz (offset + c) k) None m rs = evs @ tail"
          "send_ends m buf sz (offset + c) k all_ok (length rs < sz - (offset + c)) evs tail" by blast
        have "talk (sendAll fd buf sz offset k) None m (rep # rs) =
          (Sent (peek m (buf + of_nat offset) c) # evs) @ tail"
          using True False ans t(1) by (subst sendAll.simps) (simp add: talk_await_op io_result_ok_def)
        moreover have "length rs < sz - (offset + c) \<longrightarrow> length (rep # rs) < sz - offset" using c(3) by auto
        ultimately show ?thesis using send_ends_step [OF t(2) c(2)] by blast
      qed
    qed
  next
    case False
    with Cons.prems have "sends m buf sz offset (all_ok (0, False)) []" by (simp add: sends_def all_ok_def)
    then show ?thesis using False send_endsI [of m buf sz offset _ "[]" all_ok "(0, False)"]
      by (intro exI [of _ "[]"] exI [of _ "talk (k (0, False)) None m (rep # rs)"]) (simp add: sendAll.simps)
  qed
qed

subsection \<open>Sessions\<close>

definition silent :: "io_event list \<Rightarrow> bool" where
  "silent evs \<longleftrightarrow> sent evs = [] \<and> (\<forall>g. expected g evs = []) \<and> \<not> asks_more evs"

lemma silent_simps [simp]: "silent []" "silent (Blocked x # evs) \<longleftrightarrow> \<not> is_recv x \<and> silent evs"
  by (auto simp: silent_def)

lemma silent_serves: "silent evs \<Longrightarrow> serves g extra evs"
  by (simp add: silent_def serves_def)

lemma silent_await_op:
  assumes k: "\<And>m rs r. silent (talk (k r) None m rs)" and ans: "\<And>b. fst (snd (answer (Some oper) (Bytes b) m)) = []"
    and "\<not> is_recv (Some oper)"
  shows "silent (talk (await_op oper k) x m rs)"
proof (cases rs)
  case Nil
  with assms(3) show ?thesis by (simp add: talk_await_op)
next
  case (Cons rep rs')
  have "fst (snd (answer (Some oper) rep m)) = []" using ans by (cases rep) simp_all
  then obtain r m' where "answer (Some oper) rep m = (r, [], m')" by (cases "answer (Some oper) rep m") auto
  then show ?thesis using Cons k by (simp add: talk_await_op)
qed

lemma silent_close: "silent (talk (close_fd fd) x m rs)"
  unfolding close_fd_def by (intro silent_await_op) simp_all

text \<open>
  The round of a session that has received \<open>d\<close>, owes \<open>g d\<close> for it and sends the region that holds it, and goes on
  if everything was sent.
\<close>

lemma serves_round:
  assumes e: "send_ends m buf sz 0 k ok early evs tail" and d: "d \<noteq> []" "g d = peek m buf sz"
    and go: "\<And>y rs'. ok y \<Longrightarrow> serves g extra (talk (k y) None m rs')"
    and stop: "\<And>y rs'. \<not> ok y \<Longrightarrow> silent (talk (k y) None m rs')"
  shows "serves g extra (Received d # evs @ tail)"
proof -
  consider (all) y rs' where "ok y" "tail = talk (k y) None m rs'" "sends m buf sz 0 True evs"
    | (some) "silent tail" "sends m buf sz 0 False evs"
    using e unfolding send_ends_def
  proof (elim disjE exE conjE)
    fix y rs' assume "tail = talk (k y) None m rs'" "sends m buf sz 0 (ok y) evs"
    then show thesis using all [of y rs'] some stop [of y rs'] by (cases "ok y") simp_all
  qed (simp add: some)
  then show ?thesis
  proof cases
    case all
    with go [OF all(1), of rs'] d show ?thesis by (simp add: serves_def sends_def)
  next
    case some
    then show ?thesis using d by (auto simp: serves_def sends_def silent_def intro: prefix_prefix)
  qed
qed

lemma serves_farewell:
  assumes e: "send_ends m buf sz 0 k ok early evs tail" and "peek m buf sz = extra"
    and stop: "\<And>y rs'. silent (talk (k y) None m rs')"
  shows "serves g extra (evs @ tail)"
proof -
  have "silent tail" using e stop unfolding send_ends_def by auto
  moreover have "prefix (sent evs) extra" "\<forall>g. expected g evs = []" "\<not> asks_more evs"
    using e assms(2) unfolding send_ends_def by (auto simp: sends_def)
  ultimately show ?thesis by (auto simp: serves_def silent_def)
qed

text \<open>
  What a session relies on of a loop that sends a region: it sends the bytes of the region in order, all of them
  if the result is \<open>ok\<close>, and then goes on with the result.
\<close>

locale send_loop =
  fixes loop :: "u64 \<Rightarrow> nat \<Rightarrow> ('y \<Rightarrow> prog) \<Rightarrow> prog" and ok :: "'y \<Rightarrow> bool"
  assumes ends: "sz < 2 ^ 64 \<Longrightarrow>
    \<exists>evs tail early. talk (loop buf sz k) None m rs = evs @ tail \<and> send_ends m buf sz 0 k ok early evs tail"
begin

lemma answers:
  assumes "sz < 2 ^ 64" and d: "d \<noteq> []" "g d = peek m buf sz"
    and go: "\<And>y rs'. ok y \<Longrightarrow> serves g extra (talk (k y) None m rs')"
    and stop: "\<And>y rs'. \<not> ok y \<Longrightarrow> silent (talk (k y) None m rs')"
  shows "serves g extra (Received d # talk (loop buf sz k) None m rs)"
proof -
  from ends [OF assms(1), of buf k m rs] obtain evs tail early where
    t: "talk (loop buf sz k) None m rs = evs @ tail" "send_ends m buf sz 0 k ok early evs tail" by blast
  show ?thesis unfolding t(1) by (rule serves_round [OF t(2), where g = g and d = d, OF d go stop])
qed

lemma says_goodbye:
  assumes "sz < 2 ^ 64" "peek m buf sz = extra" and stop: "\<And>y rs'. silent (talk (k y) None m rs')"
  shows "serves g extra (talk (loop buf sz k) None m rs)"
proof -
  from ends [OF assms(1), of buf k m rs] obtain evs tail early where
    t: "talk (loop buf sz k) None m rs = evs @ tail" "send_ends m buf sz 0 k ok early evs tail" by blast
  show ?thesis unfolding t(1) by (rule serves_farewell [OF t(2) assms(2) stop])
qed

end

interpretation sends_all: send_loop "\<lambda>buf sz. sendAll fd buf sz 0" all_ok for fd
proof
  fix sz :: nat and buf and k :: "int \<times> bool \<Rightarrow> prog" and m rs assume "sz < 2 ^ 64"
  from talk_sendAll [OF this le0, of fd buf k m rs]
  show "\<exists>evs tail early. talk (sendAll fd buf sz 0 k) None m rs = evs @ tail \<and> send_ends m buf sz 0 k all_ok early evs tail"
    by blast
qed

text \<open>A session waits for data, stops on an error or at the end of the data, and otherwise serves the data.\<close>

definition recv_then :: "int \<Rightarrow> u64 \<Rightarrow> u64 \<Rightarrow> (io_result \<Rightarrow> prog) \<Rightarrow> memory \<Rightarrow> reply list \<Rightarrow> io_event list" where
  "recv_then fd buf n f m rs =
     (case rs of
        [] \<Rightarrow> [Blocked (Some (OpRecv fd buf n))]
      | rep # rs' \<Rightarrow> (case answer (Some (OpRecv fd buf n)) rep m of (r, evs, m') \<Rightarrow> evs @ talk (f r) None m' rs'))"

lemma serves_recv:
  assumes fail: "\<And>e rs. serves g extra (talk (f (- (int e + 1))) None m rs)"
    and eof: "\<And>rs. silent (talk (f 0) None (poke m buf []) rs)"
    and data: "\<And>d rs. d \<noteq> [] \<Longrightarrow> length d \<le> unat n \<Longrightarrow> serves g extra (Received d # talk (f (int (length d))) None (poke m buf d) rs)"
  shows "serves g extra (recv_then fd buf n f m rs)"
proof (cases rs)
  case Nil
  then show ?thesis by (simp add: recv_then_def serves_def)
next
  case (Cons rep rs')
  show ?thesis
  proof (cases rep)
    case (Fail e)
    with Cons fail [of e rs'] show ?thesis by (simp add: recv_then_def)
  next
    case (Bytes bs)
    let ?d = "take (unat n) bs"
    have t: "recv_then fd buf n f m rs = Received ?d # talk (f (int (length ?d))) None (poke m buf ?d) rs'"
      using Cons Bytes by (simp add: recv_then_def Let_def)
    show ?thesis
    proof (cases "?d = []")
      case True
      have "recv_then fd buf n f m rs = Received [] # talk (f 0) None (poke m buf []) rs'"
        unfolding t True by simp
      with eof [of rs'] show ?thesis by (simp add: serves_def silent_def)
    next
      case False
      with data [of ?d rs'] t show ?thesis by simp
    qed
  qed
qed

lemma talk_recv_op: "talk (await_op (OpRecv fd buf n) f) x m rs = recv_then fd buf n f m rs"
  by (simp add: talk_await_op recv_then_def)

lemma echo_serves:
  assumes "\<And>i. apart (mem i) 1024 bye 23"
  shows "serves (\<lambda>d. d) (peek m bye 23) (talk (echo mem bye ts n fd) None m rs)"
proof (induction n arbitrary: m rs)
  case (Suc n)
  let ?k = "\<lambda>(sendEc, eof). if sendEc \<noteq> 0 \<or> eof then close_fd fd else echo mem bye ts n fd"
  let ?f = "\<lambda>r. if \<not> io_result_ok r \<and> - r = ECANCELED then sendAll fd bye 23 0 (\<lambda>_. close_fd fd)
    else if \<not> io_result_ok r then close_fd fd else if r = 0 then close_fd fd else sendAll fd (mem n) (nat r) 0 ?k"
  have "serves (\<lambda>d. d) (peek m bye 23) (recv_then fd (mem n) 1024 ?f m rs)"
  proof (rule serves_recv)
    fix e rs
    have "serves (\<lambda>d. d) (peek m bye 23) (talk (sendAll fd bye 23 0 (\<lambda>_. close_fd fd)) None m rs)"
      by (rule sends_all.says_goodbye [OF _ refl silent_close]) simp
    then show "serves (\<lambda>d. d) (peek m bye 23) (talk (?f (- (int e + 1))) None m rs)"
      by (simp add: io_result_ok_def silent_serves silent_close)
  next
    fix d :: "u8 list" and rs assume d: "d \<noteq> []" "length d \<le> unat (1024 :: u64)"
    have l: "length d < 2 ^ 64" using d(2) by simp
    have bye: "peek (poke m (mem n) d) bye 23 = peek m bye 23" using d(2) by (intro peek_poke_apart [OF assms]) simp
    have "serves (\<lambda>d. d) (peek m bye 23) (Received d # talk (sendAll fd (mem n) (length d) 0 ?k) None (poke m (mem n) d) rs)"
      by (rule sends_all.answers [OF l d(1)])
        (use Suc.IH [of "poke m (mem n) d"] bye silent_close peek_poke [OF l] in \<open>auto simp: all_ok_def split: prod.splits\<close>)
    with d(1) show "serves (\<lambda>d. d) (peek m bye 23) (Received d # talk (?f (int (length d))) None (poke m (mem n) d) rs)"
      by (simp add: io_result_ok_def)
  qed (simp add: io_result_ok_def silent_close)
  then show ?case by (simp add: timeout_dur_op_def timeout_linked_def recv_then_def)
qed (simp add: serves_def)

lemma http_serves:
  assumes "\<And>i. apart (mem i) 1024 response sz" "sz < 2 ^ 64"
  shows "serves (\<lambda>_. peek m response sz) [] (talk (startSession mem response sz n fd) None m rs)"
proof (induction n arbitrary: m rs)
  case (Suc n)
  let ?k = "\<lambda>(sendEc, eof). if sendEc \<noteq> 0 \<or> eof then close_fd fd else startSession mem response sz n fd"
  show ?case
    unfolding startSession.simps talk_recv_op
  proof (rule serves_recv)
    fix d :: "u8 list" and rs assume d: "d \<noteq> []" "length d \<le> unat (1024 :: u64)"
    have keep: "peek (poke m (mem n) d) response sz = peek m response sz"
      using d(2) by (intro peek_poke_apart [OF assms(1)]) simp
    have "serves (\<lambda>_. peek m response sz) []
        (Received d # talk (sendAll fd response sz 0 ?k) None (poke m (mem n) d) rs)"
      by (rule sends_all.answers [OF assms(2) d(1)])
        (use Suc.IH [of "poke m (mem n) d"] keep silent_close in \<open>auto simp: all_ok_def split: prod.splits\<close>)
    with d(1) show "serves (\<lambda>_. peek m response sz) [] (Received d # talk
        (if \<not> io_result_ok (int (length d)) then close_fd fd else if int (length d) = 0 then close_fd fd
         else sendAll fd response sz 0 ?k) None (poke m (mem n) d) rs)"
      by (simp add: io_result_ok_def)
  qed (simp_all add: io_result_ok_def silent_serves silent_close)
qed (simp add: serves_def)

subsection \<open>The session with callbacks\<close>

text \<open>
  The two ways to send everything are the same: the one with callbacks does what the coroutine does when it
  closes the session on an error or at the end of the connection, and goes on otherwise.
\<close>

lemma talk_session_close: "talk (session_close fd) x m rs = talk (close_fd fd) x' m rs"
  by (simp add: session_close_def close_fd_def talk_callback_op talk_await_op split: list.splits)

definition close_or :: "int \<Rightarrow> prog \<Rightarrow> int \<times> bool \<Rightarrow> prog" where
  "close_or fd go y = (if all_ok y then go else close_fd fd)"

lemma sendResponse_sendAll:
  "offset < sz \<Longrightarrow> talk (sendResponse fd buf sz offset go) x m rs = talk (sendAll fd buf sz offset (close_or fd go)) x' m rs"
proof (induction rs arbitrary: offset x x' m)
  case Nil
  then show ?case by (simp add: sendResponse.simps sendAll.simps talk_callback_op talk_await_op)
next
  case (Cons rep rs)
  obtain r evs m' where ans: "answer (Some (OpSend fd (buf + of_nat offset) (of_nat (sz - offset)))) rep m = (r, evs, m')"
    by (metis prod_cases3)
  have "talk (sendAll fd buf sz (offset + nat r) (close_or fd go)) None m' rs = talk go None m' rs" if "\<not> offset + nat r < sz"
    using that by (simp add: sendAll.simps close_or_def all_ok_def)
  note finish = this
  have go: "talk (if offset + nat r < sz then sendResponse fd buf sz (offset + nat r) go else go) None m' rs =
      talk (sendAll fd buf sz (offset + nat r) (close_or fd go)) None m' rs"
    using Cons.IH [of "offset + nat r" None m' None] finish by simp
  have stop: "talk (close_or fd go (y, b)) None m' rs = talk (session_close fd) None m' rs" if "y \<noteq> 0 \<or> b" for y b
    using that by (auto simp: close_or_def all_ok_def talk_session_close [where x' = None])
  from ans go stop [of "- r" False] stop [of 0 True] Cons.prems show ?case
    by (subst sendResponse.simps, subst sendAll.simps) (simp add: talk_callback_op talk_await_op io_result_ok_def)
qed

lemma receive_serves: "serves (\<lambda>d. d) [] (talk (receive mem n fd Return) x m rs)"
proof (induction n arbitrary: x m rs)
  case (Suc n)
  let ?go = "receive mem n fd Return"
  have "serves (\<lambda>d. d) [] (recv_then fd (mem n) 2048 (\<lambda>r. if \<not> io_result_ok r then session_close fd
    else if r = 0 then session_close fd else sendResponse fd (mem n) (nat r) 0 ?go) m rs)" (is "serves _ _ (recv_then _ _ _ ?f _ _)")
  proof (rule serves_recv)
    fix d :: "u8 list" and rs assume d: "d \<noteq> []" "length d \<le> unat (2048 :: u64)"
    have l: "length d < 2 ^ 64" using d(2) by simp
    have "serves (\<lambda>d. d) [] (Received d # talk (sendAll fd (mem n) (length d) 0 (close_or fd ?go)) None (poke m (mem n) d) rs)"
      by (rule sends_all.answers [OF l d(1)]) (use Suc.IH silent_close peek_poke [OF l] in \<open>auto simp: close_or_def all_ok_def\<close>)
    with d(1) show "serves (\<lambda>d. d) [] (Received d # talk (?f (int (length d))) None (poke m (mem n) d) rs)"
      by (simp add: io_result_ok_def sendResponse_sendAll [where x' = None])
  qed (simp_all add: io_result_ok_def silent_serves silent_close talk_session_close [where x' = None])
  then show ?case by (simp add: talk_callback_op recv_then_def)
qed (simp add: serves_def)

subsection \<open>The proxy\<close>

lemma talk_sendAll_proxy:
  assumes "sz < 2 ^ 64" "offset \<le> sz"
  shows "\<exists>evs tail. talk (sendAll_proxy n fd t buf sz offset k) None m rs = evs @ tail \<and>
    send_ends m buf sz offset k (\<lambda>y. fst y = 0) True evs tail"
  using assms(2)
proof (induction n arbitrary: offset rs t)
  case 0
  then show ?case by (intro exI [of _ "[]"]) (simp add: send_ends_def sends_def)
next
  case (Suc n)
  show ?case
  proof (cases "offset < sz")
    case True
    let ?x = "Some (OpSend (fd t) (buf + of_nat offset) (of_nat (sz - offset)))"
    have u: "unat (of_nat (sz - offset) :: u64) = sz - offset" using assms(1) by (intro unat_of_nat_u64) simp
    consider "rs = []" | e rs' where "rs = Fail e # rs'" | bs rs' where "rs = Bytes bs # rs'"
      by (metis neq_Nil_conv reply.exhaust)
    then show ?thesis
    proof cases
      case 1
      with True show ?thesis
        by (intro exI [of _ "[Blocked ?x]"] exI [of _ "[]"]) (simp add: talk_await_op send_ends_def sends_def)
    next
      case (2 e rs')
      have "sends m buf sz offset (int e + 1 = 0) []" by (simp add: sends_def)
      then have "send_ends m buf sz offset k (\<lambda>y. fst y = 0) True [] (talk (k (int e + 1, Suc t)) None m rs')"
        by (rule send_endsI) simp
      with 2 True show ?thesis
        by (intro exI [of _ "[]"] exI [of _ "talk (k (int e + 1, Suc t)) None m rs'"])
          (simp add: talk_await_op io_result_ok_def add.commute)
    next
      case (3 bs rs')
      define c where "c = min (length bs) (sz - offset)"
      have c: "offset + c \<le> sz" "c \<le> sz - offset" using True by (simp_all add: c_def)
      from Suc.IH [OF c(1)] obtain evs tail where
        t: "talk (sendAll_proxy n fd (Suc t) buf sz (offset + c) k) None m rs' = evs @ tail"
        "send_ends m buf sz (offset + c) k (\<lambda>y. fst y = 0) True evs tail" by blast
      have "talk (sendAll_proxy (Suc n) fd t buf sz offset k) None m rs =
        (Sent (peek m (buf + of_nat offset) c) # evs) @ tail"
        using 3 True t(1) u by (simp add: talk_await_op io_result_ok_def c_def Let_def)
      with send_ends_step [OF t(2) c(2)] show ?thesis by blast
    qed
  next
    case False
    with Suc.prems have "sends m buf sz offset (0 = (0 :: int)) []" by (simp add: sends_def)
    then have "send_ends m buf sz offset k (\<lambda>y. fst y = 0) True [] (talk (k (0, t)) None m rs)" by (rule send_endsI) simp
    with False show ?thesis by (intro exI [of _ "[]"] exI [of _ "talk (k (0, t)) None m rs"]) simp
  qed
qed

interpretation passes_on: send_loop "\<lambda>buf sz. sendAll_proxy n fd t buf sz 0" "\<lambda>y. fst y = 0" for n fd t
proof
  fix sz :: nat and buf and k :: "int \<times> nat \<Rightarrow> prog" and m rs assume "sz < 2 ^ 64"
  from talk_sendAll_proxy [OF this le0, of n fd t buf k m rs]
  show "\<exists>evs tail early. talk (sendAll_proxy n fd t buf sz 0 k) None m rs = evs @ tail \<and>
      send_ends m buf sz 0 k (\<lambda>y. fst y = 0) early evs tail"
    by blast
qed

lemma silent_relay_end:
  assumes "\<And>x m rs. silent (talk rest x m rs)"
  shows "silent (talk (relay_end r s rest t) x m rs)"
  unfolding relay_end_def by (intro silent_await_op) (simp_all add: assms)

lemma relay_serves:
  assumes "\<And>x m rs. silent (talk rest x m rs)"
  shows "serves (\<lambda>d. d) [] (talk (relay buf r s rest n t) None m rs)"
proof (induction n arbitrary: m rs t)
  case (Suc n)
  let ?k = "\<lambda>(sendRes, t'). if sendRes \<noteq> 0 then relay_end r s rest t' else relay buf r s rest n t'"
  note silent_end = silent_relay_end [OF assms]
  show ?case
    unfolding relay.simps talk_recv_op
  proof (rule serves_recv)
    fix d :: "u8 list" and rs assume d: "d \<noteq> []" "length d \<le> unat (8192 :: u64)"
    have l: "length d < 2 ^ 64" using d(2) by simp
    have "serves (\<lambda>d. d) [] (Received d # talk (sendAll_proxy n s (Suc t) buf (length d) 0 ?k) None (poke m buf d) rs)"
      by (rule passes_on.answers [OF l d(1)]) (use Suc.IH silent_end peek_poke [OF l] in \<open>auto split: prod.splits\<close>)
    with d(1) show "serves (\<lambda>d. d) [] (Received d # talk (if \<not> io_result_ok (int (length d)) then relay_end r s rest (Suc t)
       else if int (length d) = 0 then relay_end r s rest (Suc t)
       else sendAll_proxy n s (Suc t) buf (nat (int (length d))) 0 ?k) None (poke m buf d) rs)"
      by (simp add: io_result_ok_def)
  qed (simp_all add: io_result_ok_def silent_serves silent_end)
qed (simp add: serves_def)

text \<open>This loop does not look at a result of 0: as long as the kernel accepts nothing it asks again.\<close>

lemma sendAll_proxy_spins:
  assumes "offset < sz" and "n < l"
  shows "talk (sendAll_proxy l fd t buf sz offset k) None m (replicate n (Bytes [])) = replicate n (Sent []) @
    [Blocked (Some (OpSend (fd (t + n)) (buf + of_nat offset) (of_nat (sz - offset))))]"
  using assms(2)
proof (induction n arbitrary: l t)
  case 0
  then obtain l' where "l = Suc l'" by (cases l) simp_all
  with assms(1) show ?case by (simp add: talk_await_op)
next
  case (Suc n)
  then obtain l' where "l = Suc l'" "n < l'" by (cases l) simp_all
  with assms(1) Suc.IH [of l' "Suc t"] show ?case by (simp add: talk_await_op io_result_ok_def peek_def Let_def)
qed

subsection \<open>Properties\<close>

lemma apartI:
  assumes "unat a + n \<le> unat b" "unat b + l \<le> 2 ^ 64"
  shows "apart a n b l"
  unfolding apart_def
proof (intro allI impI)
  fix j assume "j < l"
  then have u: "unat (of_nat (unat b - unat a + j) :: u64) = unat b - unat a + j"
    using assms by (intro unat_of_nat_u64) simp
  have le: "unat a \<le> unat b" using assms(1) by simp
  then have "b + of_nat j - a = of_nat (unat b - unat a + j)" by (simp add: of_nat_diff)
  then have "unat (b + of_nat j - a) = unat b - unat a + j" using u by (simp only:)
  then show "n \<le> unat (b + of_nat j - a)" using assms(1) by linarith
qed

text \<open>
  C14: Sending everything returns, and sends everything. Once the kernel has answered as many times as there are bytes
  to send, whatever it answers, the loop has ended; what it has sent is a prefix of the region, and all
  of it if the result is that there was no error and the connection is still open.
\<close>

theorem sendAll_returns:
  assumes "sz < 2 ^ 64" and "offset \<le> sz" and "sz - offset \<le> length rs"
  shows "\<exists>evs y rs'. talk (sendAll fd buf sz offset k) None m rs = evs @ talk (k y) None m rs' \<and>
    prefix (sent evs) (drop offset (peek m buf sz)) \<and> (y = (0, False) \<longrightarrow> sent evs = drop offset (peek m buf sz))"
proof -
  from talk_sendAll [OF assms(1,2), of fd buf k m rs] obtain evs tail where
    t: "talk (sendAll fd buf sz offset k) None m rs = evs @ tail"
    and e: "send_ends m buf sz offset k all_ok (length rs < sz - offset) evs tail" by blast
  from e assms(3) obtain y rs' where "tail = talk (k y) None m rs'" "sends m buf sz offset (all_ok y) evs"
    unfolding send_ends_def by auto
  with t show ?thesis unfolding sends_def all_ok_def by blast
qed

theorem sendAll_returns_witness:
  "\<exists>evs y rs'. talk (sendAll 5 4096 3 0 (\<lambda>_. Return)) None (\<lambda>_. 7) [Bytes [0, 0], Fail 31, Bytes []] =
     evs @ talk ((\<lambda>_. Return) y) None (\<lambda>_. 7) rs' \<and> prefix (sent evs) (drop 0 (peek (\<lambda>_. 7) 4096 3))"
  using sendAll_returns [of 3 0 "[Bytes [0, 0], Fail 31, Bytes []]" 5 4096 "\<lambda>_. Return" "\<lambda>_. 7"] by auto

text \<open>
  C8: An echo session sends back what it receives. Whatever data arrives in whatever pieces, and however much of it the
  kernel accepts at a time, the bytes sent are a prefix of the bytes received, in order, followed by nothing
  but the farewell of a session that has timed out; and whenever the session waits for more data, everything it
  has received has been sent.
\<close>

theorem echo_session_correct:
  assumes "\<And>i. apart (mem i) 1024 bye 23"
  shows "serves (\<lambda>d. d) (peek m bye 23) (talk (echo mem bye ts n fd) None m rs)"
  by (rule echo_serves [OF assms])

theorem echo_session_correct_witness:
  "serves (\<lambda>d. d) (peek (\<lambda>_. 33) 8192 23)
     (talk (echo (\<lambda>_. 4096) 8192 64 2 5) None (\<lambda>_. 33) [Bytes [1, 2, 3], Bytes [0], Bytes [0, 0], Fail 124, Bytes [0]])"
  by (rule echo_session_correct) (simp add: apartI)

text \<open>
  C19: The session with callbacks implements the same specification, and its sending is step by step that of the
  coroutine: the same operations with the same buffers, whatever the kernel answers, the session going on if
  everything was sent and being closed otherwise.
\<close>

theorem callback_session_equivalent:
  "serves (\<lambda>d. d) [] (talk (receive mem n fd Return) x m rs) \<and>
   talk (sendResponse fd buf (Suc sz) 0 go) x m rs =
     talk (sendAll fd buf (Suc sz) 0 (\<lambda>y. if y = (0, False) then go else close_fd fd)) x m rs"
proof -
  have "close_or fd go = (\<lambda>y. if y = (0, False) then go else close_fd fd)" by (rule ext) (simp add: close_or_def all_ok_def)
  with receive_serves sendResponse_sendAll [of 0 "Suc sz" fd buf go x m rs x] show ?thesis by simp
qed

text \<open>
  C35: An HTTP session answers every piece of data it receives with the response, in full before it waits for more, and
  sends nothing else; the response is \<open>getResponse\<close> when that is what lies at its address.
\<close>

theorem http_session_correct:
  assumes "\<And>i. apart (mem i) 1024 response (length getResponse)"
    and "peek m response (length getResponse) = bytes_of getResponse"
  shows "serves (\<lambda>_. bytes_of getResponse) [] (talk (startSession mem response (length getResponse) n fd) None m rs)"
proof -
  have "length getResponse < 2 ^ 64" by (simp add: getResponse_def response_body_def crlf_def to_string.simps)
  from http_serves [of mem, OF assms(1) this, of m n fd rs] show ?thesis by (simp only: assms(2))
qed

theorem http_session_correct_witness:
  "serves (\<lambda>_. bytes_of getResponse) []
     (talk (startSession (\<lambda>_. 4096) 8192 (length getResponse) 3 5) None (poke (\<lambda>_. 0) 8192 (bytes_of getResponse))
       [Bytes [71, 69, 84], Bytes [0, 0], Bytes (replicate 200 0), Bytes []])"
proof (rule http_session_correct)
  have l: "length getResponse < 1000" by (simp add: getResponse_def response_body_def crlf_def to_string.simps)
  show "apart 4096 1024 8192 (length getResponse)" using l by (intro apartI) simp_all
  have "length (bytes_of getResponse) < 2 ^ 64" using l by (simp add: bytes_of_def)
  from peek_poke [OF this, of "\<lambda>_. 0" 8192]
  show "peek (poke (\<lambda>_. 0) 8192 (bytes_of getResponse)) 8192 (length getResponse) = bytes_of getResponse"
    by (simp add: bytes_of_def)
qed

text \<open>
  Either direction of a proxied connection passes on what it receives, in order and unchanged, and does not wait for
  more data before it has passed on all of it.
\<close>

theorem relay_correct: "serves (\<lambda>d. d) [] (talk (relay buf recvSocket sendSocket helper_rest n t) None m rs)"
  by (rule relay_serves) (simp add: helper_rest_def silent_def)

end
