(* ===== verification/Programs.thy ===== *)
theory Programs
  imports Servers
begin

text \<open>
  The example programs as a whole: \<^verbatim>\<open>main\<close> of each server under \<^verbatim>\<open>examples/\<close> parses an address, creates a socket,
  constructs the queue, starts the server and runs the event loop; the demonstrations of the channel and the resolver
  start their coroutines. This composes the models of the addresses and
  sockets, of the queue and of the servers. \<open>m\<close> is the number of rounds a server is unrolled and \<open>n\<close> the number
  of iterations of the loop; the result is \<open>None\<close> if the loop is still running then.
\<close>

subsection \<open>Results\<close>

datatype main_result = Exit int | UncaughtException | Failed cpp_error

definition run_main :: "'k platform \<Rightarrow> nat \<Rightarrow> 'k io_queue \<Rightarrow> main_result option" where
  "run_main P n q =
     (case run P n q of
        None \<Rightarrow> None
      | Some (Inl e) \<Rightarrow> Some (Failed e)
      | Some (Inr q') \<Rightarrow> Some (Exit 0))"

text \<open>\<^verbatim>\<open>IoQueue io;\<close>, start the coroutines one after the other, \<^verbatim>\<open>io.run();\<close>\<close>

primrec start_all :: "'k platform \<Rightarrow> prog list \<Rightarrow> 'k io_queue \<Rightarrow> 'k io_queue outcome" where
  "start_all P [] q = Inr q"
| "start_all P (p # ps) q = bindE (start P p q) (start_all P ps)"

definition run_all :: "'k platform \<Rightarrow> 'k io_uring \<Rightarrow> prog list \<Rightarrow> nat \<Rightarrow> main_result option" where
  "run_all P r ps n =
     (case bindE (IoQueue_construct P 1024 r) (start_all P ps) of
        Inl e \<Rightarrow> Some (Failed e)
      | Inr q \<Rightarrow> run_main P n q)"

definition serve_on :: "'k platform \<Rightarrow> 'k io_uring \<Rightarrow> prog \<Rightarrow> nat \<Rightarrow> main_result option" where
  "serve_on P r p n = run_all P r [p] n"

subsection \<open>The TCP servers\<close>

definition SOMAXCONN :: int where
  "SOMAXCONN = 4096"

definition listen_main :: "'s socket_api \<Rightarrow> 'k platform \<Rightarrow> 'k io_uring \<Rightarrow> (int \<Rightarrow> prog) \<Rightarrow> nat \<Rightarrow> 's \<Rightarrow> main_result option \<times> 's" where
  "listen_main S P r serving n k =
     (case ipp_parse (inet S) ''0.0.0.0:4242'' of
        Inl e \<Rightarrow> (Some (Failed e), k)
      | Inr None \<Rightarrow> (Some UncaughtException, k)
      | Inr (Some a) \<Rightarrow>
          (let (socket, k') = createTcpListenSocket S a SOMAXCONN k
           in if socket = - 1 then (Some (Exit 1), k') else (serve_on P r (serving socket) n, k')))"

definition echo_tcp_coro_main :: "'s socket_api \<Rightarrow> 'k platform \<Rightarrow> 'k io_uring \<Rightarrow> (nat \<Rightarrow> nat \<Rightarrow> u64) \<Rightarrow> u64 \<Rightarrow> (nat \<Rightarrow> u64)
    \<Rightarrow> nat \<Rightarrow> nat \<Rightarrow> 's \<Rightarrow> main_result option \<times> 's" where
  "echo_tcp_coro_main S P r mem bye ts m n k = listen_main S P r (\<lambda>socket. echo_server mem bye ts socket m) n k"

definition http_coro_main :: "'s socket_api \<Rightarrow> 'k platform \<Rightarrow> 'k io_uring \<Rightarrow> (nat \<Rightarrow> nat \<Rightarrow> u64) \<Rightarrow> u64
    \<Rightarrow> nat \<Rightarrow> nat \<Rightarrow> 's \<Rightarrow> main_result option \<times> 's" where
  "http_coro_main S P r mem response m n k =
     listen_main S P r (\<lambda>socket. http_server mem response (length getResponse) socket m) n k"

definition echo_tcp_main :: "'s socket_api \<Rightarrow> 'k platform \<Rightarrow> 'k io_uring \<Rightarrow> (nat \<Rightarrow> nat \<Rightarrow> u64)
    \<Rightarrow> nat \<Rightarrow> nat \<Rightarrow> 's \<Rightarrow> main_result option \<times> 's" where
  "echo_tcp_main S P r mem m n k = listen_main S P r (\<lambda>socket. accept mem socket m) n k"

subsection \<open>The UDP servers\<close>

text \<open>
  The call is \<^verbatim>\<open>createSocket(SocketType::Udp, IpAddress, 4242)\<close>. The second parameter of the function is an
  \<^verbatim>\<open>IpAddressPort\<close>, to which the address converts with port 0, and the third is \<^verbatim>\<open>bool reuseAddr\<close>, to which the number
  converts.
\<close>

definition IpAddressPort_of :: "IpAddress \<Rightarrow> IpAddressPort" where
  "IpAddressPort_of a = \<lparr>address = a, port = 0\<rparr>"

definition udp_main :: "'s socket_api \<Rightarrow> 'k platform \<Rightarrow> 'k io_uring \<Rightarrow> (int \<Rightarrow> prog) \<Rightarrow> nat \<Rightarrow> 's \<Rightarrow> main_result option \<times> 's" where
  "udp_main S P r serving n k =
     (case ip_parse (inet S) ''0.0.0.0'' of
        None \<Rightarrow> (Some UncaughtException, k)
      | Some a \<Rightarrow>
          (let (socket, k') = createSocket_bound S Udp (IpAddressPort_of a) ((4242 :: int) \<noteq> 0) k
           in if socket = - 1 then (Some (Exit 1), k') else (serve_on P r (serving socket) n, k')))"

definition echo_udp_coro_main :: "'s socket_api \<Rightarrow> 'k platform \<Rightarrow> 'k io_uring \<Rightarrow> (nat \<Rightarrow> u64) \<Rightarrow> u64 \<Rightarrow> u64
    \<Rightarrow> nat \<Rightarrow> nat \<Rightarrow> 's \<Rightarrow> main_result option \<times> 's" where
  "echo_udp_coro_main S P r mem hdr clientAddr m n k = udp_main S P r (\<lambda>socket. udp_serve mem hdr clientAddr socket m) n k"

definition echo_udp_main :: "'s socket_api \<Rightarrow> 'k platform \<Rightarrow> 'k io_uring \<Rightarrow> u64 \<Rightarrow> u64 \<Rightarrow> u64
    \<Rightarrow> nat \<Rightarrow> nat \<Rightarrow> 's \<Rightarrow> main_result option \<times> 's" where
  "echo_udp_main S P r buf hdr clientAddr m n k = udp_main S P r (\<lambda>socket. udp_receive buf hdr clientAddr socket m) n k"

subsection \<open>The proxy\<close>

record upstream =
  listenAddr :: string
  upstreamAddr :: string

definition proxy_config :: "upstream list" where
  "proxy_config = [\<lparr>listenAddr = ''127.0.0.1:4242'', upstreamAddr = ''127.0.0.1:4243''\<rparr>]"

text \<open>
  A reference to a variable of the body of a loop, as a coroutine sees it that goes on after the body: the variable is gone.
\<close>

definition out_of_scope :: "'a \<Rightarrow> 'a option" where
  "out_of_scope x = None"

text \<open>
  The loop over the configuration; on the left the program ends, on the right the servers have been started.
  \<open>serving u upstreamAddr socket\<close> is the server for the entry \<open>u\<close>. It gets a reference to the parsed address of the upstream server,
  which is a variable of the body. It suspends in its first operation, before it reads the address, and is resumed by the event loop
  after the body has ended.
\<close>

primrec start_proxies :: "'s socket_api \<Rightarrow> 'k platform \<Rightarrow> (upstream \<Rightarrow> IpAddressPort option \<Rightarrow> int \<Rightarrow> prog) \<Rightarrow> upstream list \<Rightarrow> 'k io_queue \<Rightarrow> 's
    \<Rightarrow> (main_result + 'k io_queue) \<times> 's" where
  "start_proxies S P serving [] q k = (Inr q, k)"
| "start_proxies S P serving (u # us) q k =
     (case ipp_parse (inet S) (listenAddr u) of
        Inl e \<Rightarrow> (Inl (Failed e), k)
      | Inr None \<Rightarrow> (Inl (Exit 1), k)
      | Inr (Some la) \<Rightarrow>
          (case ipp_parse (inet S) (upstreamAddr u) of
             Inl e \<Rightarrow> (Inl (Failed e), k)
           | Inr None \<Rightarrow> (Inl (Exit 1), k)
           | Inr (Some ua) \<Rightarrow>
               (let (socket, k') = createTcpListenSocket S la SOMAXCONN k
                in if socket = - 1 then (Inl (Exit 1), k')
                   else case start P (serving u (out_of_scope ua) socket) q of
                          Inl e \<Rightarrow> (Inl (Failed e), k')
                        | Inr q' \<Rightarrow> start_proxies S P serving us q' k')))"

text \<open>The program with any configuration \<open>us\<close>, and with the one it contains.\<close>

definition proxy_with :: "'s socket_api \<Rightarrow> 'k platform \<Rightarrow> 'k io_uring \<Rightarrow> (upstream \<Rightarrow> IpAddressPort option \<Rightarrow> int \<Rightarrow> prog) \<Rightarrow> upstream list \<Rightarrow> nat \<Rightarrow> 's
    \<Rightarrow> main_result option \<times> 's" where
  "proxy_with S P r serving us n k =
     (case IoQueue_construct P 1024 r of
        Inl e \<Rightarrow> (Some (Failed e), k)
      | Inr q0 \<Rightarrow>
          (case start_proxies S P serving us q0 k of
             (Inl res, k') \<Rightarrow> (Some res, k')
           | (Inr q, k') \<Rightarrow> (run_main P n q, k')))"

definition proxy_main :: "'s socket_api \<Rightarrow> 'k platform \<Rightarrow> 'k io_uring \<Rightarrow> (upstream \<Rightarrow> IpAddressPort option \<Rightarrow> int \<Rightarrow> prog) \<Rightarrow> nat \<Rightarrow> 's \<Rightarrow> main_result option \<times> 's" where
  "proxy_main S P r serving n k = proxy_with S P r serving proxy_config n k"

subsection \<open>The channel and the resolver\<close>

text \<open>
  Two receivers and a sender on one channel, whose event file descriptor is \<open>eventFd\<close>. The thread the sender starts
  does not use the queue.
\<close>

definition channel_main :: "'k platform \<Rightarrow> 'k io_uring \<Rightarrow> int \<Rightarrow> (nat \<Rightarrow> nat \<Rightarrow> u64) \<Rightarrow> (nat \<Rightarrow> nat \<Rightarrow> u64) \<Rightarrow> (nat \<Rightarrow> nat \<Rightarrow> string list)
    \<Rightarrow> u64 \<Rightarrow> nat \<Rightarrow> nat \<Rightarrow> main_result option" where
  "channel_main P r eventFd mem contents ms ts m n =
     run_all P r [receiver eventFd (mem 1) (contents 1) (ms 1) m, receiver eventFd (mem 2) (contents 2) (ms 2) m, sender ts m] n"

definition resolve_main :: "'k platform \<Rightarrow> 'k io_uring \<Rightarrow> bool \<Rightarrow> int \<Rightarrow> u64 \<Rightarrow> u64 \<Rightarrow> IpAddress list \<Rightarrow> nat \<Rightarrow> main_result option" where
  "resolve_main P r ready eventFd buf contents res n = run_all P r [resolve_start ready eventFd buf contents res] n"

subsection \<open>Lemmas\<close>

lemma first_prime_defined: "first_prime_above k ps \<noteq> Inl UndefinedBehaviour"
  by (induction ps) simp_all

lemma construct_defined: "IoQueue_construct P sz r \<noteq> Inl UndefinedBehaviour"
  using first_prime_defined [of sz primes] by (auto simp: IoQueue_construct_def IoQueueImpl_def bindE_def CompleterMap_def getNextSize_def assertE_def Let_def
      split: sum.splits prod.splits if_splits option.splits)

lemma run_main_failed: "run_main P n q = Some (Failed e) \<longleftrightarrow> run P n q = Some (Inl e)"
  by (simp add: run_main_def split: option.splits sum.splits)

lemma ipp_parse_defined: "ipp_parse A (s @ '':'' @ c # cs) \<noteq> Inl UndefinedBehaviour" if "CHR '':'' \<notin> set s"
proof -
  have "takeWhile (\<lambda>c. c \<noteq> CHR '':'') (s @ '':'' @ c # cs) = s" using that by (subst takeWhile_append2) auto
  then show ?thesis by (simp add: ipp_parse_def Let_def split: option.splits prod.splits)
qed

lemma start_all_defined:
  assumes P: "malloc_ok P" and ps: "\<forall>p\<in>set ps. disciplined B p B None"
  shows "loop_ready B s q \<Longrightarrow> (s + length ps) * B \<le> 2 ^ 64 - 2 \<Longrightarrow>
    start_all P ps q \<noteq> Inl UndefinedBehaviour \<and> (\<forall>q'. start_all P ps q = Inr q' \<longrightarrow> loop_ready B (s + length ps) q')"
  using ps
proof (induction ps arbitrary: s q)
  case (Cons p ps)
  have d: "disciplined B p B None" using Cons.prems(3) by simp
  have n: "Suc s * B \<le> 2 ^ 64 - 2" "(Suc s + length ps) * B \<le> 2 ^ 64 - 2"
    using Cons.prems(2) by (simp_all add: add_mult_distrib)
  note st = loop_ready_start [OF P Cons.prems(1) d n(1)]
  show ?case
  proof (cases "start P p q")
    case (Inr q1)
    with Cons.IH [OF st(2) [OF Inr] n(2)] Cons.prems(3) show ?thesis by simp
  qed (use st(1) in simp)
qed simp

lemma run_all_defined:
  assumes P: "malloc_ok P" "init_ok P" and ps: "\<forall>p\<in>set ps. server m p" and n: "(length ps + n) * (m + 2) \<le> 2 ^ 64 - 2"
  shows "run_all P r ps n \<noteq> Some (Failed UndefinedBehaviour)"
proof (cases "IoQueue_construct P 1024 r")
  case (Inl e)
  then show ?thesis using construct_defined [of P 1024 r] by (simp add: run_all_def)
next
  case (Inr q0)
  have d: "\<forall>p\<in>set ps. disciplined (m + 2) p (m + 2) None" using ps server_disciplined by blast
  have n0: "(0 + length ps) * (m + 2) \<le> 2 ^ 64 - 2" using n by (simp add: add_mult_distrib)
  note st = start_all_defined [OF P(1) d loop_ready_construct [OF P(2) Inr] n0]
  show ?thesis
  proof (cases "start_all P ps q0")
    case (Inr q)
    with st have "loop_ready (m + 2) (length ps) q" by simp
    from loop_ready_run(1) [OF P(1) this n] Inr \<open>IoQueue_construct P 1024 r = Inr q0\<close> show ?thesis
      by (simp add: run_all_def run_main_failed)
  qed (use st Inr in \<open>simp add: run_all_def\<close>)
qed

lemma serve_on_defined:
  assumes P: "malloc_ok P" "init_ok P" and p: "server m p" and n: "Suc n * (m + 2) \<le> 2 ^ 64 - 2"
  shows "serve_on P r p n \<noteq> Some (Failed UndefinedBehaviour)"
  unfolding serve_on_def by (rule run_all_defined [OF P]) (use p n in simp_all)

lemma listen_main_defined:
  assumes P: "malloc_ok P" "init_ok P" and p: "\<And>socket. server m (serving socket)" and n: "Suc n * (m + 2) \<le> 2 ^ 64 - 2"
  shows "fst (listen_main S P r serving n k) \<noteq> Some (Failed UndefinedBehaviour)"
proof -
  have "ipp_parse (inet S) (''0.0.0.0'' @ '':'' @ CHR ''4'' # ''242'') \<noteq> Inl UndefinedBehaviour"
    by (rule ipp_parse_defined) simp
  then have a: "ipp_parse (inet S) ''0.0.0.0:4242'' \<noteq> Inl UndefinedBehaviour" by simp
  have "serve_on P r (serving socket) n \<noteq> Some (Failed UndefinedBehaviour)" for socket
    by (rule serve_on_defined [OF P p n])
  with a show ?thesis by (auto simp: listen_main_def split: sum.splits option.splits prod.splits)
qed

lemma udp_main_defined:
  assumes P: "malloc_ok P" "init_ok P" and p: "\<And>socket. server m (serving socket)" and n: "Suc n * (m + 2) \<le> 2 ^ 64 - 2"
  shows "fst (udp_main S P r serving n k) \<noteq> Some (Failed UndefinedBehaviour)"
proof -
  have "serve_on P r (serving socket) n \<noteq> Some (Failed UndefinedBehaviour)" for socket
    by (rule serve_on_defined [OF P p n])
  then show ?thesis by (auto simp: udp_main_def split: sum.splits option.splits prod.splits)
qed

lemma serve_on_exit: "serve_on P r p n \<noteq> Some (Exit 1)"
  by (simp add: serve_on_def run_all_def run_main_def split: sum.splits option.splits)

lemma createSocket_port_0:
  "createSocket_bound (S\<lparr>sys_bind := \<lambda>fd sa k. if sin_port sa = htons (inet S) 0 then sys_bind S fd sa k else f fd sa k\<rparr>)
     t (IpAddressPort_of a) reuseAddr k = createSocket_bound S t (IpAddressPort_of a) reuseAddr k"
proof -
  let ?S = "S\<lparr>sys_bind := \<lambda>fd sa k. if sin_port sa = htons (inet S) 0 then sys_bind S fd sa k else f fd sa k\<rparr>"
  have "bind_socket ?S fd (IpAddressPort_of a) k = bind_socket S fd (IpAddressPort_of a) k" for fd k
    by (simp add: bind_socket_def IpAddressPort_of_def)
  moreover have "drop_fd ?S = drop_fd S" by (rule ext)+ (simp add: drop_fd_def)
  moreover have "createSocket ?S = createSocket S"
    by (rule ext)+ (simp add: createSocket_def getSocketType_def split: SocketType.splits)
  ultimately show ?thesis by (simp add: createSocket_bound_def Let_def split: prod.splits)
qed

subsection \<open>Properties\<close>

text \<open>
  C3: The example programs other than the proxy do not end in undefined behaviour of the library, from the text of the address
  to the end of the loop: whatever the system calls and the ring answer, for any number of rounds and iterations until the ids
  of the operations are used up, no \<^verbatim>\<open>main\<close> accesses a completer or awaiter that is gone or the text of an empty port.
  The proxy is excluded, since its code is undefined by itself (\<open>proxy_accept_undefined\<close>).
\<close>

theorem programs_safe:
  assumes "malloc_ok P" and "init_ok P" and "(3 + n) * (m + 2) \<le> 2 ^ 64 - 2"
  shows "fst (echo_tcp_coro_main S P r mem bye ts m n k) \<noteq> Some (Failed UndefinedBehaviour) \<and>
    fst (http_coro_main S P r mem response m n k) \<noteq> Some (Failed UndefinedBehaviour) \<and>
    fst (echo_tcp_main S P r mem m n k) \<noteq> Some (Failed UndefinedBehaviour) \<and>
    fst (echo_udp_coro_main S P r bufs hdr clientAddr m n k) \<noteq> Some (Failed UndefinedBehaviour) \<and>
    fst (echo_udp_main S P r buf hdr clientAddr m n k) \<noteq> Some (Failed UndefinedBehaviour) \<and>
    channel_main P r eventFd bufs2 contents ms tsp m n \<noteq> Some (Failed UndefinedBehaviour) \<and>
    resolve_main P r ready eventFd buf count res n \<noteq> Some (Failed UndefinedBehaviour)"
proof -
  have n1: "Suc n * (m + 2) \<le> 2 ^ 64 - 2" by (rule order_trans [OF mult_le_mono1 assms(3)]) simp
  note P = assms(1,2)
  have "channel_main P r eventFd bufs2 contents ms tsp m n \<noteq> Some (Failed UndefinedBehaviour)"
    unfolding channel_main_def using assms(3) by (intro run_all_defined [OF P]) (auto intro: server.intros simp: numeral_3_eq_3)
  moreover have "resolve_main P r ready eventFd buf count res n \<noteq> Some (Failed UndefinedBehaviour)"
    unfolding resolve_main_def using n1 by (intro run_all_defined [OF P, where m = m]) (auto intro: server.intros)
  ultimately show ?thesis
    unfolding echo_tcp_coro_main_def http_coro_main_def echo_tcp_main_def echo_udp_coro_main_def echo_udp_main_def
    by (intro conjI listen_main_defined [OF P _ n1] udp_main_defined [OF P _ n1] server.intros)
qed

text \<open>
  A run of a program whose coroutine reads once from a descriptor, on a ring that completes the read with its length: the
  queue of \<^verbatim>\<open>main\<close> has 1543 entries; the loop resumes the coroutine and returns.
\<close>

definition main_queue :: "sim io_queue" where
  "main_queue =
     \<lparr>nextOpId = 0, q_ring = (sim_ring 8)\<lparr>ring_params := \<lparr>params_flags = 0, sq_entries = 1543, features = 6\<rparr>,
        kern := \<lparr>sim_cap = 1543, sim_tail = 0, sim_ready = [], sim_cq = []\<rparr>\<rparr>,
      completers = \<lparr>cm_entries = replicate 1543 \<lparr>entry_key = - 1, entry_value = 0\<rparr>, cm_count = 0\<rparr>,
      lastSqe = None, completer_mem = Map.empty, awaiters = Map.empty, next_coro = 0, resumed = []\<rparr>"

definition main_waiting :: "(io_result \<Rightarrow> prog) \<Rightarrow> sim io_queue" where
  "main_waiting f = main_queue
     \<lparr>nextOpId := 1, next_coro := 1, lastSqe := Some 0,
      q_ring := (q_ring main_queue)\<lparr>sqes := (sqes (q_ring main_queue))(0 := (base_sqe IORING_OP_READ 9 0 4096 8)),
        kern := \<lparr>sim_cap = 1543, sim_tail = 1, sim_ready = [0], sim_cq = []\<rparr>\<rparr>,
      completers := \<lparr>cm_entries = (replicate 1543 \<lparr>entry_key = - 1, entry_value = 0\<rparr>)
          [0 := \<lparr>entry_key = 0, entry_value = 1\<rparr>], cm_count = 1\<rparr>,
      completer_mem := [1 \<mapsto> 0],
      awaiters := [0 \<mapsto> \<lparr>aw_operation = \<lparr>oh_io = True, oh_id = 0\<rparr>, aw_caller = f, aw_result = IoResult_default\<rparr>]\<rparr>"

definition main_done :: "(io_result \<Rightarrow> prog) \<Rightarrow> sim io_queue" where
  "main_done f = (main_waiting f)\<lparr>lastSqe := None, q_ring := (q_ring (main_waiting f))\<lparr>
      kern := \<lparr>sim_cap = 1543, sim_tail = 1, sim_ready = [], sim_cq = []\<rparr>\<rparr>,
      completers := \<lparr>cm_entries = (replicate 1543 \<lparr>entry_key = - 1, entry_value = 0\<rparr>)
          [0 := \<lparr>entry_key = 0, entry_value = Tombstone\<rparr>], cm_count = 0\<rparr>,
      completer_mem := Map.empty, awaiters := Map.empty, resumed := [(0, 8)]\<rparr>"

lemmas main_defs = sim_platform_def sim_lib_def sim_ring_def main_queue_def main_waiting_def main_done_def
  OpIdInvalid_def OpIdIgnore_def Let_def

lemma main_construct: "IoQueue_construct sim_platform 1024 (sim_ring 8) = Inr main_queue"
  by (simp add: IoQueue_construct_def IoQueueImpl_def impl_init_def CompleterMap_def ring_init_def
    getNextSize_def primes_def sim_platform_def sim_lib_def getParams_def sim_ring_def main_queue_def cm_capacity_def)

lemma upt_1543: "[0..<1543] = 0 # [Suc 0..<1543]"
  by (rule upt_conv_Cons) simp

lemma main_start: "start sim_platform (await_op (OpRead 9 4096 8) f) main_queue = Inr (main_waiting f)"
proof -
  have sub: "submit sim_platform (OpRead 9 4096 8) (main_queue\<lparr>next_coro := 1\<rparr>) =
     Inr (\<lparr>oh_io = True, oh_id = 0\<rparr>, (main_waiting f)\<lparr>completers := completers main_queue,
       completer_mem := Map.empty, awaiters := Map.empty\<rparr>)"
    unfolding submit.simps ioq_read_def prepareRead_def prepare_fill if_sqe_fill on_ring_def
    by (simp add: fill_initialized finalizeSqe_def getNextOpId_def finalizeSqe_id_def write_sqe_def main_defs base_sqe_def)
  have "cm_insert (completers main_queue) 0 1 = Inr (completers (main_waiting f))"
    by (simp add: cm_insert_def cm_size_def cm_capacity_def probe_index_def Empty_def upt_1543 main_defs)
  with sub show ?thesis
    by (simp add: start_def await_op_def await_suspend_def setCompleter_def oh_valid_def)
      (simp add: main_defs first_free.simps)
qed

lemma main_iteration:
  assumes "f 8 = Return"
  shows "run_iteration sim_platform (main_waiting f) = Inr (main_done f)"
proof -
  let ?c = "\<lparr>cqe_user_data = 0, cqe_res = 8\<rparr>"
  let ?q = "\<lambda>cq. (main_waiting f)\<lparr>lastSqe := None, q_ring := (q_ring (main_waiting f))\<lparr>
      kern := \<lparr>sim_cap = 1543, sim_tail = 1, sim_ready = [], sim_cq = cq\<rparr>\<rparr>\<rparr>"
  have "next_completion sim_platform (main_waiting f) = Inr (Some ?c, ?q [?c])"
    by (simp add: next_completion_def submitSqes_def peekCqe_def main_defs sim_res_def base_sqe_def)
  moreover have "cm_remove (completers (main_waiting f)) 0 = (1, completers (main_done f))"
    by (simp add: cm_remove_def cm_lookup_def probe_index_def upt_1543 main_defs Empty_def Tombstone_def)
  then have "dispatch sim_platform ?c (?q [?c]) = Inr ((main_done f)\<lparr>q_ring := q_ring (?q [?c])\<rparr>)"
    by (simp add: dispatch_def complete_def destroy_awaiter_def delete_completer_def null_handle_def
      oh_valid_def main_done_def main_waiting_def OpIdIgnore_def main_queue_def assms)
  ultimately show ?thesis
    by (simp add: run_iteration_split advanceCq_def main_done_def) (simp add: main_defs)
qed

lemma main_run:
  assumes "f 8 = Return"
  shows "run_all sim_platform (sim_ring 8) [await_op (OpRead 9 4096 8) f] 1000 = Some (Exit 0)"
proof -
  have a: "0 < cm_size (completers (main_waiting f))" "\<not> 0 < cm_size (completers (main_done f))"
    by (simp_all add: cm_size_def main_waiting_def main_done_def)
  have "run sim_platform (Suc (Suc 998)) (main_waiting f) = Some (Inr (main_done f))"
    by (simp only: run.simps a main_iteration [of f, OF assms] if_True if_False sum.case)
  then have "run sim_platform 1000 (main_waiting f) = Some (Inr (main_done f))" by (simp only: Suc_numeral add_Suc_right) simp
  then show ?thesis by (simp add: run_all_def main_construct main_start run_main_def)
qed

definition accepting_kernel :: "int list socket_api" where
  "accepting_kernel = refusing_kernel\<lparr>sys_listen := \<lambda>_ _ k. (0, k), inet := loopback_inet\<lparr>inet_aton := \<lambda>_. Some 0\<rparr>\<rparr>"

theorem programs_safe_witness:
  "fst (echo_tcp_coro_main accepting_kernel sim_platform (sim_ring 8) (\<lambda>_ _. 4096) 8192 (\<lambda>_. 64) 100 1000 []) \<noteq> Some (Failed UndefinedBehaviour) \<and>
   fst (echo_tcp_coro_main accepting_kernel sim_platform (sim_ring 8) (\<lambda>_ _. 4096) 8192 (\<lambda>_. 64) 100 1000 []) =
     serve_on sim_platform (sim_ring 8) (echo_server (\<lambda>_ _. 4096) 8192 (\<lambda>_. 64) 7 100) 1000 \<and>
   resolve_main sim_platform (sim_ring 8) False 9 4096 1 [] 1000 \<noteq> Some (Failed UndefinedBehaviour) \<and>
   resolve_main sim_platform (sim_ring 8) False 9 4096 1 [] 1000 = Some (Exit 0)"
proof -
  have n: "(3 + 1000) * (100 + 2) \<le> (2 ^ 64 - 2 :: nat)" by simp
  note safe = programs_safe [OF sim_malloc_ok sim_init_ok n, where r = "sim_ring 8"]
  have "ipp_parse (inet accepting_kernel) (''0.0.0.0'' @ CHR '':'' # ''4242'') = Inr (Some \<lparr>address = 0, port = 4242\<rparr>)"
    by (subst ipp_parse_split) (simp_all add: accepting_kernel_def is_digit_def decimal_value_def digit_value_def)
  moreover have "createTcpListenSocket accepting_kernel \<lparr>address = 0, port = 4242\<rparr> SOMAXCONN [] = (7, [])"
    by (simp add: accepting_kernel_def refusing_kernel_def createSocket_def createTcpListenSocket_def createSocket_bound_def
        bind_socket_def drop_fd_def)
  ultimately have "fst (echo_tcp_coro_main accepting_kernel sim_platform (sim_ring 8) (\<lambda>_ _. 4096) 8192 (\<lambda>_. 64) 100 1000 []) =
     serve_on sim_platform (sim_ring 8) (echo_server (\<lambda>_ _. 4096) 8192 (\<lambda>_. 64) 7 100) 1000"
    by (simp add: echo_tcp_coro_main_def listen_main_def)
  moreover have "resolve_main sim_platform (sim_ring 8) False 9 4096 1 [] 1000 = Some (Exit 0)"
    unfolding resolve_main_def resolve_start_def ioq_wait_def read_or_abort_def eventfd_read_def if_False
    by (rule main_run) (simp add: io_result_ok_def)
  moreover have "fst (echo_tcp_coro_main accepting_kernel sim_platform (sim_ring 8) (\<lambda>_ _. 4096) 8192 (\<lambda>_. 64) 100 1000 [])
      \<noteq> Some (Failed UndefinedBehaviour)" by (rule conjunct1 [OF safe])
  moreover have "resolve_main sim_platform (sim_ring 8) False 9 4096 1 [] 1000 \<noteq> Some (Failed UndefinedBehaviour)"
    by (rule safe [THEN conjunct2, THEN conjunct2, THEN conjunct2, THEN conjunct2, THEN conjunct2, THEN conjunct2])
  ultimately show ?thesis by blast
qed

text \<open>
  Accepting a connection in the proxy is undefined: when the accept operation of a proxy server, started by \<^verbatim>\<open>main\<close>, completes
  with a descriptor, the coroutine passes on a reference to an address that is gone and the address is read through it.
\<close>

theorem proxy_accept_undefined:
  assumes "ioq_wf q" and "registered q i = Some (ptr, c, a)" and "0 \<le> res"
    and "proxy_server mem (out_of_scope ua) sa ts forward backward upstreamSocket l peer peerLen (Suc n) =
      await_op (OpAccept l peer peerLen) (aw_caller a)"
  shows "dispatch P \<lparr>cqe_user_data = i, cqe_res = res\<rparr> q = Inl UndefinedBehaviour"
proof -
  from assms(4) have "aw_caller a = (\<lambda>fd. if \<not> io_result_ok fd then serve (\<lambda>i fd. handleClient (mem i) (out_of_scope ua) sa (ts i) (Suc n)
        (forward i) (backward i) fd (upstreamSocket i)) l peer peerLen n
      else Start (handleClient (mem n) (out_of_scope ua) sa (ts n) (Suc n) (forward n) (backward n) fd (upstreamSocket n))
        (\<lambda>_. serve (\<lambda>i fd. handleClient (mem i) (out_of_scope ua) sa (ts i) (Suc n) (forward i) (backward i) fd (upstreamSocket i)) l peer peerLen n))"
    by (simp add: proxy_server_def await_op_def fun_eq_iff)
  then have "aw_caller a res = Start Undefined
        (\<lambda>_. serve (\<lambda>i fd. handleClient (mem i) (out_of_scope ua) sa (ts i) (Suc n) (forward i) (backward i) fd (upstreamSocket i)) l peer peerLen n)"
    using assms(3) by (simp add: io_result_ok_def handleClient_def out_of_scope_def)
  with dispatch_registered(1) [OF assms(1), of "\<lparr>cqe_user_data = i, cqe_res = res\<rparr>" ptr c a P] assms(2) show ?thesis by simp
qed

text \<open>
  A TCP server exits with status 1 exactly when its listening socket could not be created, with an address that was
  parsed; every descriptor it obtained is then closed by the functions that create the socket.
\<close>

theorem tcp_main_exit:
  "fst (listen_main S P r serving n k) = Some (Exit 1) \<longleftrightarrow>
     (\<exists>a. ipp_parse (inet S) ''0.0.0.0:4242'' = Inr (Some a) \<and> fst (createTcpListenSocket S a SOMAXCONN k) = - 1)"
  using serve_on_exit [of P r _ n] by (auto simp: listen_main_def split: sum.splits option.splits prod.splits)

text \<open>
  The UDP servers do not listen on port 4242: the call that creates their socket passes the port as another
  parameter. They only ever bind port 0, which lets the kernel choose; what binding any other port would do
  makes no difference to the program.
\<close>

theorem udp_server_binds_port_0:
  "udp_main (S\<lparr>sys_bind := \<lambda>fd sa k. if sin_port sa = htons (inet S) 0 then sys_bind S fd sa k else f fd sa k\<rparr>) P r serving n k =
   udp_main S P r serving n k"
  by (simp add: udp_main_def createSocket_port_0 split: option.splits)

end
