(* ===== verification/Progress.thy ===== *)
theory Progress
  imports Discipline "HOL-Library.Multiset"
begin

text \<open>
  \<^verbatim>\<open>IoQueue::run\<close> returns. A client coroutine is a well-founded tree, and every resumption of one replaces the code
  that waits by parts of what follows it: the multiset of the continuations that wait decreases. So the loop
  resumes only finitely often, whatever the kernel answers, and it returns if the kernel keeps answering.
\<close>

subsection \<open>Continuations\<close>

text \<open>Everything a coroutine, or one it starts, can come to wait with.\<close>

primrec conts :: "prog \<Rightarrow> (io_result \<Rightarrow> prog) set" where
  "conts Return = {}"
| "conts (Submit oper k) = (\<Union>h. conts (k h))"
| "conts (LinkedTimeout ts fl h k) = (\<Union>h. conts (k h))"
| "conts (Await h k) = insert k (\<Union>r. conts (k r))"
| "conts (CancelOp h b k) = (\<Union>h. conts (k h))"
| "conts (Start p k) = conts p \<union> (\<Union>t. conts (k t))"
| "conts (Destroy d p) = conts p"
| "conts Undefined = {}"

definition below :: "(io_result \<Rightarrow> prog) \<Rightarrow> (io_result \<Rightarrow> prog) \<Rightarrow> bool" where
  "below k' k \<longleftrightarrow> (\<exists>r. k' \<in> conts (k r))"

lemma conts_accessible: "k \<in> conts p \<Longrightarrow> Wellfounded.accp below k"
proof (induction p arbitrary: k)
  case (Await h f)
  have sub: "Wellfounded.accp below k'" if "k' \<in> conts (f r)" for k' r using Await.IH [OF rangeI that] .
  have "Wellfounded.accp below f" by (rule accp.accI) (auto simp: below_def intro: sub)
  with Await.prems sub show ?case by auto
qed (auto intro: rangeI)

lemma wfp_below: "wfp below"
proof (rule accp_wfpI, rule allI)
  fix k show "Wellfounded.accp below k" by (rule accp.accI) (auto simp: below_def intro: conts_accessible)
qed

text \<open>The continuations of the coroutines that are suspended.\<close>

definition callers :: "(nat \<rightharpoonup> awaiter) \<Rightarrow> (io_result \<Rightarrow> prog) multiset" where
  "callers A = image_mset (\<lambda>c. aw_caller (the (A c))) (mset_set (dom A))"

lemma callers_drop:
  assumes "finite (dom A)" "A c = Some a"
  shows "callers A = add_mset (aw_caller a) (callers (A(c := None)))"
proof -
  have "mset_set (dom A) = add_mset c (mset_set (dom A - {c}))" using assms by (intro mset_set.remove) auto
  then have "callers A = add_mset (aw_caller a) (image_mset (\<lambda>c. aw_caller (the (A c))) (mset_set (dom A - {c})))"
    using assms(2) by (simp add: callers_def)
  moreover have "image_mset (\<lambda>c. aw_caller (the (A c))) (mset_set (dom A - {c})) = callers (A(c := None))"
    unfolding callers_def dom_fun_upd using assms(1) by (auto intro: image_mset_cong)
  ultimately show ?thesis by simp
qed

lemma callers_update:
  "finite (dom A) \<Longrightarrow> callers (A(c \<mapsto> a)) = add_mset (aw_caller a) (callers (A(c := None)))"
  using callers_drop [of "A(c \<mapsto> a)" c a] by simp

lemma callers_less: "finite (dom A) \<Longrightarrow> callers (A(c := None)) \<subseteq># callers A"
proof (cases "A c")
  case (Some a)
  assume "finite (dom A)"
  from callers_drop [OF this Some] show ?thesis by simp
next
  case None
  then have "A(c := None) = A" by auto
  then show ?thesis by simp
qed

subsection \<open>Execution\<close>

text \<open>The calls that change no frame of a suspended coroutine.\<close>

lemma finalize_awaiters:
  "awaiters (snd (finalizeSqe_id sqe u q)) = awaiters q" "awaiters (snd (finalizeSqe sqe q)) = awaiters q"
  by (auto simp: finalizeSqe_def finalizeSqe_id_def getNextOpId_def Let_def split: option.splits)

lemma on_ring_awaiters:
  assumes "on_ring prep f q = Inr (h, q')" "\<And>sqe q. awaiters (snd (f sqe q)) = awaiters q"
  shows "awaiters q' = awaiters q"
proof -
  from assms(1) obtain sqe r where "f sqe (q\<lparr>q_ring := r\<rparr>) = (h, q')" by (auto simp: on_ring_def bindE_eq_Inr)
  with assms(2) [of sqe "q\<lparr>q_ring := r\<rparr>"] show ?thesis by simp
qed

lemma submit_awaiters: "submit P oper q = Inr (h, q') \<Longrightarrow> awaiters q' = awaiters q"
  unfolding submit_on_ring by (erule on_ring_awaiters) (rule finalize_awaiters)

lemma link_awaiters: "linkTimeout P ts fl h q = Inr (h', q') \<Longrightarrow> awaiters q' = awaiters q"
  by (auto simp: linkTimeout_def assertE_def Let_def bindE_eq_Inr finalize_awaiters split: option.splits if_splits
      dest!: on_ring_awaiters)

lemma delete_awaiters: "delete_completer ptr q = Inr q' \<Longrightarrow> awaiters q' = awaiters q"
  by (auto simp: delete_completer_def split: if_splits)

lemma cancel_awaiters: "ioq_cancel P h b q = Inr (h', q') \<Longrightarrow> awaiters q' = awaiters q"
  by (auto simp: ioq_cancel_def assertE_def Let_def bindE_eq_Inr finalize_awaiters split: if_splits prod.splits
      dest!: on_ring_awaiters delete_awaiters)

lemma destroy_awaiters: "destroy_awaiter P c q = Inr q' \<Longrightarrow> awaiters q' = (awaiters q)(c := None)"
  by (auto simp: destroy_awaiter_def bindE_eq_Inr split: option.splits if_splits dest!: cancel_awaiters)

lemma await_awaiters:
  "await_suspend P h k c q = Inr q' \<Longrightarrow> \<exists>a. aw_caller a = k \<and> awaiters q' = (awaiters q)(c \<mapsto> a)"
  by (auto simp: await_suspend_def assertE_def setCompleter_def Let_def bindE_eq_Inr split: if_splits
      intro!: exI [of _ "\<lparr>aw_operation = h, aw_caller = k, aw_result = IoResult_default\<rparr>"])

text \<open>What runs adds continuations of its own code only, and takes others away at most.\<close>

definition adds :: "prog \<Rightarrow> (nat \<rightharpoonup> awaiter) \<Rightarrow> (nat \<rightharpoonup> awaiter) \<Rightarrow> bool" where
  "adds p A A' \<longleftrightarrow> finite (dom A') \<and> (\<exists>D. callers A' \<subseteq># callers A + D \<and> set_mset D \<subseteq> conts p)"

lemma adds_trans:
  assumes "adds p A A'" "adds p' A' A''" "conts p \<union> conts p' \<subseteq> conts p''"
  shows "adds p'' A A''"
proof -
  from assms obtain D D' where "callers A' \<subseteq># callers A + D" "set_mset D \<subseteq> conts p"
    "callers A'' \<subseteq># callers A' + D'" "set_mset D' \<subseteq> conts p'" "finite (dom A'')" by (auto simp: adds_def)
  moreover from calculation have "callers A'' \<subseteq># callers A + (D + D')"
    by (metis add.assoc subset_mset.add_right_mono subset_mset.order_trans)
  moreover have "set_mset (D + D') \<subseteq> conts p''" using calculation(2,4) assms(3) by auto
  ultimately show ?thesis unfolding adds_def by blast
qed

lemma adds_mono: "adds p A A' \<Longrightarrow> conts p \<subseteq> conts p' \<Longrightarrow> adds p' A A'"
  by (auto simp: adds_def)

lemma adds_drop: "finite (dom A) \<Longrightarrow> adds Return A (A(c := None))"
  using callers_less [of A c] by (auto simp: adds_def intro: finite_subset)

lemma exec_adds: "exec P p c q = Inr q' \<Longrightarrow> finite (dom (awaiters q)) \<Longrightarrow> adds p (awaiters q) (awaiters q')"
proof (induction p arbitrary: c q q')
  case Return
  then show ?case by (auto simp: adds_def)
next
  case (Submit oper k)
  from Submit.prems(1) obtain h q1 where q1: "submit P oper q = Inr (h, q1)" "exec P (k h) c q1 = Inr q'"
    by (auto simp: bindE_eq_Inr)
  have "adds (k h) (awaiters q) (awaiters q')"
    using Submit.IH [OF rangeI q1(2)] Submit.prems(2) by (simp add: submit_awaiters [OF q1(1)])
  then show ?case by (rule adds_mono) auto
next
  case (LinkedTimeout ts fl h k)
  from LinkedTimeout.prems(1) obtain h' q1 where q1: "linkTimeout P ts fl h q = Inr (h', q1)" "exec P (k h') c q1 = Inr q'"
    by (auto simp: bindE_eq_Inr)
  have "adds (k h') (awaiters q) (awaiters q')"
    using LinkedTimeout.IH [OF rangeI q1(2)] LinkedTimeout.prems(2) by (simp add: link_awaiters [OF q1(1)])
  then show ?case by (rule adds_mono) auto
next
  case (Await h k)
  from Await.prems(1) have "await_suspend P h k c q = Inr q'" by simp
  from await_awaiters [OF this] obtain a where a: "aw_caller a = k" "awaiters q' = (awaiters q)(c \<mapsto> a)" by blast
  have "callers (awaiters q') \<subseteq># callers (awaiters q) + {#k#}"
    using callers_update [OF Await.prems(2), of c a] callers_less [OF Await.prems(2), of c] a by simp
  moreover have "finite (dom (awaiters q'))" using Await.prems(2) a(2) by simp
  moreover have "set_mset {#k#} \<subseteq> conts (Await h k)" by simp
  ultimately show ?case unfolding adds_def by blast
next
  case (CancelOp h b k)
  from CancelOp.prems(1) obtain h' q1 where q1: "ioq_cancel P h b q = Inr (h', q1)" "exec P (k h') c q1 = Inr q'"
    by (auto simp: bindE_eq_Inr)
  have "adds (k h') (awaiters q) (awaiters q')"
    using CancelOp.IH [OF rangeI q1(2)] CancelOp.prems(2) by (simp add: cancel_awaiters [OF q1(1)])
  then show ?case by (rule adds_mono) auto
next
  case (Start p k)
  from Start.prems(1) obtain q1 where q1: "exec P p (next_coro q) (q\<lparr>next_coro := Suc (next_coro q)\<rparr>) = Inr q1"
    "exec P (k (next_coro q)) c q1 = Inr q'" by (auto simp: bindE_eq_Inr)
  have a: "adds p (awaiters q) (awaiters q1)" using Start.IH(1) [OF q1(1)] Start.prems(2) by simp
  then have "adds (k (next_coro q)) (awaiters q1) (awaiters q')" by (intro Start.IH(2) [OF rangeI q1(2)]) (simp add: adds_def)
  from a this show ?case by (rule adds_trans) auto
next
  case (Destroy d p)
  from Destroy.prems(1) obtain q1 where q1: "destroy_awaiter P d q = Inr q1" "exec P p c q1 = Inr q'" by (auto simp: bindE_eq_Inr)
  note d = adds_drop [OF Destroy.prems(2), of d, folded destroy_awaiters [OF q1(1)]]
  then have "adds p (awaiters q1) (awaiters q')" by (intro Destroy.IH [OF q1(2)]) (simp add: adds_def)
  from d this show ?case by (rule adds_trans) auto
qed simp

subsection \<open>The loop\<close>

text \<open>A completion for a coroutine that waits makes the multiset of continuations smaller.\<close>

lemma multp_replace:
  assumes "N \<subseteq># M + D" and "\<forall>k'\<in>#D. R k' k"
  shows "multp R N (add_mset k M)"
proof -
  let ?I = "N \<inter># M"
  have "N = ?I + (N - M)" by (rule multiset_eqI) (simp add: min_def)
  moreover have "add_mset k M = ?I + add_mset k (M - N)" by (rule multiset_eqI) (simp add: min_def)
  moreover have "multp R (?I + (N - M)) (?I + add_mset k (M - N))"
  proof (rule one_step_implies_multp)
    have "N - M \<subseteq># D" using assms(1) by (simp add: subset_eq_diff_conv add.commute)
    with assms(2) show "\<forall>k'\<in>#N - M. \<exists>j\<in>#add_mset k (M - N). R k' j" by (auto dest: mset_subset_eqD)
  qed simp
  ultimately show ?thesis by simp
qed

lemma wf_finite: "ioq_wf q \<Longrightarrow> finite (dom (awaiters q))"
proof -
  assume "ioq_wf q"
  from wf_exceptD(4) [OF this] have "dom (awaiters q) \<subseteq> {..<next_coro q}" by (auto simp: dom_def not_le [symmetric])
  then show ?thesis by (rule finite_subset) simp
qed

lemma dispatch_decreases:
  assumes wf: "ioq_wf q" and r: "registered q (cqe_user_data cq) = Some (ptr, c, a)" and d: "dispatch P cq q = Inr q'"
  shows "multp below (callers (awaiters q')) (callers (awaiters q))"
proof -
  let ?s = "resume_state (cqe_user_data cq) c (cqe_res cq) q" and ?A = "(awaiters q)(c := None)"
  note fin = wf_finite [OF wf]
  have A: "awaiters ?s = ?A" by (simp add: resume_state_def)
  from d obtain q1 where q1: "exec P (aw_caller a (cqe_res cq)) c ?s = Inr q1" "delete_completer ptr q1 = Inr q'"
    unfolding dispatch_registered(1) [OF wf r] by (auto simp: bindE_eq_Inr)
  have "adds (aw_caller a (cqe_res cq)) ?A (awaiters q')"
    using exec_adds [OF q1(1)] fin unfolding A delete_awaiters [OF q1(2)] by (auto intro: finite_subset)
  then obtain D where D: "callers (awaiters q') \<subseteq># callers ?A + D" "set_mset D \<subseteq> conts (aw_caller a (cqe_res cq))"
    by (auto simp: adds_def)
  have "\<forall>k'\<in>#D. below k' (aw_caller a)" using D(2) by (auto simp: below_def)
  from multp_replace [OF D(1), where R = below and k = "aw_caller a", OF this] callers_drop [OF fin, of c a] registeredD [OF r] show ?thesis by simp
qed

text \<open>
  The kernel, left to itself, posts a completion of an operation that is awaited, possibly after others. In
  between, the loop only submits and takes completions off the ring.
\<close>

inductive gets_answer :: "'k platform \<Rightarrow> 'k io_queue \<Rightarrow> bool" for P where
  now: "next_completion P q = Inr (Some c, q2) \<Longrightarrow> registered q (cqe_user_data c) \<noteq> None \<Longrightarrow> gets_answer P q"
| nothing: "next_completion P q = Inr (None, q2) \<Longrightarrow> gets_answer P q2 \<Longrightarrow> gets_answer P q"
| other: "next_completion P q = Inr (Some c, q2) \<Longrightarrow> registered q (cqe_user_data c) = None \<Longrightarrow>
    advanceCq (uring P) 1 (q_ring q2) = Inr r \<Longrightarrow> gets_answer P (q2\<lparr>q_ring := r\<rparr>) \<Longrightarrow> gets_answer P q"

definition loop_step :: "'k platform \<Rightarrow> 'k io_queue \<Rightarrow> 'k io_queue \<Rightarrow> bool" where
  "loop_step P q q' \<longleftrightarrow> 0 < cm_size (completers q) \<and> run_iteration P q = Inr q'"

definition kernel_answers :: "'k platform \<Rightarrow> 'k io_queue \<Rightarrow> bool" where
  "kernel_answers P q \<longleftrightarrow> (\<forall>q'. (loop_step P)\<^sup>*\<^sup>* q q' \<and> 0 < cm_size (completers q') \<longrightarrow> gets_answer P q')"

lemma kernel_answers_step: "kernel_answers P q \<Longrightarrow> loop_step P q q' \<Longrightarrow> kernel_answers P q'"
  unfolding kernel_answers_def by (meson converse_rtranclp_into_rtranclp)

lemma run_step: "loop_step P q q' \<Longrightarrow> run P n q' \<noteq> None \<Longrightarrow> run P (Suc n) q \<noteq> None"
  by (simp add: loop_step_def)

lemma registered_core:
  assumes "core q2 = core q"
  shows "registered q2 = registered q"
proof -
  note c = core_eqD [OF assms]
  show ?thesis by (rule ext) (simp only: registered_def c(1-3))
qed

text \<open>The client keeps to its rule however long the loop runs.\<close>

definition follows_rule :: "'k platform \<Rightarrow> 'k io_queue \<Rightarrow> bool" where
  "follows_rule P q \<longleftrightarrow> ioq_wf q \<and> (\<forall>n. run_single_await P n q)"

lemma follows_rule_step:
  assumes P: "malloc_ok P" and f: "follows_rule P q" and s: "loop_step P q q'"
  shows "follows_rule P q'"
proof -
  have r: "run_single_await P (Suc n) q" for n using f by (simp only: follows_rule_def)
  have "dispatch_single_await P c q2" if "next_completion P q = Inr (Some c, q2)" for c q2
    using r [of 0] that s by (simp add: loop_step_def)
  then have "ioq_wf q'"
    using run_iteration_wf [OF _ P, of q] f s by (simp add: follows_rule_def loop_step_def)
  moreover have "run_single_await P n q'" for n using r [of n] s by (simp add: loop_step_def)
  ultimately show ?thesis by (simp add: follows_rule_def)
qed

text \<open>An iteration that ends in an error makes \<open>run\<close> return; otherwise it is a step.\<close>

lemma iteration_cases:
  assumes "0 < cm_size (completers q)"
  shows "(\<exists>n. run P n q \<noteq> None) \<or> (\<exists>q'. loop_step P q q')"
proof (cases "run_iteration P q")
  case (Inl e)
  with assms have "run P (Suc 0) q \<noteq> None" by simp
  then show ?thesis by blast
qed (use assms in \<open>auto simp: loop_step_def\<close>)

definition gets_on :: "'k platform \<Rightarrow> 'k io_queue \<Rightarrow> bool" where
  "gets_on P q \<longleftrightarrow> (\<exists>n. run P n q \<noteq> None) \<or>
     (\<exists>q'. (loop_step P)\<^sup>+\<^sup>+ q q' \<and> multp below (callers (awaiters q')) (callers (awaiters q)))"

lemma gets_on_step:
  assumes "loop_step P q q'" "awaiters q' = awaiters q" "gets_on P q'"
  shows "gets_on P q"
  using assms(3) unfolding gets_on_def
proof (elim disjE exE conjE)
  fix n assume "run P n q' \<noteq> None"
  from run_step [OF assms(1) this] show "(\<exists>n. run P n q \<noteq> None) \<or>
     (\<exists>q'. (loop_step P)\<^sup>+\<^sup>+ q q' \<and> multp below (callers (awaiters q')) (callers (awaiters q)))" by blast
next
  fix q'' assume "(loop_step P)\<^sup>+\<^sup>+ q' q''" "multp below (callers (awaiters q'')) (callers (awaiters q'))"
  with assms(1,2) show "(\<exists>n. run P n q \<noteq> None) \<or>
     (\<exists>q'. (loop_step P)\<^sup>+\<^sup>+ q q' \<and> multp below (callers (awaiters q')) (callers (awaiters q)))"
    by (metis tranclp_into_tranclp2)
qed

lemma answers_gets_on:
  assumes P: "malloc_ok P"
  shows "gets_answer P q \<Longrightarrow> follows_rule P q \<Longrightarrow> 0 < cm_size (completers q) \<Longrightarrow> gets_on P q"
proof (induction rule: gets_answer.induct)
  case (now q c q2)
  have wf: "ioq_wf q" using now.prems(1) by (simp add: follows_rule_def)
  from next_completion_core [OF wf_exceptD(2) [OF wf], of P] now.hyps(1) have c2: "core q2 = core q" by auto
  have w2: "ioq_wf q2" using wf wf_core [OF c2] by blast
  from now.hyps(2) obtain ptr d a where r: "registered q2 (cqe_user_data c) = Some (ptr, d, a)"
    unfolding registered_core [OF c2] by (metis not_None_eq prod_cases3)
  from iteration_cases [OF now.prems(2), of P] show ?case
  proof (elim disjE exE)
    fix q' assume q': "loop_step P q q'"
    then obtain q3 where q3: "dispatch P c q2 = Inr q3" "awaiters q' = awaiters q3"
      using now.hyps(1) by (auto simp: loop_step_def run_iteration_split bindE_eq_Inr)
    from dispatch_decreases [OF w2 r q3(1)] have "multp below (callers (awaiters q')) (callers (awaiters q))"
      by (simp only: q3(2) core_eqD(3) [OF c2])
    with q' show "gets_on P q" unfolding gets_on_def by blast
  qed (auto simp: gets_on_def)
next
  case (nothing q q2)
  have wf: "ioq_wf q" using nothing.prems(1) by (simp add: follows_rule_def)
  from next_completion_core [OF wf_exceptD(2) [OF wf], of P] nothing.hyps(1) have c2: "core q2 = core q" by auto
  have s: "loop_step P q q2" using nothing.hyps(1) nothing.prems(2) by (simp add: loop_step_def run_iteration_split)
  from nothing.IH [OF follows_rule_step [OF P nothing.prems(1) s]] nothing.prems(2) core_eqD(1) [OF c2]
  have "gets_on P q2" by simp
  from gets_on_step [OF s core_eqD(3) [OF c2] this] show ?case .
next
  case (other q c q2 r)
  have wf: "ioq_wf q" using other.prems(1) by (simp add: follows_rule_def)
  from next_completion_core [OF wf_exceptD(2) [OF wf], of P] other.hyps(1) have c2: "core q2 = core q" by auto
  have w2: "ioq_wf q2" using wf wf_core [OF c2] by blast
  have "dispatch P c q2 = Inr q2"
    using other.hyps(2) by (intro dispatch_unregistered [OF w2]) (simp add: registered_core [OF c2])
  with other.hyps(1,3) other.prems(2) have s: "loop_step P q (q2\<lparr>q_ring := r\<rparr>)"
    by (simp add: loop_step_def run_iteration_split)
  from other.IH [OF follows_rule_step [OF P other.prems(1) s]] other.prems(2) core_eqD(1) [OF c2]
  have "gets_on P (q2\<lparr>q_ring := r\<rparr>)" by simp
  from gets_on_step [OF s _ this] core_eqD(3) [OF c2] show ?case by simp
qed

lemma run_steps:
  assumes "(loop_step P)\<^sup>*\<^sup>* q q'" "run P n q' \<noteq> None"
  shows "\<exists>n. run P n q \<noteq> None"
  using assms by (induction arbitrary: n rule: converse_rtranclp_induct) (blast dest: run_step)+

lemma loop_returns:
  assumes P: "malloc_ok P"
  shows "follows_rule P q \<Longrightarrow> kernel_answers P q \<Longrightarrow> \<exists>n. run P n q \<noteq> None"
proof (induction "callers (awaiters q)" arbitrary: q rule: wfp_induct_rule [OF wfp_multp [OF wfp_below]])
  case 1
  show ?case
  proof (cases "0 < cm_size (completers q)")
    case True
    then have "gets_answer P q" using 1(3) by (auto simp: kernel_answers_def)
    from answers_gets_on [OF P this 1(2) True] show ?thesis
      unfolding gets_on_def
    proof (elim disjE exE conjE)
      fix q' assume s: "(loop_step P)\<^sup>+\<^sup>+ q q'" and m: "multp below (callers (awaiters q')) (callers (awaiters q))"
      from s 1(2,3) have "follows_rule P q' \<and> kernel_answers P q'"
        by (induction rule: tranclp_induct) (auto intro: follows_rule_step [OF P] kernel_answers_step)
      then obtain n where "run P n q' \<noteq> None" using 1(1) [OF m] by blast
      from run_steps [OF tranclp_into_rtranclp [OF s] this] show "\<exists>n. run P n q \<noteq> None" .
    qed blast
  next
    case False
    then have "run P (Suc 0) q \<noteq> None" by simp
    then show ?thesis by blast
  qed
qed

subsection \<open>Properties\<close>

text \<open>
  C2: \<^verbatim>\<open>run\<close> returns for clients that end. A client here is a coroutine each of whose executions makes finitely many library calls
  (\<open>prog\<close> is a well-founded tree), with no bound common to all executions, such as a session or \<^verbatim>\<open>sendAll\<close>. If it
  awaits no operation twice at a time and the kernel keeps posting completions of
  operations that are awaited, in any order, with any results, and with any other completions in between, then
  the loop ends after finitely many iterations, and unless an assertion failed or the process was aborted every
  coroutine that waited for an operation has been resumed: no completer is left. Nothing is said of a server that accepts
  connections in a \<^verbatim>\<open>while (true)\<close>: it is not such a client, and \<^verbatim>\<open>run\<close> does not return for it.
\<close>

theorem run_returns:
  assumes P: "malloc_ok P" "init_ok P" and q0: "IoQueue_construct P sz r = Inr q0"
    and st: "start_single_await P main q0" "start P main q0 = Inr q"
    and once: "\<And>n. run_single_await P n q" and live: "kernel_answers P q"
  shows "\<exists>n res. run P n q = Some res \<and> res \<noteq> Inl UndefinedBehaviour \<and>
    (\<forall>q'. res = Inr q' \<longrightarrow> cm_abs (completers q') = Map.empty)"
proof -
  from construct_wf [OF P(2) q0] have "ioq_wf q0" by blast
  from start_wf [OF this P(1) st(1)] st(2) have wf: "ioq_wf q" by blast
  then have "follows_rule P q" using once by (simp add: follows_rule_def)
  from loop_returns [OF P(1) this live] obtain n res where r: "run P n q = Some res" by auto
  from run_wf [OF P(1) wf once [of n]] r
  have "res \<noteq> Inl UndefinedBehaviour" "\<And>q'. res = Inr q' \<Longrightarrow> ioq_wf q' \<and> cm_size (completers q') = 0" by auto
  with r cm_size_0_empty wf_exceptD(1) show ?thesis by blast
qed

lemma sim_answers: "kernel_answers sim_platform sim_waiting"
proof -
  have no_more: "cm_size (completers sim_done) = 0" by (simp add: sim_done_def cm_size_def)
  have "q' = sim_waiting \<or> q' = sim_done" if "(loop_step sim_platform)\<^sup>*\<^sup>* sim_waiting q'" for q'
    using that by (induction rule: rtranclp_induct) (auto simp: loop_step_def sim_iteration no_more)
  moreover have "gets_answer sim_platform sim_waiting"
  proof -
    let ?c = "\<lparr>cqe_user_data = 0, cqe_res = 512\<rparr>"
    let ?q = "sim_waiting\<lparr>lastSqe := None, q_ring := (q_ring sim_waiting)\<lparr>
      kern := \<lparr>sim_cap = 53, sim_tail = 1, sim_ready = [], sim_cq = [?c]\<rparr>\<rparr>\<rparr>"
    have "next_completion sim_platform sim_waiting = Inr (Some ?c, ?q)"
      by (simp add: next_completion_def submitSqes_def peekCqe_def sim_defs sim_res_def base_sqe_def)
    moreover have "registered sim_waiting (cqe_user_data ?c) \<noteq> None" by (simp add: sim_registered)
    ultimately show ?thesis by (rule gets_answer.now)
  qed
  ultimately show ?thesis unfolding kernel_answers_def using no_more by (metis less_irrefl)
qed

theorem run_returns_witness:
  "\<exists>n res. run sim_platform n sim_waiting = Some res \<and> res \<noteq> Inl UndefinedBehaviour \<and>
    (\<forall>q'. res = Inr q' \<longrightarrow> cm_abs (completers q') = Map.empty)"
  by (rule run_returns [OF sim_malloc_ok sim_init_ok sim_construct sim_start_single sim_start sim_run_single sim_answers])

end
