(* ===== verification/Descriptors.thy ===== *)
theory Descriptors
  imports Servers Fd
begin

text \<open>
  Which descriptors the example servers close, and when. A session owns its sockets in \<^verbatim>\<open>Fd\<close> objects; it passes the
  descriptor in such an object to the operations it submits, closes it with an asynchronous operation, and the destructor
  of the object closes what is left in it. The two directions of a connection of the proxy share two \<^verbatim>\<open>Fd\<close> objects and
  interleave: one direction may release a descriptor while the other is suspended. Here the objects are explicit, so
  that it is a theorem which descriptor an operation gets. The state is the store of \<^verbatim>\<open>Fd\<close> objects and the list of the
  operations in the order in which they are submitted; a step is the resumption of one coroutine with some result. On a
  full ring an operation is not submitted and awaiting it fails an assertion, which ends the program: such an execution
  is a prefix of one of the model. The connection is considered by itself, from an upstream address that exists; that \<^verbatim>\<open>serve\<close>
  holds a reference to one that does not is in \<open>Programs\<close>. The helper coroutines of \<^verbatim>\<open>WaitAll\<close> read \<^verbatim>\<open>this\<close> out of a closure that is gone
  when a direction ends (see \<open>Wait\<close>): \<open>intact\<close> says whether its storage still holds the pointer, and if not this is undefined.
\<close>

subsection \<open>Operations on descriptors in objects\<close>

record fd_io =
  objs :: fd_world
  ops :: "io_op list"

text \<open>An operation on the descriptor in object \<open>i\<close>, and \<^verbatim>\<open>io.close(fd.release())\<close>.\<close>

definition submit_fd :: "nat \<Rightarrow> (int \<Rightarrow> io_op) \<Rightarrow> fd_io \<Rightarrow> fd_io outcome" where
  "submit_fd i oper s = with_fd i (objs s) (Inr (s\<lparr>ops := ops s @ [oper (fd_value (objs s) i)]\<rparr>))"

definition close_released :: "nat \<Rightarrow> fd_io \<Rightarrow> fd_io outcome" where
  "close_released i s =
     with_fd i (objs s) (Inr (s\<lparr>objs := fd_release i (objs s), ops := ops s @ [OpClose (fd_value (objs s) i)]\<rparr>))"

definition destroy_fd :: "nat \<Rightarrow> fd_io \<Rightarrow> fd_io outcome" where
  "destroy_fd i s = bindE (fd_apply (Destruct i) (objs s)) (\<lambda>w. Inr (s\<lparr>objs := w\<rparr>))"

text \<open>The descriptor an operation is about, and the descriptors of the close operations among \<open>os\<close>.\<close>

fun op_fd :: "io_op \<Rightarrow> int" where
  "op_fd (OpAccept fd _ _) = fd"
| "op_fd (OpConnect fd _ _) = fd"
| "op_fd (OpSend fd _ _) = fd"
| "op_fd (OpRecv fd _ _) = fd"
| "op_fd (OpRead fd _ _) = fd"
| "op_fd (OpClose fd) = fd"
| "op_fd (OpShutdown fd _) = fd"
| "op_fd (OpPoll fd _) = fd"
| "op_fd (OpRecvmsg fd _ _) = fd"
| "op_fd (OpSendmsg fd _ _) = fd"
| "op_fd (OpTimeout _ _) = - 1"

fun closing :: "io_op \<Rightarrow> int list" where
  "closing (OpClose fd) = (if fd = - 1 then [] else [fd])"
| "closing _ = []"

definition closes :: "io_op list \<Rightarrow> int list" where
  "closes os = concat (map closing os)"

text \<open>After a close operation no operation names its descriptor, which the kernel may have given to another file.\<close>

primrec no_use_after_close :: "io_op list \<Rightarrow> bool" where
  "no_use_after_close [] = True"
| "no_use_after_close (oper # os) =
     ((\<forall>fd\<in>set (closing oper). \<forall>oper'\<in>set os. op_fd oper' \<noteq> fd) \<and> no_use_after_close os)"

lemma closes_simps [simp]: "closes [] = []" "closes (oper # os) = closing oper @ closes os" "closes (os @ os') = closes os @ closes os'"
  by (simp_all add: closes_def)

lemma closing_real: "- 1 \<notin> set (closing oper)"
  by (cases oper) auto

lemma closes_real: "- 1 \<notin> set (closes os)"
  by (simp add: closes_def closing_real)

lemma no_use_after_close_append:
  "no_use_after_close (os @ [oper]) \<longleftrightarrow> no_use_after_close os \<and> op_fd oper \<notin> set (closes os)"
  by (induction os) auto

lemma submit_fd_ops: "submit_fd i oper s = Inr s' \<Longrightarrow> ops s' = ops s @ [oper (fd_value (objs s) i)]"
  by (auto simp: submit_fd_def with_fd_def split: if_splits)

lemma close_released_ops: "close_released i s = Inr s' \<Longrightarrow> ops s' = ops s @ [OpClose (fd_value (objs s) i)]"
  by (auto simp: close_released_def with_fd_def split: if_splits)

subsection \<open>A connection of the proxy\<close>

text \<open>
  Where one direction is suspended: in an operation of the loop, where \<open>Sending offset sz\<close> is inside \<^verbatim>\<open>sendAll\<close>, or in one of
  the four operations that end it.
\<close>

datatype relay_pc = Receiving | Sending nat nat | ShutRecv | CloseRecv | ShutSend | CloseSend | RelayDone

definition relay_recv :: "nat \<Rightarrow> u64 \<Rightarrow> fd_io \<Rightarrow> (relay_pc \<times> fd_io) outcome" where
  "relay_recv recvSocket buf s =
     bindE (submit_fd recvSocket (\<lambda>fd. OpRecv fd buf 8192) s) (\<lambda>s. Inr (Receiving, s))"

definition relay_send :: "nat \<Rightarrow> u64 \<Rightarrow> nat \<Rightarrow> nat \<Rightarrow> fd_io \<Rightarrow> (relay_pc \<times> fd_io) outcome" where
  "relay_send sendSocket buf offset sz s =
     bindE (submit_fd sendSocket (\<lambda>fd. OpSend fd (buf + of_nat offset) (of_nat (sz - offset))) s)
       (\<lambda>s. Inr (Sending offset sz, s))"

definition relay_break :: "nat \<Rightarrow> fd_io \<Rightarrow> (relay_pc \<times> fd_io) outcome" where
  "relay_break recvSocket s = bindE (submit_fd recvSocket (\<lambda>fd. OpShutdown fd SHUT_RDWR) s) (\<lambda>s. Inr (ShutRecv, s))"

text \<open>What a direction does from the completion of its operation with the result \<open>res\<close> to its next suspension.\<close>

primrec relay_resume :: "nat \<Rightarrow> nat \<Rightarrow> u64 \<Rightarrow> io_result \<Rightarrow> relay_pc \<Rightarrow> fd_io \<Rightarrow> (relay_pc \<times> fd_io) outcome" where
  "relay_resume recvSocket sendSocket buf res Receiving = (\<lambda>s.
     if \<not> io_result_ok res then relay_break recvSocket s
     else if res = 0 then relay_break recvSocket s
     else relay_send sendSocket buf 0 (nat res) s)"
| "relay_resume recvSocket sendSocket buf res (Sending offset sz) = (\<lambda>s.
     if \<not> io_result_ok res then relay_break recvSocket s
     else let offset' = offset + nat res in
       if offset' < sz then relay_send sendSocket buf offset' sz s else relay_recv recvSocket buf s)"
| "relay_resume recvSocket sendSocket buf res ShutRecv = (\<lambda>s.
     bindE (close_released recvSocket s) (\<lambda>s. Inr (CloseRecv, s)))"
| "relay_resume recvSocket sendSocket buf res CloseRecv = (\<lambda>s.
     bindE (submit_fd sendSocket (\<lambda>fd. OpShutdown fd SHUT_RDWR) s) (\<lambda>s. Inr (ShutSend, s)))"
| "relay_resume recvSocket sendSocket buf res ShutSend = (\<lambda>s.
     bindE (close_released sendSocket s) (\<lambda>s. Inr (CloseSend, s)))"
| "relay_resume recvSocket sendSocket buf res CloseSend = (\<lambda>s. Inr (RelayDone, s))"
| "relay_resume recvSocket sendSocket buf res RelayDone = (\<lambda>s. Inl UndefinedBehaviour)"

text \<open>
  \<^verbatim>\<open>handleClient\<close>: object 1 is the parameter \<^verbatim>\<open>clientSocket\<close> in the frame of the coroutine, to which the \<^verbatim>\<open>Fd\<close> of the caller,
  object 0, has been moved; object 2 is the local variable \<^verbatim>\<open>upstreamSocket\<close>. \<open>Over\<close> is the end of the coroutine.
\<close>

definition clientSocket :: nat where "clientSocket = 1"
definition upstreamSocket :: nat where "upstreamSocket = 2"

datatype conn_pc = Connecting | CloseClient | CloseUpstream | Relaying relay_pc relay_pc | Over

type_synonym connection = "conn_pc \<times> fd_io"

definition conn_start :: "int \<Rightarrow> int \<Rightarrow> u64 \<Rightarrow> connection outcome" where
  "conn_start c u sa =
     bindE (foldE fd_apply [New c, MoveNew 0, Destruct 0, New u] fd_world0) (\<lambda>w.
     bindE (submit_fd upstreamSocket (\<lambda>fd. connect_sa fd sa) \<lparr>objs = w, ops = []\<rparr>) (\<lambda>s.
     Inr (Connecting, s)))"

definition conn_end :: "fd_io \<Rightarrow> connection outcome" where
  "conn_end s = bindE (destroy_fd upstreamSocket s) (\<lambda>s. bindE (destroy_fd clientSocket s) (\<lambda>s. Inr (Over, s)))"

text \<open>
  \<^verbatim>\<open>WaitAll\<close> after a step of one direction, which is at \<open>now\<close> then. A direction that is over resumes its helper coroutine, which reads
  the pointer captured in its closure. The closure is gone, so that this is undefined; \<open>intact\<close> is an execution in which its storage
  still holds the pointer (\<open>Wait\<close>). The connection goes on once both directions are over.
\<close>

definition relays_done :: "bool \<Rightarrow> relay_pc \<Rightarrow> relay_pc \<Rightarrow> relay_pc \<Rightarrow> fd_io \<Rightarrow> connection outcome" where
  "relays_done intact now a b s =
     (if now = RelayDone \<and> \<not> intact then Inl UndefinedBehaviour
      else if a = RelayDone \<and> b = RelayDone then conn_end s
      else Inr (Relaying a b, s))"

text \<open>The coroutine that is resumed: the connection itself, the direction to the upstream server or the one back.\<close>

datatype coroutine = Handler | Forward | Backward

fun conn_resume :: "bool \<Rightarrow> (nat \<Rightarrow> u64) \<Rightarrow> coroutine \<Rightarrow> io_result \<Rightarrow> connection \<Rightarrow> connection outcome" where
  "conn_resume intact mem Handler res (Connecting, s) =
     (if \<not> io_result_ok res then bindE (close_released clientSocket s) (\<lambda>s. Inr (CloseClient, s))
      else bindE (relay_recv clientSocket (mem 0) s) (\<lambda>(a, s).
           bindE (relay_recv upstreamSocket (mem 1) s) (\<lambda>(b, s). Inr (Relaying a b, s))))"
| "conn_resume intact mem Handler res (CloseClient, s) = bindE (close_released upstreamSocket s) (\<lambda>s. Inr (CloseUpstream, s))"
| "conn_resume intact mem Handler res (CloseUpstream, s) = conn_end s"
| "conn_resume intact mem Forward res (Relaying a b, s) =
     bindE (relay_resume clientSocket upstreamSocket (mem 0) res a s) (\<lambda>(a, s). relays_done intact a a b s)"
| "conn_resume intact mem Backward res (Relaying a b, s) =
     bindE (relay_resume upstreamSocket clientSocket (mem 1) res b s) (\<lambda>(b, s). relays_done intact b a b s)"
| "conn_resume intact mem _ res (_, s) = Inl UndefinedBehaviour"

text \<open>The coroutines that wait for an operation, and the steps: any of them is resumed with any result.\<close>

fun awaits_op :: "coroutine \<Rightarrow> conn_pc \<Rightarrow> bool" where
  "awaits_op Handler Connecting = True"
| "awaits_op Handler CloseClient = True"
| "awaits_op Handler CloseUpstream = True"
| "awaits_op Forward (Relaying a b) = (a \<noteq> RelayDone)"
| "awaits_op Backward (Relaying a b) = (b \<noteq> RelayDone)"
| "awaits_op _ _ = False"

inductive conn_step :: "bool \<Rightarrow> (nat \<Rightarrow> u64) \<Rightarrow> connection \<Rightarrow> connection \<Rightarrow> bool" for intact :: bool and mem :: "nat \<Rightarrow> u64" where
  resume: "awaits_op co (fst x) \<Longrightarrow> conn_resume intact mem co res x = Inr y \<Longrightarrow> conn_step intact mem x y"

subsection \<open>Invariant\<close>

text \<open>
  Which of the two descriptors has been taken out of its object, by the place where the coroutines are suspended.
\<close>

primrec recv_gone :: "relay_pc \<Rightarrow> bool" where
  "recv_gone Receiving = False"
| "recv_gone (Sending offset sz) = False"
| "recv_gone ShutRecv = False"
| "recv_gone CloseRecv = True"
| "recv_gone ShutSend = True"
| "recv_gone CloseSend = True"
| "recv_gone RelayDone = True"

definition send_gone :: "relay_pc \<Rightarrow> bool" where
  "send_gone pc \<longleftrightarrow> pc = CloseSend \<or> pc = RelayDone"

primrec client_gone :: "conn_pc \<Rightarrow> bool" where
  "client_gone Connecting = False"
| "client_gone CloseClient = True"
| "client_gone CloseUpstream = True"
| "client_gone (Relaying a b) = (recv_gone a \<or> send_gone b)"
| "client_gone Over = True"

primrec upstream_gone :: "conn_pc \<Rightarrow> bool" where
  "upstream_gone Connecting = False"
| "upstream_gone CloseClient = False"
| "upstream_gone CloseUpstream = True"
| "upstream_gone (Relaying a b) = (send_gone a \<or> recv_gone b)"
| "upstream_gone Over = True"

abbreviation remaining :: "bool \<Rightarrow> int \<Rightarrow> int" where
  "remaining gone fd \<equiv> if gone then - 1 else fd"

text \<open>
  Every descriptor is in its object or was passed to one close operation; no destructor has closed one; and nothing
  was submitted on a descriptor after its close.
\<close>

definition closes_inv :: "int \<Rightarrow> int \<Rightarrow> bool \<Rightarrow> bool \<Rightarrow> fd_io \<Rightarrow> bool" where
  "closes_inv c u gc gu s \<longleftrightarrow> closed (objs s) = [] \<and> no_use_after_close (ops s) \<and>
     mset (closes (ops s)) + owns (Some (remaining gc c)) + owns (Some (remaining gu u)) = owns (Some c) + owns (Some u)"

definition frame_inv :: "int \<Rightarrow> int \<Rightarrow> bool \<Rightarrow> bool \<Rightarrow> fd_io \<Rightarrow> bool" where
  "frame_inv c u gc gu s \<longleftrightarrow> closes_inv c u gc gu s \<and> fds (objs s) = [None, Some (remaining gc c), Some (remaining gu u)]"

definition conn_inv :: "int \<Rightarrow> int \<Rightarrow> connection \<Rightarrow> bool" where
  "conn_inv c u = (\<lambda>(pc, s).
     if pc = Over then closes_inv c u True True s
     else frame_inv c u (client_gone pc) (upstream_gone pc) s \<and> pc \<noteq> Relaying RelayDone RelayDone)"

lemma conn_invI:
  "pc \<noteq> Over \<Longrightarrow> pc \<noteq> Relaying RelayDone RelayDone \<Longrightarrow> frame_inv c u (client_gone pc) (upstream_gone pc) s \<Longrightarrow> conn_inv c u (pc, s)"
  by (simp add: conn_inv_def)

lemma remaining_not_closed:
  assumes "closes_inv c u gc gu s" and "c \<noteq> u"
  shows "remaining gc c \<notin> set (closes (ops s))" "remaining gu u \<notin> set (closes (ops s))"
proof -
  have m: "mset (closes (ops s)) + owns (Some (remaining gc c)) + owns (Some (remaining gu u)) = owns (Some c) + owns (Some u)"
    using assms(1) by (simp add: closes_inv_def)
  note r = closes_real [of "ops s"]
  have k: "count (mset (closes (ops s))) x + count (owns (Some (remaining gc c))) x + count (owns (Some (remaining gu u))) x =
      count (owns (Some c)) x + count (owns (Some u)) x" for x
    using arg_cong [OF m, of "\<lambda>M. count M x"] by (simp only: count_union)
  show "remaining gc c \<notin> set (closes (ops s))"
    using k [of c] r assms(2) by (cases "gc \<or> c = - 1") (auto split: if_splits)
  show "remaining gu u \<notin> set (closes (ops s))"
    using k [of u] r assms(2) by (cases "gu \<or> u = - 1") (auto split: if_splits)
qed

lemmas socket_defs = clientSocket_def upstreamSocket_def

lemma frame_alive:
  assumes "frame_inv c u gc gu s"
  shows "alive (objs s) clientSocket" "alive (objs s) upstreamSocket" "fd_value (objs s) clientSocket = remaining gc c"
    "fd_value (objs s) upstreamSocket = remaining gu u"
  using assms by (simp_all add: frame_inv_def alive_def fd_value_def socket_defs)

text \<open>An operation that closes nothing.\<close>

lemma submit_fd_frame:
  assumes f: "frame_inv c u gc gu s" and cu: "c \<noteq> u" and i: "i = clientSocket \<or> i = upstreamSocket"
    and o: "\<And>x. op_fd (oper x) = x" "\<And>x. closing (oper x) = []"
  shows "\<exists>s'. submit_fd i oper s = Inr s' \<and> frame_inv c u gc gu s'"
proof -
  have "closes_inv c u gc gu s" using f by (simp add: frame_inv_def)
  note nc = remaining_not_closed [OF this cu] and fa = frame_alive [OF f]
  from i have a: "alive (objs s) i" and v: "fd_value (objs s) i \<notin> set (closes (ops s))" using nc fa by auto
  show ?thesis using f a v
    by (simp add: submit_fd_def with_fd_def frame_inv_def closes_inv_def no_use_after_close_append o)
qed

text \<open>A close operation on the descriptor that is left in an object.\<close>

lemma closes_inv_close:
  assumes ci: "closes_inv c u gc gu s" and cu: "c \<noteq> u" and w: "closed (objs s') = []"
  shows "ops s' = ops s @ [OpClose (remaining gc c)] \<Longrightarrow> closes_inv c u True gu s'"
    and "ops s' = ops s @ [OpClose (remaining gu u)] \<Longrightarrow> closes_inv c u gc True s'"
proof -
  have m: "mset (closes (ops s)) + owns (Some (remaining gc c)) + owns (Some (remaining gu u)) = owns (Some c) + owns (Some u)"
    and n: "no_use_after_close (ops s)" using ci by (simp_all add: closes_inv_def)
  have e: "mset (closes (os @ [OpClose v])) = mset (closes os) + owns (Some v)" for os v by simp
  have z: "owns (Some (remaining True x)) = {#}" for x by simp
  note nc = remaining_not_closed [OF ci cu]
  show "closes_inv c u True gu s'" if o: "ops s' = ops s @ [OpClose (remaining gc c)]"
    unfolding closes_inv_def o e z no_use_after_close_append op_fd.simps add_0_right using m n nc w by (intro conjI)
  have m': "mset (closes (ops s)) + owns (Some (remaining gu u)) + owns (Some (remaining gc c)) = owns (Some c) + owns (Some u)"
    using m by (simp only: add.assoc add.commute [of "owns (Some (remaining gu u))"])
  show "closes_inv c u gc True s'" if o: "ops s' = ops s @ [OpClose (remaining gu u)]"
    unfolding closes_inv_def o e z no_use_after_close_append op_fd.simps add_0_right using m' n nc w by (intro conjI)
qed

lemma close_released_objs:
  assumes "alive (objs s) i"
  obtains s' where "close_released i s = Inr s'" "ops s' = ops s @ [OpClose (fd_value (objs s) i)]" "closed (objs s') = closed (objs s)"
    "fds (objs s') = (fds (objs s))[i := Some (- 1)]"
  using assms by (simp add: close_released_def with_fd_def fd_release_def fd_take_def)

lemma close_client_frame:
  assumes f: "frame_inv c u gc gu s" and cu: "c \<noteq> u"
  shows "\<exists>s'. close_released clientSocket s = Inr s' \<and> frame_inv c u True gu s'"
proof -
  have ci: "closes_inv c u gc gu s" and w: "fds (objs s) = [None, Some (remaining gc c), Some (remaining gu u)]"
    using f by (simp_all add: frame_inv_def)
  note fa = frame_alive [OF f]
  from close_released_objs [OF fa(1)] obtain s' where s': "close_released clientSocket s = Inr s'"
    "ops s' = ops s @ [OpClose (fd_value (objs s) clientSocket)]" "closed (objs s') = closed (objs s)"
    "fds (objs s') = (fds (objs s))[clientSocket := Some (- 1)]" .
  have "closes_inv c u True gu s'"
    using closes_inv_close(1) [OF ci cu _ s'(2) [unfolded fa(3)]] s'(3) ci by (simp add: closes_inv_def)
  with s' w show ?thesis by (simp add: frame_inv_def socket_defs)
qed

lemma close_upstream_frame:
  assumes f: "frame_inv c u gc gu s" and cu: "c \<noteq> u"
  shows "\<exists>s'. close_released upstreamSocket s = Inr s' \<and> frame_inv c u gc True s'"
proof -
  have ci: "closes_inv c u gc gu s" and w: "fds (objs s) = [None, Some (remaining gc c), Some (remaining gu u)]"
    using f by (simp_all add: frame_inv_def)
  note fa = frame_alive [OF f]
  from close_released_objs [OF fa(2)] obtain s' where s': "close_released upstreamSocket s = Inr s'"
    "ops s' = ops s @ [OpClose (fd_value (objs s) upstreamSocket)]" "closed (objs s') = closed (objs s)"
    "fds (objs s') = (fds (objs s))[upstreamSocket := Some (- 1)]" .
  have "closes_inv c u gc True s'"
    using closes_inv_close(2) [OF ci cu _ s'(2) [unfolded fa(4)]] s'(3) ci by (simp add: closes_inv_def)
  with s' w show ?thesis by (simp add: frame_inv_def socket_defs)
qed

lemma conn_end_frame:
  assumes "frame_inv c u True True s"
  shows "\<exists>s'. conn_end s = Inr (Over, s') \<and> conn_inv c u (Over, s')"
  using assms
  by (auto simp: conn_end_def destroy_fd_def conn_inv_def frame_inv_def closes_inv_def with_fd_def alive_def fd_value_def
      Fd_destroy_def fd_close_def socket_defs Let_def)

subsection \<open>Steps keep the invariant\<close>

lemma relay_submits_frame:
  assumes f: "frame_inv c u gc gu s" and cu: "c \<noteq> u" and i: "i = clientSocket \<or> i = upstreamSocket"
  shows "\<exists>s'. relay_recv i buf s = Inr (Receiving, s') \<and> frame_inv c u gc gu s'"
    and "\<exists>s'. relay_send i buf offset sz s = Inr (Sending offset sz, s') \<and> frame_inv c u gc gu s'"
    and "\<exists>s'. relay_break i s = Inr (ShutRecv, s') \<and> frame_inv c u gc gu s'"
    and "\<exists>s'. submit_fd i (\<lambda>fd. OpShutdown fd SHUT_RDWR) s = Inr s' \<and> frame_inv c u gc gu s'"
  using submit_fd_frame [OF f cu i, of "\<lambda>fd. OpRecv fd buf 8192"]
    submit_fd_frame [OF f cu i, of "\<lambda>fd. OpSend fd (buf + of_nat offset) (of_nat (sz - offset))"]
    submit_fd_frame [OF f cu i, of "\<lambda>fd. OpShutdown fd SHUT_RDWR"]
  by (auto simp: relay_recv_def relay_send_def relay_break_def)

text \<open>One direction is resumed; \<open>x\<close> and \<open>y\<close> say what the other direction has taken.\<close>

lemma relay_forward_frame:
  assumes f: "frame_inv c u (recv_gone a \<or> x) (send_gone a \<or> y) s" and cu: "c \<noteq> u" and a: "a \<noteq> RelayDone"
  shows "\<exists>a' s'. relay_resume clientSocket upstreamSocket buf res a s = Inr (a', s') \<and>
    frame_inv c u (recv_gone a' \<or> x) (send_gone a' \<or> y) s'"
  using a f close_client_frame [OF f cu] close_upstream_frame [OF f cu] relay_submits_frame [OF f cu, of clientSocket]
    relay_submits_frame [OF f cu, of upstreamSocket]
  by (cases a) (fastforce simp: send_gone_def Let_def)+

lemma relay_backward_frame:
  assumes f: "frame_inv c u (x \<or> send_gone b) (y \<or> recv_gone b) s" and cu: "c \<noteq> u" and b: "b \<noteq> RelayDone"
  shows "\<exists>b' s'. relay_resume upstreamSocket clientSocket buf res b s = Inr (b', s') \<and>
    frame_inv c u (x \<or> send_gone b') (y \<or> recv_gone b') s'"
  using b f close_client_frame [OF f cu] close_upstream_frame [OF f cu] relay_submits_frame [OF f cu, of clientSocket]
    relay_submits_frame [OF f cu, of upstreamSocket]
  by (cases b) (fastforce simp: send_gone_def Let_def)+

lemma relays_done_inv:
  assumes "frame_inv c u (client_gone (Relaying a b)) (upstream_gone (Relaying a b)) s" and "intact \<or> now \<noteq> RelayDone"
  shows "\<exists>y. relays_done intact now a b s = Inr y \<and> conn_inv c u y"
proof (cases "a = RelayDone \<and> b = RelayDone")
  case True
  with assms have "frame_inv c u True True s" by (simp add: send_gone_def)
  from conn_end_frame [OF this] True assms(2) show ?thesis by (auto simp: relays_done_def)
next
  case False
  have "conn_inv c u (Relaying a b, s)" by (rule conn_invI [OF _ _ assms(1)]) (use False in simp_all)
  with False assms(2) show ?thesis by (auto simp: relays_done_def)
qed

text \<open>The operation that a coroutine waits for is the last one of a direction.\<close>

fun ending :: "coroutine \<Rightarrow> conn_pc \<Rightarrow> bool" where
  "ending Forward (Relaying a b) \<longleftrightarrow> a = CloseSend"
| "ending Backward (Relaying a b) \<longleftrightarrow> b = CloseSend"
| "ending _ _ \<longleftrightarrow> False"

lemma relay_resume_done: "relay_resume i j buf res a s = Inr (RelayDone, s') \<Longrightarrow> a = CloseSend"
  by (cases a) (auto simp: bindE_eq_Inr relay_break_def relay_send_def relay_recv_def Let_def split: if_splits)

lemma conn_resume_ending:
  assumes "ending co pc"
  shows "conn_resume False mem co res (pc, s) = Inl UndefinedBehaviour"
  using assms by (cases co; cases pc) (simp_all add: relays_done_def)

text \<open>Whichever coroutine that waits is resumed, with whatever result, no object is accessed after its destruction.\<close>

lemma conn_resume_inv:
  assumes inv: "conn_inv c u (pc, s)" and cu: "c \<noteq> u" and w: "awaits_op co pc" and k: "intact \<or> \<not> ending co pc"
  shows "\<exists>y. conn_resume intact mem co res (pc, s) = Inr y \<and> conn_inv c u y"
proof (cases pc)
  case Connecting
  with inv have f: "frame_inv c u False False s" by (simp add: conn_inv_def)
  obtain s1 where s1: "relay_recv clientSocket (mem 0) s = Inr (Receiving, s1)" "frame_inv c u False False s1"
    using relay_submits_frame(1) [OF f cu] by blast
  obtain s2 where s2: "relay_recv upstreamSocket (mem 1) s1 = Inr (Receiving, s2)" "frame_inv c u False False s2"
    using relay_submits_frame(1) [OF s1(2) cu] by blast
  obtain s3 where s3: "close_released clientSocket s = Inr s3" "frame_inv c u True False s3"
    using close_client_frame [OF f cu] by blast
  have "conn_inv c u (CloseClient, s3)" "conn_inv c u (Relaying Receiving Receiving, s2)"
    using s2(2) s3(2) by (simp_all add: conn_inv_def send_gone_def)
  with s1(1) s2(1) s3(1) w Connecting show ?thesis by (cases co) auto
next
  case CloseClient
  with inv have f: "frame_inv c u True False s" by (simp add: conn_inv_def)
  obtain s1 where s1: "close_released upstreamSocket s = Inr s1" "frame_inv c u True True s1"
    using close_upstream_frame [OF f cu] by blast
  then have "conn_inv c u (CloseUpstream, s1)" by (simp add: conn_inv_def)
  with s1(1) w CloseClient show ?thesis by (cases co) auto
next
  case CloseUpstream
  with inv have f: "frame_inv c u True True s" by (simp add: conn_inv_def)
  from conn_end_frame [OF f] w CloseUpstream show ?thesis by (cases co) auto
next
  case (Relaying a b)
  with inv have f: "frame_inv c u (recv_gone a \<or> send_gone b) (send_gone a \<or> recv_gone b) s" by (simp add: conn_inv_def)
  show ?thesis
  proof (cases co)
    case Forward
    with w Relaying have "a \<noteq> RelayDone" by simp
    from relay_forward_frame [OF f cu this, of "mem 0" res] obtain a' s' where
      "relay_resume clientSocket upstreamSocket (mem 0) res a s = Inr (a', s')"
      "frame_inv c u (recv_gone a' \<or> send_gone b) (send_gone a' \<or> recv_gone b) s'" by blast
    moreover from this(1) k have "intact \<or> a' \<noteq> RelayDone" using relay_resume_done by (auto simp: Forward Relaying)
    ultimately show ?thesis using relays_done_inv [of c u a' b s' intact a'] by (simp add: Forward Relaying)
  next
    case Backward
    with w Relaying have "b \<noteq> RelayDone" by simp
    from relay_backward_frame [OF f cu this, of "mem 1" res] obtain b' s' where
      "relay_resume upstreamSocket clientSocket (mem 1) res b s = Inr (b', s')"
      "frame_inv c u (recv_gone a \<or> send_gone b') (send_gone a \<or> recv_gone b') s'" by blast
    moreover from this(1) k have "intact \<or> b' \<noteq> RelayDone" using relay_resume_done by (auto simp: Backward Relaying)
    ultimately show ?thesis using relays_done_inv [of c u a b' s' intact b'] by (simp add: Backward Relaying)
  qed (use w Relaying in simp)
qed (use w in \<open>cases co; simp\<close>)

lemma conn_resume_keeps:
  assumes inv: "conn_inv c u (pc, s)" and cu: "c \<noteq> u" and w: "awaits_op co pc" and st: "conn_resume intact mem co res (pc, s) = Inr y"
  shows "conn_inv c u y"
proof (cases "intact \<or> \<not> ending co pc")
  case True
  from conn_resume_inv [OF inv cu w True, of mem res] st show ?thesis by auto
next
  case False
  with conn_resume_ending [of co pc mem res s] st show ?thesis by simp
qed

lemma conn_start_inv:
  assumes "c \<noteq> u"
  shows "\<exists>s. conn_start c u sa = Inr (Connecting, s) \<and> conn_inv c u (Connecting, s)"
  using assms
  by (simp add: conn_start_def submit_fd_def conn_inv_def frame_inv_def closes_inv_def connect_sa_def fd_world0_def fd_defs with_fd_def
      alive_def fd_value_def upstreamSocket_def)

interpretation conn: invariant_system "\<lambda>x. conn_start c u sa = Inr x" "conn_step intact mem" "\<lambda>x. c \<noteq> u \<longrightarrow> conn_inv c u x"
  for c u :: int and sa :: u64 and intact :: bool and mem :: "nat \<Rightarrow> u64"
proof unfold_locales
  fix x assume "conn_start c u sa = Inr x"
  then show "c \<noteq> u \<longrightarrow> conn_inv c u x" using conn_start_inv [of c u sa] by auto
next
  fix x y assume inv: "c \<noteq> u \<longrightarrow> conn_inv c u x" and step: "conn_step intact mem x y"
  from step obtain co res where st: "awaits_op co (fst x)" "conn_resume intact mem co res x = Inr y" by (auto elim: conn_step.cases)
  show "c \<noteq> u \<longrightarrow> conn_inv c u y"
  proof
    assume cu: "c \<noteq> u"
    with inv st conn_resume_keeps [of c u "fst x" "snd x" co intact mem res y] show "conn_inv c u y" by simp
  qed
qed

abbreviation conn_reach :: "int \<Rightarrow> int \<Rightarrow> u64 \<Rightarrow> bool \<Rightarrow> (nat \<Rightarrow> u64) \<Rightarrow> connection \<Rightarrow> bool" where
  "conn_reach c u sa intact mem \<equiv> reach (\<lambda>x. conn_start c u sa = Inr x) (conn_step intact mem)"

lemma conn_reach_inv: "conn_reach c u sa intact mem x \<Longrightarrow> c \<noteq> u \<Longrightarrow> conn_inv c u x"
  using conn.reach_inv by blast

lemma conn_inv_closes: "conn_inv c u (pc, s) \<Longrightarrow> closes_inv c u (client_gone pc) (upstream_gone pc) s"
  by (auto simp: conn_inv_def frame_inv_def split: if_splits)

lemma closes_once:
  assumes "closes_inv c u gc gu s" and "c \<noteq> u"
  shows "distinct (closes (ops s))" "set (closes (ops s)) \<subseteq> {c, u}" "gc \<Longrightarrow> gu \<Longrightarrow> set (closes (ops s)) = {c, u} - {- 1}"
proof -
  have m: "mset (closes (ops s)) + owns (Some (remaining gc c)) + owns (Some (remaining gu u)) = owns (Some c) + owns (Some u)"
    using assms(1) by (simp add: closes_inv_def)
  have k: "count (mset (closes (ops s))) x \<le> count (owns (Some c)) x + count (owns (Some u)) x" for x
    using arg_cong [OF m, of "\<lambda>M. count M x"] by (simp only: count_union)
  have "count (owns (Some c)) x + count (owns (Some u)) x \<le> 1" for x using assms(2) by simp
  then have "count (mset (closes (ops s))) x \<le> 1" for x using k order_trans by blast
  then show "distinct (closes (ops s))"
    unfolding distinct_count_atmost_1 by (metis One_nat_def count_mset_0_iff le_SucE le_zero_eq)
  show "set (closes (ops s)) \<subseteq> {c, u}"
  proof
    fix x assume "x \<in> set (closes (ops s))"
    then have "0 < count (mset (closes (ops s))) x" by (simp add: count_greater_zero_iff)
    with k [of x] show "x \<in> {c, u}" by (auto split: if_splits)
  qed
  show "set (closes (ops s)) = {c, u} - {- 1}" if "gc" "gu"
  proof -
    from m that have "mset (closes (ops s)) = owns (Some c) + owns (Some u)" by simp
    then have "set_mset (mset (closes (ops s))) = set_mset (owns (Some c) + owns (Some u))" by (rule arg_cong)
    then show ?thesis by (auto split: if_splits)
  qed
qed

text \<open>Some steps one after the other, each of a coroutine that waits.\<close>

fun conn_run :: "bool \<Rightarrow> (nat \<Rightarrow> u64) \<Rightarrow> (coroutine \<times> io_result) list \<Rightarrow> connection \<Rightarrow> connection option" where
  "conn_run intact mem [] x = Some x"
| "conn_run intact mem ((co, res) # cs) x =
     (if awaits_op co (fst x) then case conn_resume intact mem co res x of Inl e \<Rightarrow> None | Inr y \<Rightarrow> conn_run intact mem cs y else None)"

lemma conn_run_reach: "conn_reach c u sa intact mem x \<Longrightarrow> conn_run intact mem cs x = Some y \<Longrightarrow> conn_reach c u sa intact mem y"
proof (induction cs arbitrary: x)
  case (Cons z cs)
  obtain co res where z: "z = (co, res)" by (cases z)
  with Cons.prems(2) obtain x' where x': "awaits_op co (fst x)" "conn_resume intact mem co res x = Inr x'" "conn_run intact mem cs x' = Some y"
    by (auto split: if_splits sum.splits)
  have "conn_reach c u sa intact mem x'" by (rule reach_step [OF Cons.prems(1)]) (rule conn_step.resume [OF x'(1,2)])
  from Cons.IH [OF this x'(3)] show ?case .
qed simp

text \<open>How many failing operations the coroutines are away from their end.\<close>

primrec relay_weight :: "relay_pc \<Rightarrow> nat" where
  "relay_weight Receiving = 5"
| "relay_weight (Sending offset sz) = 5"
| "relay_weight ShutRecv = 4"
| "relay_weight CloseRecv = 3"
| "relay_weight ShutSend = 2"
| "relay_weight CloseSend = 1"
| "relay_weight RelayDone = 0"

primrec conn_weight :: "conn_pc \<Rightarrow> nat" where
  "conn_weight Connecting = 3"
| "conn_weight CloseClient = 2"
| "conn_weight CloseUpstream = 1"
| "conn_weight (Relaying a b) = relay_weight a + relay_weight b"
| "conn_weight Over = 0"

lemma relay_resume_failing:
  assumes "relay_resume i j buf res a s = Inr (a', s')" and "res < 0"
  shows "relay_weight a = Suc (relay_weight a')"
  using assms by (cases a) (auto simp: io_result_ok_def relay_break_def bindE_eq_Inr)

lemma relays_done_weight: "relays_done intact now a b s = Inr (pc, s') \<Longrightarrow> conn_weight pc = relay_weight a + relay_weight b"
  by (auto simp: relays_done_def conn_end_def bindE_eq_Inr split: if_splits)

lemma conn_resume_failing:
  assumes "conn_resume intact mem co res (pc, s) = Inr (pc', s')" and "res < 0"
  shows "conn_weight pc = Suc (conn_weight pc')"
  using assms
  by (cases co; cases pc)
    (auto simp: io_result_ok_def bindE_eq_Inr conn_end_def dest!: relays_done_weight relay_resume_failing)

lemma conn_not_stuck: "conn_inv c u (pc, s) \<Longrightarrow> pc \<noteq> Over \<Longrightarrow> awaits_op Handler pc \<or> awaits_op Forward pc \<or> awaits_op Backward pc"
  by (cases pc) (auto simp: conn_inv_def)

subsection \<open>The echo servers\<close>

text \<open>
  The end of a session. The coroutine closes what it releases from its \<^verbatim>\<open>Fd\<close>, and the frame is destroyed. \<^verbatim>\<open>Session::close\<close>
  of the server with callbacks passes the descriptor without releasing it; the session is owned by the callback that
  calls it, and is destroyed when that returns, before the loop submits the operation to the kernel.
\<close>

definition echo_finish :: "nat \<Rightarrow> fd_io \<Rightarrow> fd_io outcome" where
  "echo_finish socket s = bindE (close_released socket s) (destroy_fd socket)"

definition session_finish :: "nat \<Rightarrow> fd_io \<Rightarrow> fd_io outcome" where
  "session_finish i s = bindE (submit_fd i OpClose s) (destroy_fd i)"

lemmas finish_defs = echo_finish_def session_finish_def close_released_def submit_fd_def destroy_fd_def with_fd_def alive_def
  fd_release_def fd_take_def Fd_destroy_def fd_close_def fd_value_def Let_def

lemma echo_finish_closes:
  assumes "alive (objs s) i" and "fd_value (objs s) i = fd" "fd \<noteq> - 1"
  shows "\<exists>s'. echo_finish i s = Inr s' \<and> closes (ops s') = closes (ops s) @ [fd] \<and> closed (objs s') = closed (objs s)"
  using assms by (auto simp: finish_defs)

subsection \<open>Properties\<close>

text \<open>
  C9: A connection of the proxy closes its descriptors properly, however its two directions interleave and whatever
  their operations return. Each of the two descriptors is passed to a close operation at most once, and no operation is
  submitted on it afterwards, when the kernel may already have given its number to another connection; when the
  coroutine is over both have been closed that way, and no destructor had to close one synchronously. No step accesses
  an \<^verbatim>\<open>Fd\<close> that is gone: the coroutine that owns them outlives both directions. The one thing that is undefined is the
  end of a direction, where \<^verbatim>\<open>WaitAll\<close> reads its dead closure, unless the storage of the closure is intact.
\<close>

theorem proxy_descriptors:
  assumes "c \<noteq> u" and "conn_reach c u sa intact mem (pc, s)"
  shows "no_use_after_close (ops s) \<and> distinct (closes (ops s)) \<and> set (closes (ops s)) \<subseteq> {c, u} \<and> closed (objs s) = [] \<and>
    (pc = Over \<longrightarrow> set (closes (ops s)) = {c, u} - {- 1}) \<and>
    (\<forall>co res. awaits_op co pc \<longrightarrow>
      (if intact \<or> \<not> ending co pc then \<exists>y. conn_resume intact mem co res (pc, s) = Inr y
       else conn_resume intact mem co res (pc, s) = Inl UndefinedBehaviour))"
proof -
  have inv: "conn_inv c u (pc, s)" by (rule conn_reach_inv [OF assms(2,1)])
  note ci = conn_inv_closes [OF inv]
  have "if intact \<or> \<not> ending co pc then \<exists>y. conn_resume intact mem co res (pc, s) = Inr y
      else conn_resume intact mem co res (pc, s) = Inl UndefinedBehaviour" if "awaits_op co pc" for co res
    using conn_resume_inv [OF inv assms(1) that, of intact mem res] conn_resume_ending [of co pc mem res s] by (cases intact) auto
  moreover have "set (closes (ops s)) = {c, u} - {- 1}" if "pc = Over"
    using closes_once(3) [OF ci assms(1)] that by simp
  moreover have "no_use_after_close (ops s)" "closed (objs s) = []" using ci by (simp_all add: closes_inv_def)
  ultimately show ?thesis using closes_once(1,2) [OF ci assms(1)] by blast
qed

text \<open>
  A connection in which the client closes first: the forward direction ends, and releases both descriptors while the
  backward direction is still receiving.
\<close>

definition client_leaves :: "(coroutine \<times> io_result) list" where
  "client_leaves = [(Handler, 0), (Forward, 100), (Forward, 60), (Forward, 40), (Forward, 0), (Forward, 0), (Forward, 0), (Backward, 0),
     (Forward, 0), (Backward, - 9), (Forward, 0), (Backward, - 9), (Backward, - 9), (Backward, - 9)]"

definition left_ops :: "io_op list" where
  "left_ops = [OpConnect 6 16 16, OpRecv 5 4096 8192, OpRecv 6 4096 8192, OpSend 6 4096 100, OpSend 6 4156 40, OpRecv 5 4096 8192,
     OpShutdown 5 2, OpClose 5, OpShutdown 6 2, OpShutdown 6 2, OpClose 6, OpClose (- 1), OpShutdown (- 1) 2, OpClose (- 1)]"

lemma client_leaves_run:
  "\<exists>x s. conn_start 5 6 16 = Inr x \<and> conn_run True (\<lambda>_. 4096) client_leaves x = Some (Over, s) \<and> ops s = left_ops"
  by (simp add: conn_start_def submit_fd_def connect_sa_def fd_world0_def fd_defs with_fd_def alive_def fd_value_def socket_defs
      client_leaves_def left_ops_def relay_recv_def relay_send_def relay_break_def io_result_ok_def SHUT_RDWR_def relays_done_def conn_end_def
      destroy_fd_def close_released_def nth_Cons')

theorem proxy_descriptors_witness:
  "\<exists>s. conn_reach 5 6 16 True (\<lambda>_. 4096) (Over, s) \<and> ops s = left_ops \<and> no_use_after_close left_ops \<and>
     set (closes left_ops) = {5, 6} \<and> closed (objs s) = []"
proof -
  from client_leaves_run obtain x s where x: "conn_start 5 6 16 = Inr x" "conn_run True (\<lambda>_. 4096) client_leaves x = Some (Over, s)" "ops s = left_ops"
    by blast
  have "conn_reach 5 6 16 True (\<lambda>_. 4096) x" by (rule reach_init) (rule x(1))
  from conn_run_reach [OF this x(2)] have r: "conn_reach 5 6 16 True (\<lambda>_. 4096) (Over, s)" .
  have "(5 :: int) \<noteq> 6" by simp
  from proxy_descriptors [OF this r] r x(3) show ?thesis by auto
qed

text \<open>
  A connection of the proxy ends once its operations fail, as they do when its sockets are shut down: as long as the
  coroutine is not over one of its parts waits for an operation, and every operation that fails brings it one step
  closer to its end, at most ten in all. The storage of the closures of \<^verbatim>\<open>WaitAll\<close> has to be intact.
\<close>

theorem proxy_connection_ends:
  assumes "c \<noteq> u" and "conn_reach c u sa True mem (pc, s)" and "pc \<noteq> Over"
  shows "conn_weight pc \<le> 10 \<and> (\<exists>co. awaits_op co pc) \<and> (\<forall>co res. awaits_op co pc \<and> res < 0 \<longrightarrow>
    (\<exists>pc' s'. conn_resume True mem co res (pc, s) = Inr (pc', s') \<and> conn_weight pc = Suc (conn_weight pc')))"
proof -
  have inv: "conn_inv c u (pc, s)" by (rule conn_reach_inv [OF assms(2,1)])
  have "relay_weight a \<le> 5" for a by (cases a) simp_all
  from add_mono [OF this this] have "conn_weight pc \<le> 10" by (cases pc) simp_all
  moreover have "\<exists>pc' s'. conn_resume True mem co res (pc, s) = Inr (pc', s') \<and> conn_weight pc = Suc (conn_weight pc')"
    if "awaits_op co pc" "res < 0" for co res
    using conn_resume_inv [OF inv assms(1) that(1), of True mem res] conn_resume_failing that(2) by fastforce
  ultimately show ?thesis using conn_not_stuck [OF inv assms(3)] by blast
qed

theorem proxy_connection_ends_witness:
  "\<exists>s y. conn_start 5 6 16 = Inr (Connecting, s) \<and> conn_resume True (\<lambda>_. 4096) Handler (- 111) (Connecting, s) = Inr y \<and> conn_weight (fst y) = 2"
proof -
  obtain s where s: "conn_start 5 6 16 = Inr (Connecting, s)" using conn_start_inv [of 5 6 16] by auto
  have r: "conn_reach 5 6 16 True (\<lambda>_. 4096) (Connecting, s)" by (rule reach_init) (rule s)
  have "(5 :: int) \<noteq> 6" "Connecting \<noteq> Over" by simp_all
  from proxy_connection_ends [OF this(1) r this(2)]
  have "awaits_op Handler Connecting \<and> - 111 < (0 :: int) \<longrightarrow> (\<exists>pc' s'. conn_resume True (\<lambda>_. 4096) Handler (- 111) (Connecting, s) = Inr (pc', s') \<and>
    conn_weight Connecting = Suc (conn_weight pc'))" by blast
  then obtain pc' s' where "conn_resume True (\<lambda>_. 4096) Handler (- 111) (Connecting, s) = Inr (pc', s')" "conn_weight pc' = 2" by auto
  with s show ?thesis by fastforce
qed

text \<open>
  The echo server with callbacks closes the descriptor of a session twice: the destructor of the session closes it,
  and the operation that \<^verbatim>\<open>close\<close> has queued closes the same number again later. The coroutine of the other echo
  server closes it once.
\<close>

theorem callback_session_closes_twice:
  assumes "alive (objs s) i" and "fd_value (objs s) i = fd" and "fd \<noteq> - 1"
  shows "(\<exists>s'. session_finish i s = Inr s' \<and> closes (ops s') = closes (ops s) @ [fd] \<and> closed (objs s') = closed (objs s) @ [fd]) \<and>
    (\<exists>s'. echo_finish i s = Inr s' \<and> closes (ops s') = closes (ops s) @ [fd] \<and> closed (objs s') = closed (objs s))"
  using echo_finish_closes [OF assms] assms by (auto simp: finish_defs)

theorem callback_session_closes_twice_witness:
  "\<exists>s'. session_finish 0 \<lparr>objs = Fd_new 7 fd_world0, ops = []\<rparr> = Inr s' \<and> ops s' = [OpClose 7] \<and> closes (ops s') = [7] \<and> closed (objs s') = [7]"
proof -
  let ?s = "\<lparr>objs = Fd_new 7 fd_world0, ops = []\<rparr>"
  have "alive (objs ?s) 0" "fd_value (objs ?s) 0 = 7" "(7 :: int) \<noteq> - 1"
    by (simp_all add: alive_def fd_value_def Fd_new_def fd_world0_def)
  from callback_session_closes_twice [OF this] show ?thesis
    by (auto simp: finish_defs Fd_new_def fd_world0_def)
qed

end
