(* ===== verification/ProxyData.thy ===== *)
theory ProxyData
  imports Sessions Descriptors
begin

text \<open>
  The data that a connection of the proxy passes on. The connection with its two \<^verbatim>\<open>Fd\<close> objects and its interleaved
  directions (\<open>Descriptors\<close>) is combined with a memory of bytes and with the kernel's replies to the operations that are
  pending (\<open>Sessions\<close>). Both directions share the memory and the descriptors.
\<close>

subsection \<open>State\<close>

text \<open>
  The operation each coroutine waits for, the memory, and the bytes that have arrived on a descriptor and that were sent
  on it so far.
\<close>

record proxy_state =
  px_conn :: connection
  px_pend :: "coroutine \<Rightarrow> io_op"
  px_mem :: memory
  px_arrived :: "int \<Rightarrow> u8 list"
  px_sent :: "int \<Rightarrow> u8 list"

text \<open>The operations that a resumption has submitted become pending.\<close>

fun pend_update :: "coroutine \<Rightarrow> io_op list \<Rightarrow> (coroutine \<Rightarrow> io_op) \<Rightarrow> (coroutine \<Rightarrow> io_op)" where
  "pend_update co [a] pend = pend(co := a)"
| "pend_update co [a, b] pend = pend(Forward := a, Backward := b)"
| "pend_update co _ pend = pend"

definition record_events :: "int \<Rightarrow> io_event list \<Rightarrow> proxy_state \<Rightarrow> proxy_state" where
  "record_events fd evs s =
     s\<lparr>px_arrived := (px_arrived s)(fd := px_arrived s fd @ expected (\<lambda>d. d) evs),
       px_sent := (px_sent s)(fd := px_sent s fd @ sent evs)\<rparr>"

lemma record_events_simps [simp]:
  "px_conn (record_events fd evs s) = px_conn s" "px_pend (record_events fd evs s) = px_pend s" "px_mem (record_events fd evs s) = px_mem s"
  by (simp_all add: record_events_def)

lemma record_events_none [simp]: "record_events fd [] s = s"
  by (simp add: record_events_def)

definition proxy_init :: "int \<Rightarrow> int \<Rightarrow> u64 \<Rightarrow> proxy_state \<Rightarrow> bool" where
  "proxy_init c u sa s \<longleftrightarrow> conn_start c u sa = Inr (px_conn s) \<and> px_pend s Handler = OpConnect u sa 16 \<and>
     (\<forall>fd. px_arrived s fd = [] \<and> px_sent s fd = [])"

text \<open>
  The kernel replies to the pending operation of a coroutine that waits, which is resumed with the result. Operations on
  the descriptor -1 fail.
\<close>

inductive proxy_step :: "bool \<Rightarrow> (nat \<Rightarrow> u64) \<Rightarrow> proxy_state \<Rightarrow> proxy_state \<Rightarrow> bool" for intact :: bool and mem :: "nat \<Rightarrow> u64" where
  reply: "awaits_op co (fst (px_conn s)) \<Longrightarrow> (op_fd (px_pend s co) = - 1 \<longrightarrow> (\<exists>e. rep = Fail e)) \<Longrightarrow>
    answer (Some (px_pend s co)) rep (px_mem s) = (r, evs, m) \<Longrightarrow> conn_resume intact mem co r (px_conn s) = Inr y \<Longrightarrow>
    proxy_step intact mem s (record_events (op_fd (px_pend s co)) evs
      (s\<lparr>px_conn := y, px_mem := m,
        px_pend := pend_update co (drop (length (ops (snd (px_conn s)))) (ops (snd y))) (px_pend s)\<rparr>))"

subsection \<open>Invariant\<close>

text \<open>
  One direction, from the descriptor \<open>v\<close> to the descriptor \<open>w\<close>: while it receives it has sent everything; while it sends, the
  rest is what is left of its buffer; once it ends it has sent a part. The descriptor of its pending operation is its own or was
  released.
\<close>

fun dir_inv :: "u64 \<Rightarrow> int \<Rightarrow> int \<Rightarrow> relay_pc \<Rightarrow> io_op \<Rightarrow> memory \<Rightarrow> u8 list \<Rightarrow> u8 list \<Rightarrow> bool" where
  "dir_inv buf v w Receiving oper m got put \<longleftrightarrow> put = got \<and> (oper = OpRecv v buf 8192 \<or> oper = OpRecv (- 1) buf 8192)"
| "dir_inv buf v w (Sending offset sz) oper m got put \<longleftrightarrow> got = put @ drop offset (peek m buf sz) \<and> offset < sz \<and> sz \<le> 8192 \<and>
     (oper = OpSend w (buf + of_nat offset) (of_nat (sz - offset)) \<or> oper = OpSend (- 1) (buf + of_nat offset) (of_nat (sz - offset)))"
| "dir_inv buf v w a oper m got put \<longleftrightarrow> prefix put got \<and> (\<exists>fd. oper = OpShutdown fd SHUT_RDWR \<or> oper = OpClose fd)"

lemma dir_inv_prefix: "dir_inv buf v w a oper m got put \<Longrightarrow> prefix put got"
  by (cases "(buf, v, w, a, oper, m, got, put)" rule: dir_inv.cases) auto

text \<open>A direction does not depend on memory outside its buffer.\<close>

lemma peek_part: "n \<le> l \<Longrightarrow> peek m b l = peek m' b l \<Longrightarrow> peek m b n = peek m' b n"
  using take_peek [of n m b l] take_peek [of n m' b l] by (simp add: min_absorb1)

lemma dir_inv_memory:
  assumes "dir_inv buf v w a oper m got put" "peek m' buf 8192 = peek m buf 8192"
  shows "dir_inv buf v w a oper m' got put"
proof (cases a)
  case (Sending offset sz)
  with assms(1) have "sz \<le> 8192" by simp
  from peek_part [OF this assms(2)] Sending assms(1) show ?thesis by (simp del: of_nat_diff)
qed (use assms(1) in auto)

text \<open>What a resumption submits, and where the direction is suspended then.\<close>

lemma relay_break_new:
  "relay_break i s = Inr (a', s') \<Longrightarrow> a' = ShutRecv \<and> ops s' = ops s @ [OpShutdown (fd_value (objs s) i) SHUT_RDWR]"
  by (auto simp: relay_break_def bindE_eq_Inr dest: submit_fd_ops)

lemma relay_send_new:
  "relay_send j buf offset sz s = Inr (a', s') \<Longrightarrow> a' = Sending offset sz \<and>
     ops s' = ops s @ [OpSend (fd_value (objs s) j) (buf + of_nat offset) (of_nat (sz - offset))]"
  by (auto simp: relay_send_def bindE_eq_Inr dest: submit_fd_ops)

lemma relay_recv_new:
  "relay_recv i buf s = Inr (a', s') \<Longrightarrow> a' = Receiving \<and> ops s' = ops s @ [OpRecv (fd_value (objs s) i) buf 8192]"
  by (auto simp: relay_recv_def bindE_eq_Inr dest: submit_fd_ops)

definition new_op :: "io_op \<Rightarrow> fd_io \<Rightarrow> fd_io \<Rightarrow> io_op" where
  "new_op oper s s' = (case drop (length (ops s)) (ops s') of [o'] \<Rightarrow> o' | _ \<Rightarrow> oper)"

lemma new_op_append: "ops s' = ops s @ [o'] \<Longrightarrow> new_op oper s s' = o'"
  by (simp add: new_op_def)

lemma dir_receives:
  assumes inv: "dir_inv buf v w Receiving oper m got put"
    and ans: "answer (Some oper) rep m = (r, evs, m')" and st: "relay_resume i j buf r Receiving s = Inr (a', s')"
    and w: "fd_value (objs s) j = w \<or> fd_value (objs s) j = - 1"
  shows "dir_inv buf v w a' (new_op oper s s') m' (got @ expected (\<lambda>d. d) evs) (put @ sent evs)"
proof -
  from inv obtain x where x: "oper = OpRecv x buf 8192" and eq: "put = got" by auto
  consider (stop) "relay_break i s = Inr (a', s')" "evs = [] \<or> evs = [Received []]"
    | (data) d where "d \<noteq> []" "length d \<le> 8192" "evs = [Received d]" "m' = poke m buf d" "relay_send j buf 0 (length d) s = Inr (a', s')"
  proof (cases rep)
    case (Fail e)
    with ans st x stop show thesis by (simp add: io_result_ok_def)
  next
    case (Bytes bs)
    with ans x have a: "r = int (length (take 8192 bs))" "evs = [Received (take 8192 bs)]" "m' = poke m buf (take 8192 bs)"
      by (auto simp: Let_def)
    show thesis
    proof (cases "take 8192 bs = []")
      case True
      with a st stop show thesis by (simp add: io_result_ok_def)
    next
      case False
      then have "length (take 8192 bs) \<noteq> 0" by (simp only: length_0_conv not_False_eq_True)
      with st a(1) have "relay_send j buf 0 (length (take 8192 bs)) s = Inr (a', s')"
        by (simp only: relay_resume.simps io_result_ok_def of_nat_0_le_iff not_True_eq_False if_False of_nat_eq_0_iff nat_int)
      from data [OF False _ a(2,3) this] show thesis by simp
    qed
  qed
  then show ?thesis
  proof cases
    case stop
    with relay_break_new [OF stop(1)] eq show ?thesis by (auto simp: new_op_append)
  next
    case (data d)
    from data(2) have "peek (poke m buf d) buf (length d) = d" by (intro peek_poke) simp
    with data relay_send_new [OF data(5)] eq w show ?thesis by (auto simp: new_op_append)
  qed
qed

lemma dir_sends:
  assumes inv: "dir_inv buf v w (Sending offset sz) oper m got put"
    and ans: "answer (Some oper) rep m = (r, evs, m')" and st: "relay_resume i j buf r (Sending offset sz) s = Inr (a', s')"
    and v: "fd_value (objs s) i = v \<or> fd_value (objs s) i = - 1" and w: "fd_value (objs s) j = w \<or> fd_value (objs s) j = - 1"
  shows "dir_inv buf v w a' (new_op oper s s') m' (got @ expected (\<lambda>d. d) evs) (put @ sent evs)"
proof -
  define rest where "rest = drop offset (peek m buf sz)"
  from inv obtain x where x: "oper = OpSend x (buf + of_nat offset) (of_nat (sz - offset))"
    and eq: "got = put @ rest" and sz: "offset < sz" "sz \<le> 8192" by (auto simp: rest_def simp del: of_nat_diff)
  from sz have "sz - offset < 2 ^ 64" by simp
  then have u: "unat (of_nat (sz - offset) :: u64) = sz - offset" by (rule unat_of_nat_u64)
  show ?thesis
  proof (cases rep)
    case (Fail e)
    with ans st x have "relay_break i s = Inr (a', s')" "evs = []" by (simp_all add: io_result_ok_def)
    with relay_break_new [OF this(1)] eq show ?thesis by (auto simp: new_op_append)
  next
    case (Bytes bs)
    define c where "c = min (length bs) (sz - offset)"
    have "peek m (buf + of_nat offset) c = take c rest" by (simp add: rest_def drop_peek take_peek c_def)
    with ans x u Bytes have a: "r = int c" "evs = [Sent (take c rest)]" "m' = m"
      by (auto simp: Let_def c_def simp del: of_nat_diff)
    show ?thesis
    proof (cases "offset + c < sz")
      case True
      with st a(1) have "relay_send j buf (offset + c) sz s = Inr (a', s')" by (simp add: io_result_ok_def Let_def)
      from relay_send_new [OF this] have n: "a' = Sending (offset + c) sz"
        "new_op oper s s' = OpSend (fd_value (objs s) j) (buf + of_nat (offset + c)) (of_nat (sz - (offset + c)))"
        by (simp_all add: new_op_append del: of_nat_diff)
      have "drop (offset + c) (peek m buf sz) = drop c rest" by (simp add: rest_def add.commute)
      then show ?thesis using True sz eq w unfolding n a by (auto simp del: of_nat_diff of_nat_add)
    next
      case False
      with st a(1) have "relay_recv i buf s = Inr (a', s')" by (simp add: io_result_ok_def Let_def)
      from relay_recv_new [OF this] have n: "a' = Receiving" "new_op oper s s' = OpRecv (fd_value (objs s) i) buf 8192"
        by (simp_all add: new_op_append)
      have "take c rest = rest" using False by (simp add: rest_def)
      then show ?thesis using eq v unfolding n a by auto
    qed
  qed
qed

lemma ending_op_silent: "answer (Some (OpShutdown fd how)) rep m = (r, evs, m') \<Longrightarrow> evs = [] \<and> m' = m"
  "answer (Some (OpClose fd)) rep m = (r, evs, m') \<Longrightarrow> evs = [] \<and> m' = m"
  "answer (Some (OpConnect fd sa n)) rep m = (r, evs, m') \<Longrightarrow> evs = [] \<and> m' = m"
  by (cases rep; simp)+

lemma dir_ends:
  assumes inv: "dir_inv buf v w a oper m got put" and a: "a \<in> {ShutRecv, CloseRecv, ShutSend, CloseSend}"
    and ans: "answer (Some oper) rep m = (r, evs, m')" and st: "relay_resume i j buf r a s = Inr (a', s')"
  shows "dir_inv buf v w a' (new_op oper s s') m' (got @ expected (\<lambda>d. d) evs) (put @ sent evs)"
proof -
  from inv a have p: "prefix put got" and o: "\<exists>fd. oper = OpShutdown fd SHUT_RDWR \<or> oper = OpClose fd" by auto
  from o ans have e: "evs = []" "m' = m" using ending_op_silent by blast+
  from a st o have "a' \<in> {CloseRecv, ShutSend, CloseSend, RelayDone}"
    "\<exists>fd. new_op oper s s' = OpShutdown fd SHUT_RDWR \<or> new_op oper s s' = OpClose fd"
    by (auto simp: bindE_eq_Inr new_op_append new_op_def dest!: submit_fd_ops close_released_ops)
  with p e show ?thesis by auto
qed

lemma dir_step:
  assumes inv: "dir_inv buf v w a oper m got put" and a: "a \<noteq> RelayDone"
    and ans: "answer (Some oper) rep m = (r, evs, m')" and st: "relay_resume i j buf r a s = Inr (a', s')"
    and vw: "fd_value (objs s) i = v \<or> fd_value (objs s) i = - 1" "fd_value (objs s) j = w \<or> fd_value (objs s) j = - 1"
  shows "dir_inv buf v w a' (new_op oper s s') m' (got @ expected (\<lambda>d. d) evs) (put @ sent evs)"
proof (cases a)
  case Receiving
  from dir_receives [OF inv [unfolded Receiving] ans st [unfolded Receiving] vw(2)] show ?thesis .
next
  case (Sending offset sz)
  from dir_sends [OF inv [unfolded Sending] ans st [unfolded Sending] vw] show ?thesis .
qed (use dir_ends [OF inv _ ans st] a in simp_all)

text \<open>The other direction's buffer is not written, and only the direction's own bytes are recorded.\<close>

lemma dir_apart:
  assumes inv: "dir_inv buf v w a oper m got put" and ans: "answer (Some oper) rep m = (r, evs, m')" and ap: "apart buf 8192 b 8192"
  shows "peek m' b 8192 = peek m b 8192"
proof (cases a)
  case Receiving
  with inv obtain x where "oper = OpRecv x buf 8192" by auto
  with ans peek_poke_apart [OF ap] show ?thesis by (cases rep) (auto simp: Let_def)
next
  case (Sending offset sz)
  with inv obtain x y z where "oper = OpSend x y z" by auto
  with ans show ?thesis by (cases rep) (auto simp: Let_def)
qed (use inv ans ending_op_silent in \<open>fastforce+\<close>)

lemma dir_records:
  assumes inv: "dir_inv buf v w a oper m got put" and ans: "answer (Some oper) rep m = (r, evs, m')"
    and open_fd: "op_fd oper = - 1 \<longrightarrow> (\<exists>e. rep = Fail e)"
  shows "px_arrived (record_events (op_fd oper) evs s) x = px_arrived s x @ (if x = v then expected (\<lambda>d. d) evs else [])"
    and "px_sent (record_events (op_fd oper) evs s) x = px_sent s x @ (if x = w then sent evs else [])"
proof -
  have "evs = [] \<or> op_fd oper = v \<and> sent evs = [] \<or> op_fd oper = w \<and> expected (\<lambda>d. d) evs = []"
  proof (cases "evs = []")
    case False
    with ans have nf: "\<not> (\<exists>e. rep = Fail e)" by auto
    with open_fd have o: "op_fd oper \<noteq> - 1" by blast
    from nf obtain bs where rep: "rep = Bytes bs" by (cases rep) auto
    show ?thesis
    proof (cases a)
      case Receiving
      with inv o have "oper = OpRecv v buf 8192" by auto
      with ans rep show ?thesis by (auto simp: Let_def)
    next
      case (Sending offset sz)
      with inv o obtain y z where "oper = OpSend w y z" by auto
      with ans rep show ?thesis by (auto simp: Let_def)
    qed (use inv ans ending_op_silent False in \<open>fastforce+\<close>)
  qed simp
  then show "px_arrived (record_events (op_fd oper) evs s) x = px_arrived s x @ (if x = v then expected (\<lambda>d. d) evs else [])"
    "px_sent (record_events (op_fd oper) evs s) x = px_sent s x @ (if x = w then sent evs else [])"
    by (auto simp: record_events_def)
qed

subsection \<open>Steps keep the invariant\<close>

text \<open>The operation that a direction submits becomes its pending one.\<close>

lemma relay_resume_new:
  assumes "relay_resume i j buf r a s = Inr (a', s')"
  shows "ops s' = ops s \<or> (\<exists>o'. ops s' = ops s @ [o'])"
  using assms
  by (cases a) (auto simp: bindE_eq_Inr Let_def split: if_splits dest!: submit_fd_ops close_released_ops relay_break_new relay_send_new relay_recv_new)

lemma pend_update_new:
  assumes "relay_resume i j buf r a s = Inr (a', s')"
  shows "pend_update co (drop (length (ops s)) (ops s')) pend = pend(co := new_op (pend co) s s')"
  using relay_resume_new [OF assms] by (auto simp: new_op_def)

lemma relays_done_ops: "relays_done intact now a b s = Inr y \<Longrightarrow> ops (snd y) = ops s \<and> (fst y = Relaying a b \<or> fst y = Over)"
  by (auto simp: relays_done_def conn_end_def destroy_fd_def bindE_eq_Inr split: if_splits)

text \<open>
  Before the directions start nothing was received or sent, and the connection waits for an operation without data. Once
  it is over both directions have sent a part of what has arrived.
\<close>

definition data_inv :: "(nat \<Rightarrow> u64) \<Rightarrow> int \<Rightarrow> int \<Rightarrow> proxy_state \<Rightarrow> bool" where
  "data_inv mem c u s \<longleftrightarrow> (case fst (px_conn s) of
     Relaying a b \<Rightarrow> dir_inv (mem 0) c u a (px_pend s Forward) (px_mem s) (px_arrived s c) (px_sent s u) \<and>
       dir_inv (mem 1) u c b (px_pend s Backward) (px_mem s) (px_arrived s u) (px_sent s c)
   | Over \<Rightarrow> prefix (px_sent s u) (px_arrived s c) \<and> prefix (px_sent s c) (px_arrived s u)
   | _ \<Rightarrow> (\<forall>fd. px_arrived s fd = [] \<and> px_sent s fd = []) \<and> (\<exists>fd sa n. px_pend s Handler = OpConnect fd sa n \<or> px_pend s Handler = OpClose fd))"

lemma data_inv_prefix: "data_inv mem c u s \<Longrightarrow> prefix (px_sent s u) (px_arrived s c) \<and> prefix (px_sent s c) (px_arrived s u)"
  by (cases "fst (px_conn s)") (auto simp: data_inv_def dest: dir_inv_prefix)

lemma frame_values:
  assumes "frame_inv c u gc gu s"
  shows "fd_value (objs s) clientSocket = c \<or> fd_value (objs s) clientSocket = - 1"
    "fd_value (objs s) upstreamSocket = u \<or> fd_value (objs s) upstreamSocket = - 1"
  using frame_alive [OF assms] by auto

lemma forward_data:
  assumes inv: "data_inv mem c u s" and ci: "conn_inv c u (px_conn s)" and cu: "c \<noteq> u" and pc: "px_conn s = (Relaying a b, t)"
    and a: "a \<noteq> RelayDone" and ap: "apart (mem 0) 8192 (mem 1) 8192"
    and ans: "answer (Some (px_pend s Forward)) rep (px_mem s) = (r, evs, m)" and open_fd: "op_fd (px_pend s Forward) = - 1 \<longrightarrow> (\<exists>e. rep = Fail e)"
    and st: "conn_resume intact mem Forward r (px_conn s) = Inr y"
  shows "data_inv mem c u (record_events (op_fd (px_pend s Forward)) evs
    (s\<lparr>px_conn := y, px_mem := m, px_pend := pend_update Forward (drop (length (ops t)) (ops (snd y))) (px_pend s)\<rparr>))"
proof -
  from inv pc have f: "dir_inv (mem 0) c u a (px_pend s Forward) (px_mem s) (px_arrived s c) (px_sent s u)"
    and b: "dir_inv (mem 1) u c b (px_pend s Backward) (px_mem s) (px_arrived s u) (px_sent s c)" by (simp_all add: data_inv_def)
  from ci pc obtain gc gu where "frame_inv c u gc gu t" by (auto simp: conn_inv_def)
  note fv = frame_values [OF this]
  from st pc obtain a' t' where t': "relay_resume clientSocket upstreamSocket (mem 0) r a t = Inr (a', t')" "relays_done intact a' a' b t' = Inr y"
    by (auto simp: bindE_eq_Inr)
  note y = relays_done_ops [OF t'(2)]
  note f' = dir_step [OF f a ans t'(1) fv]
  note b' = dir_inv_memory [OF b dir_apart [OF f ans ap]]
  note rec = dir_records [OF f ans open_fd]
  have u: "pend_update Forward (drop (length (ops t)) (ops (snd y))) (px_pend s) = (px_pend s)(Forward := new_op (px_pend s Forward) t t')"
    using pend_update_new [OF t'(1)] y by simp
  from y show ?thesis
    using f' b' dir_inv_prefix [OF f'] dir_inv_prefix [OF b'] cu u [unfolded conjunct1 [OF y]] by (auto simp: data_inv_def rec)
qed

lemma backward_data:
  assumes inv: "data_inv mem c u s" and ci: "conn_inv c u (px_conn s)" and cu: "c \<noteq> u" and pc: "px_conn s = (Relaying a b, t)"
    and b: "b \<noteq> RelayDone" and ap: "apart (mem 1) 8192 (mem 0) 8192"
    and ans: "answer (Some (px_pend s Backward)) rep (px_mem s) = (r, evs, m)" and open_fd: "op_fd (px_pend s Backward) = - 1 \<longrightarrow> (\<exists>e. rep = Fail e)"
    and st: "conn_resume intact mem Backward r (px_conn s) = Inr y"
  shows "data_inv mem c u (record_events (op_fd (px_pend s Backward)) evs
    (s\<lparr>px_conn := y, px_mem := m, px_pend := pend_update Backward (drop (length (ops t)) (ops (snd y))) (px_pend s)\<rparr>))"
proof -
  from inv pc have f: "dir_inv (mem 0) c u a (px_pend s Forward) (px_mem s) (px_arrived s c) (px_sent s u)"
    and d: "dir_inv (mem 1) u c b (px_pend s Backward) (px_mem s) (px_arrived s u) (px_sent s c)" by (simp_all add: data_inv_def)
  from ci pc obtain gc gu where "frame_inv c u gc gu t" by (auto simp: conn_inv_def)
  note fv = frame_values [OF this]
  from st pc obtain b' t' where t': "relay_resume upstreamSocket clientSocket (mem 1) r b t = Inr (b', t')" "relays_done intact b' a b' t' = Inr y"
    by (auto simp: bindE_eq_Inr)
  note y = relays_done_ops [OF t'(2)]
  note d' = dir_step [OF d b ans t'(1) fv(2,1)]
  note f' = dir_inv_memory [OF f dir_apart [OF d ans ap]]
  note rec = dir_records [OF d ans open_fd]
  have u: "pend_update Backward (drop (length (ops t)) (ops (snd y))) (px_pend s) = (px_pend s)(Backward := new_op (px_pend s Backward) t t')"
    using pend_update_new [OF t'(1)] y by simp
  from y show ?thesis
    using d' f' dir_inv_prefix [OF d'] dir_inv_prefix [OF f'] cu u [unfolded conjunct1 [OF y]] by (auto simp: data_inv_def rec)
qed

lemma handler_data:
  assumes inv: "data_inv mem c u s" and ci: "conn_inv c u (px_conn s)" and cu: "c \<noteq> u" and pc: "px_conn s = (pc, t)"
    and aw: "awaits_op Handler pc" and ans: "answer (Some (px_pend s Handler)) rep (px_mem s) = (r, evs, m)"
    and st: "conn_resume intact mem Handler r (px_conn s) = Inr y"
  shows "data_inv mem c u (record_events fd evs
    (s\<lparr>px_conn := y, px_mem := m, px_pend := pend_update Handler (drop (length (ops t)) (ops (snd y))) (px_pend s)\<rparr>))"
proof -
  from aw have pcs: "pc \<in> {Connecting, CloseClient, CloseUpstream}" by (cases pc) simp_all
  with inv pc have none: "px_arrived s x = []" "px_sent s x = []" for x by (auto simp: data_inv_def)
  from pcs inv pc have "\<exists>fd sa n. px_pend s Handler = OpConnect fd sa n \<or> px_pend s Handler = OpClose fd"
    by (auto simp: data_inv_def)
  with ans have e: "evs = []" "m = px_mem s" by (auto dest: ending_op_silent)
  consider (relaying) t1 t2 where "pc = Connecting" "relay_recv clientSocket (mem 0) t = Inr (Receiving, t1)"
      "relay_recv upstreamSocket (mem 1) t1 = Inr (Receiving, t2)" "y = (Relaying Receiving Receiving, t2)"
    | (closing) i t1 where "close_released i t = Inr t1" "y = (CloseClient, t1) \<or> y = (CloseUpstream, t1)"
    | (over) "fst y = Over"
    using pcs st pc by (auto simp: bindE_eq_Inr relay_recv_def conn_end_def split: if_splits)
  then show ?thesis
  proof cases
    case relaying
    from ci pc relaying(1) have f: "frame_inv c u False False t" by (simp add: conn_inv_def)
    from relay_submits_frame(1) [OF f cu, of clientSocket "mem 0"] relaying(2) have f1: "frame_inv c u False False t1" by auto
    have "ops t2 = ops t @ [OpRecv c (mem 0) 8192, OpRecv u (mem 1) 8192]"
      using relay_recv_new [OF relaying(2)] relay_recv_new [OF relaying(3)] frame_alive [OF f] frame_alive [OF f1] by simp
    with relaying(4) none e show ?thesis by (simp add: data_inv_def)
  next
    case closing
    from close_released_ops [OF closing(1)] closing(2) none e show ?thesis by (auto simp: data_inv_def)
  next
    case over
    with none e show ?thesis by (simp add: data_inv_def)
  qed
qed

definition proxy_inv :: "(nat \<Rightarrow> u64) \<Rightarrow> int \<Rightarrow> int \<Rightarrow> proxy_state \<Rightarrow> bool" where
  "proxy_inv mem c u s \<longleftrightarrow> conn_inv c u (px_conn s) \<and> data_inv mem c u s"

definition buffers_apart :: "(nat \<Rightarrow> u64) \<Rightarrow> bool" where
  "buffers_apart mem \<longleftrightarrow> apart (mem 0) 8192 (mem 1) 8192 \<and> apart (mem 1) 8192 (mem 0) 8192"

lemma proxy_step_inv:
  assumes inv: "proxy_inv mem c u s" and cu: "c \<noteq> u" and ap: "buffers_apart mem" and st: "proxy_step intact mem s s'"
  shows "proxy_inv mem c u s'"
  using st
proof cases
  case (reply co rep r evs m y)
  obtain pc t where pc: "px_conn s = (pc, t)" by (cases "px_conn s")
  from inv have ci: "conn_inv c u (px_conn s)" and d: "data_inv mem c u s" by (simp_all add: proxy_inv_def)
  from conn_resume_keeps [of c u pc t co intact mem r y] ci cu reply pc have "conn_inv c u y" by simp
  moreover have "data_inv mem c u s'"
  proof (cases co)
    case Handler
    with handler_data [OF d ci cu pc] reply pc show ?thesis by simp
  next
    case Forward
    with reply(2) pc obtain a b where "pc = Relaying a b" "a \<noteq> RelayDone" by (cases pc) auto
    with forward_data [OF d ci cu] reply pc Forward ap show ?thesis by (simp add: buffers_apart_def)
  next
    case Backward
    with reply(2) pc obtain a b where "pc = Relaying a b" "b \<noteq> RelayDone" by (cases pc) auto
    with backward_data [OF d ci cu] reply pc Backward ap show ?thesis by (simp add: buffers_apart_def)
  qed
  ultimately show ?thesis using reply(1) by (simp add: proxy_inv_def)
qed

lemma proxy_init_inv:
  assumes "proxy_init c u sa s" and "c \<noteq> u"
  shows "proxy_inv mem c u s"
proof -
  from conn_start_inv [OF assms(2), of sa] assms(1) obtain t where "px_conn s = (Connecting, t)" "conn_inv c u (Connecting, t)"
    by (auto simp: proxy_init_def)
  with assms(1) show ?thesis by (simp add: proxy_inv_def data_inv_def proxy_init_def)
qed

interpretation proxy: invariant_system "proxy_init c u sa" "proxy_step intact mem" "\<lambda>s. c \<noteq> u \<and> buffers_apart mem \<longrightarrow> proxy_inv mem c u s"
  for c u :: int and sa :: u64 and intact :: bool and mem :: "nat \<Rightarrow> u64"
  by unfold_locales (use proxy_init_inv proxy_step_inv in \<open>blast+\<close>)

abbreviation proxy_reach :: "int \<Rightarrow> int \<Rightarrow> u64 \<Rightarrow> bool \<Rightarrow> (nat \<Rightarrow> u64) \<Rightarrow> proxy_state \<Rightarrow> bool" where
  "proxy_reach c u sa intact mem \<equiv> reach (proxy_init c u sa) (proxy_step intact mem)"

subsection \<open>Property\<close>

text \<open>
  C10: A connection of the proxy passes on the data of both peers unchanged and in order, however its two directions
  interleave, whatever the kernel returns (errors, parts of what was asked for, data while the other direction closes both
  sockets). At every moment what was sent to the upstream server is a prefix of what has arrived from the client, and
  the other way round, and it is all of it whenever the direction waits for more. The two buffers have to be disjoint, as
  two coroutine frames are.
\<close>

theorem proxy_relays_data:
  assumes "c \<noteq> u" and "buffers_apart mem" and "proxy_reach c u sa intact mem s"
  shows "prefix (px_sent s u) (px_arrived s c) \<and> prefix (px_sent s c) (px_arrived s u) \<and>
    (\<forall>a b. fst (px_conn s) = Relaying a b \<longrightarrow>
      (a = Receiving \<longrightarrow> px_sent s u = px_arrived s c) \<and> (b = Receiving \<longrightarrow> px_sent s c = px_arrived s u))"
proof -
  have inv: "data_inv mem c u s" using proxy.reach_inv [OF assms(3)] assms(1,2) by (simp add: proxy_inv_def)
  then have "(a = Receiving \<longrightarrow> px_sent s u = px_arrived s c) \<and> (b = Receiving \<longrightarrow> px_sent s c = px_arrived s u)"
    if "fst (px_conn s) = Relaying a b" for a b using that by (auto simp: data_inv_def)
  with data_inv_prefix [OF inv] show ?thesis by blast
qed

text \<open>A run: some replies one after the other.\<close>

fun proxy_run :: "bool \<Rightarrow> (nat \<Rightarrow> u64) \<Rightarrow> (coroutine \<times> reply) list \<Rightarrow> proxy_state \<Rightarrow> proxy_state option" where
  "proxy_run intact mem [] s = Some s"
| "proxy_run intact mem ((co, rep) # rs) s =
     (if awaits_op co (fst (px_conn s)) \<and> op_fd (px_pend s co) \<noteq> - 1 then
        case answer (Some (px_pend s co)) rep (px_mem s) of (r, evs, m) \<Rightarrow>
          (case conn_resume intact mem co r (px_conn s) of
             Inl e \<Rightarrow> None
           | Inr y \<Rightarrow> proxy_run intact mem rs (record_events (op_fd (px_pend s co)) evs
               (s\<lparr>px_conn := y, px_mem := m,
                 px_pend := pend_update co (drop (length (ops (snd (px_conn s)))) (ops (snd y))) (px_pend s)\<rparr>)))
      else None)"

lemma proxy_run_reach: "proxy_reach c u sa intact mem s \<Longrightarrow> proxy_run intact mem rs s = Some s' \<Longrightarrow> proxy_reach c u sa intact mem s'"
proof (induction intact mem rs s rule: proxy_run.induct)
  case (2 intact mem co rep rs s)
  obtain r evs m where a: "answer (Some (px_pend s co)) rep (px_mem s) = (r, evs, m)" by (cases "answer (Some (px_pend s co)) rep (px_mem s)")
  with "2.prems"(2) obtain y where y: "awaits_op co (fst (px_conn s))" "op_fd (px_pend s co) \<noteq> - 1" "conn_resume intact mem co r (px_conn s) = Inr y"
    by (auto split: if_splits sum.splits)
  from y(2) have o: "op_fd (px_pend s co) = - 1 \<longrightarrow> (\<exists>e. rep = Fail e)" by simp
  note reach = reach_step [OF "2.prems"(1) proxy_step.reply [OF y(1) o a y(3)]]
  show ?case by (rule "2.IH" [OF _ a [symmetric] _ y(3) reach]) (use "2.prems"(2) a y in simp_all)
qed simp

text \<open>
  The client sends three bytes and the upstream server one. Two of the three have been sent on when the byte of the server
  arrives and is passed to the client.
\<close>

definition two_way_start :: "connection \<Rightarrow> proxy_state" where
  "two_way_start x = \<lparr>px_conn = x, px_pend = (\<lambda>_. OpConnect 6 16 16), px_mem = (\<lambda>_. 0), px_arrived = (\<lambda>_. []), px_sent = (\<lambda>_. [])\<rparr>"

definition two_way_mem :: "nat \<Rightarrow> u64" where
  "two_way_mem i = (if i = 0 then 4096 else 16384)"

definition two_way :: "(coroutine \<times> reply) list" where
  "two_way = [(Handler, Bytes []), (Forward, Bytes [1, 2, 3]), (Forward, Bytes [0, 0]), (Backward, Bytes [7]), (Backward, Bytes [0])]"

lemma two_way_run:
  "\<exists>x s. conn_start 5 6 16 = Inr x \<and> proxy_run True two_way_mem two_way (two_way_start x) = Some s \<and>
     fst (px_conn s) = Relaying (Sending 2 3) Receiving \<and> px_sent s 6 = [1, 2] \<and> px_arrived s 5 = [1, 2, 3] \<and>
     px_sent s 5 = [7] \<and> px_arrived s 6 = [7]"
  by (simp add: conn_start_def submit_fd_def connect_sa_def fd_world0_def fd_defs with_fd_def alive_def fd_value_def socket_defs
      two_way_def two_way_start_def two_way_mem_def relay_recv_def relay_send_def relay_break_def io_result_ok_def relays_done_def nth_Cons'
      record_events_def peek_def poke_def Let_def upt_rec)

lemma apart_below:
  assumes "unat b + l \<le> unat a" "unat a + n \<le> 2 ^ 64"
  shows "apart a n b l"
  unfolding apart_def
proof (intro allI impI)
  fix j assume j: "j < l"
  define d where "d = unat a - (unat b + j)"
  from assms(1) j have d: "unat a = unat b + j + d" "0 < d" by (simp_all add: d_def)
  from d(2) have u: "unat (of_nat (2 ^ 64 - d) :: u64) = 2 ^ 64 - d" by (intro unat_of_nat_u64) simp
  from d(1) assms(2) have le: "d \<le> 2 ^ 64" by linarith
  have "a = of_nat (unat b + j + d)" unfolding d(1) [symmetric] by simp
  then have "b + of_nat j - a = - (of_nat d)" by simp
  also have "\<dots> = of_nat (2 ^ 64 - d)" using le by (simp add: of_nat_diff)
  finally have "unat (b + of_nat j - a) = 2 ^ 64 - d" using u by (simp only:)
  then show "n \<le> unat (b + of_nat j - a)" using d(1) assms(2) by linarith
qed

theorem proxy_relays_data_witness:
  "\<exists>s. proxy_reach 5 6 16 True two_way_mem s \<and> fst (px_conn s) = Relaying (Sending 2 3) Receiving \<and> px_arrived s 5 = [1, 2, 3] \<and>
     prefix (px_sent s 6) (px_arrived s 5) \<and> px_sent s 6 = [1, 2] \<and> px_sent s 5 = px_arrived s 6 \<and> px_arrived s 6 = [7]"
proof -
  from two_way_run obtain x s where x: "conn_start 5 6 16 = Inr x" "proxy_run True two_way_mem two_way (two_way_start x) = Some s"
    and s: "fst (px_conn s) = Relaying (Sending 2 3) Receiving" "px_sent s 6 = [1, 2]" "px_arrived s 5 = [1, 2, 3]" "px_arrived s 6 = [7]"
    by blast
  have "proxy_reach 5 6 16 True two_way_mem (two_way_start x)"
    by (rule reach_init) (simp add: proxy_init_def two_way_start_def x(1))
  from proxy_run_reach [OF this x(2)] have r: "proxy_reach 5 6 16 True two_way_mem s" .
  have "buffers_apart two_way_mem" by (simp add: buffers_apart_def two_way_mem_def apartI apart_below)
  from proxy_relays_data [OF _ this r] have p: "prefix (px_sent s 6) (px_arrived s 5)" and q: "px_sent s 5 = px_arrived s 6"
    using s(1) by simp_all
  with r s show ?thesis by blast
qed

end
