(* ===== verification/SharedState.thy ===== *)
theory SharedState
  imports Ownership
begin

text \<open>
  The objects around the shared state of a promise (\<^verbatim>\<open>future.hpp\<close>): every \<^verbatim>\<open>Promise\<close> and every \<^verbatim>\<open>Future\<close> holds a
  \<^verbatim>\<open>std::shared_ptr\<close> to it, or none after it was moved from. The state is destroyed, and its event file descriptor closed,
  when the last pointer goes. A history is any interleaving of the calls of all threads: the reference counts are
  atomic, and the value is only accessed under the mutex. How a coroutine waits for the value is in \<open>Future\<close>.
\<close>

subsection \<open>Objects\<close>

datatype side = Promises | Futures

text \<open>The optional value of a state; \<^verbatim>\<open>get\<close> moves the value out and leaves the optional engaged.\<close>

datatype 'a cell = Unset | Holds 'a | MovedFrom

record 'a shared_store =
  st_ptrs :: "side \<Rightarrow> nat option option list"
  st_count :: "nat \<Rightarrow> nat"
  st_cells :: "nat \<rightharpoonup> 'a cell"
  st_next :: nat
  st_destroyed :: "nat list"
  st_got :: "(nat \<times> 'a cell) list"

definition shared_store0 :: "'a shared_store" where
  "shared_store0 =
     \<lparr>st_ptrs = (\<lambda>_. []), st_count = (\<lambda>_. 0), st_cells = Map.empty, st_next = 0, st_destroyed = [], st_got = []\<rparr>"

subsection \<open>Shared pointers\<close>

text \<open>Access to an object that was destroyed is undefined; its pointer may be null.\<close>

definition with_ptr :: "side \<Rightarrow> nat \<Rightarrow> 'a shared_store \<Rightarrow> (nat option \<Rightarrow> 'b outcome) \<Rightarrow> 'b outcome" where
  "with_ptr sd i s m =
     (if i < length (st_ptrs s sd)
      then (case st_ptrs s sd ! i of None \<Rightarrow> Inl UndefinedBehaviour | Some p \<Rightarrow> m p)
      else Inl UndefinedBehaviour)"

definition set_ptr :: "side \<Rightarrow> nat \<Rightarrow> nat option option \<Rightarrow> 'a shared_store \<Rightarrow> 'a shared_store" where
  "set_ptr sd i x s = s\<lparr>st_ptrs := (st_ptrs s)(sd := (st_ptrs s sd)[i := x])\<rparr>"

definition add_ptr :: "side \<Rightarrow> nat option \<Rightarrow> 'a shared_store \<Rightarrow> 'a shared_store" where
  "add_ptr sd p s = s\<lparr>st_ptrs := (st_ptrs s)(sd := st_ptrs s sd @ [Some p])\<rparr>"

definition ptr_copy :: "nat option \<Rightarrow> 'a shared_store \<Rightarrow> 'a shared_store" where
  "ptr_copy p s = (case p of None \<Rightarrow> s | Some h \<Rightarrow> s\<lparr>st_count := (st_count s)(h := Suc (st_count s h))\<rparr>)"

text \<open>A pointer goes out of scope; the last one destroys the state.\<close>

definition ptr_drop :: "nat option \<Rightarrow> 'a shared_store \<Rightarrow> 'a shared_store outcome" where
  "ptr_drop p s =
     (case p of
        None \<Rightarrow> Inr s
      | Some h \<Rightarrow>
          if st_cells s h = None then Inl UndefinedBehaviour
          else let s' = s\<lparr>st_count := (st_count s)(h := st_count s h - 1)\<rparr>
               in Inr (if st_count s' h = 0
                       then s'\<lparr>st_cells := (st_cells s')(h := None), st_destroyed := st_destroyed s' @ [h]\<rparr>
                       else s'))"

subsection \<open>Operations\<close>

definition promise_new :: "'a shared_store \<Rightarrow> 'a shared_store" where
  "promise_new s =
     (let h = st_next s
      in add_ptr Promises (Some h)
           (s\<lparr>st_count := (st_count s)(h := 1), st_cells := (st_cells s)(h \<mapsto> Unset), st_next := Suc h\<rparr>))"

definition promise_getFuture :: "nat \<Rightarrow> 'a shared_store \<Rightarrow> 'a shared_store outcome" where
  "promise_getFuture i s = with_ptr Promises i s (\<lambda>p. Inr (add_ptr Futures p (ptr_copy p s)))"

text \<open>The defaulted move constructor, move assignment and destructor, the same for both classes.\<close>

definition shared_move :: "side \<Rightarrow> nat \<Rightarrow> 'a shared_store \<Rightarrow> 'a shared_store outcome" where
  "shared_move sd j s = with_ptr sd j s (\<lambda>p. Inr (add_ptr sd p (set_ptr sd j (Some None) s)))"

definition shared_assign :: "side \<Rightarrow> nat \<Rightarrow> nat \<Rightarrow> 'a shared_store \<Rightarrow> 'a shared_store outcome" where
  "shared_assign sd i j s = with_ptr sd j s (\<lambda>p.
     let s' = set_ptr sd j (Some None) s
     in with_ptr sd i s' (\<lambda>old. ptr_drop old (set_ptr sd i (Some p) s')))"

definition shared_destroy :: "side \<Rightarrow> nat \<Rightarrow> 'a shared_store \<Rightarrow> 'a shared_store outcome" where
  "shared_destroy sd i s = with_ptr sd i s (\<lambda>p. ptr_drop p (set_ptr sd i None s))"

definition with_cell :: "nat option \<Rightarrow> 'a shared_store \<Rightarrow> (nat \<Rightarrow> 'a cell \<Rightarrow> 'b outcome) \<Rightarrow> 'b outcome" where
  "with_cell p s m =
     (case p of
        None \<Rightarrow> Inl UndefinedBehaviour
      | Some h \<Rightarrow> (case st_cells s h of None \<Rightarrow> Inl UndefinedBehaviour | Some c \<Rightarrow> m h c))"

definition promise_set :: "nat \<Rightarrow> 'a \<Rightarrow> 'a shared_store \<Rightarrow> 'a shared_store outcome" where
  "promise_set i v s = with_ptr Promises i s (\<lambda>p. with_cell p s (\<lambda>h c.
     assertE (c = Unset) (Inr (s\<lparr>st_cells := (st_cells s)(h \<mapsto> Holds v)\<rparr>))))"

definition shared_ready :: "nat \<Rightarrow> 'a shared_store \<Rightarrow> bool outcome" where
  "shared_ready i s = with_ptr Futures i s (\<lambda>p. with_cell p s (\<lambda>h c. Inr (c \<noteq> Unset)))"

text \<open>\<^verbatim>\<open>get\<close> waits while there is no value: such a call changes nothing and is repeated later.\<close>

definition shared_get :: "nat \<Rightarrow> 'a shared_store \<Rightarrow> 'a shared_store outcome" where
  "shared_get i s = with_ptr Futures i s (\<lambda>p. with_cell p s (\<lambda>h c.
     if c = Unset then Inr s
     else Inr (s\<lparr>st_cells := (st_cells s)(h \<mapsto> MovedFrom), st_got := st_got s @ [(h, c)]\<rparr>)))"

datatype 'a shared_op =
    ShNew
  | ShGetFuture nat
  | ShMove side nat
  | ShAssign side nat nat
  | ShDestroy side nat
  | ShSet nat 'a
  | ShReady nat
  | ShGet nat

primrec shared_apply :: "'a shared_op \<Rightarrow> 'a shared_store \<Rightarrow> 'a shared_store outcome" where
  "shared_apply ShNew s = Inr (promise_new s)"
| "shared_apply (ShGetFuture i) s = promise_getFuture i s"
| "shared_apply (ShMove sd j) s = shared_move sd j s"
| "shared_apply (ShAssign sd i j) s = shared_assign sd i j s"
| "shared_apply (ShDestroy sd i) s = shared_destroy sd i s"
| "shared_apply (ShSet i v) s = promise_set i v s"
| "shared_apply (ShReady i) s = bindE (shared_ready i s) (\<lambda>_. Inr s)"
| "shared_apply (ShGet i) s = shared_get i s"

subsection \<open>Reference counts\<close>

definition pointers :: "'a shared_store \<Rightarrow> nat multiset" where
  "pointers s = held handle_of (st_ptrs s Promises) + held handle_of (st_ptrs s Futures)"

text \<open>
  The counts are those of the pointers in objects and of the pointers \<open>X\<close> in temporaries; a state exists while there is
  one, and the others have been destroyed once each.
\<close>

definition counted :: "nat multiset \<Rightarrow> 'a shared_store \<Rightarrow> bool" where
  "counted X s \<longleftrightarrow> (\<forall>h. st_count s h = count (pointers s + X) h) \<and> dom (st_cells s) = set_mset (pointers s + X) \<and>
     dom (st_cells s) \<subseteq> {..<st_next s} \<and> distinct (st_destroyed s) \<and> set (st_destroyed s) = {..<st_next s} - dom (st_cells s)"

lemma pointers_set_ptr:
  assumes "i < length (st_ptrs s sd)"
  shows "pointers (set_ptr sd i x s) + handle_of (st_ptrs s sd ! i) = pointers s + handle_of x"
  using held_update [OF assms, of handle_of x] by (cases sd) (simp_all add: pointers_def set_ptr_def ac_simps)

lemma pointers_add_ptr: "pointers (add_ptr sd p s) = pointers s + handle_of (Some p)"
  by (cases sd) (simp_all add: pointers_def add_ptr_def ac_simps)

lemma set_ptr_fields [simp]: "st_count (set_ptr sd i x s) = st_count s" "st_cells (set_ptr sd i x s) = st_cells s"
    "st_next (set_ptr sd i x s) = st_next s" "st_destroyed (set_ptr sd i x s) = st_destroyed s"
    "st_ptrs (set_ptr sd i x s) sd = (st_ptrs s sd)[i := x]"
  by (simp_all add: set_ptr_def)

lemma add_ptr_fields [simp]: "st_count (add_ptr sd p s) = st_count s" "st_cells (add_ptr sd p s) = st_cells s"
    "st_next (add_ptr sd p s) = st_next s" "st_destroyed (add_ptr sd p s) = st_destroyed s"
  by (simp_all add: add_ptr_def)

lemma counted_pointers:
  assumes "counted X s" "pointers s' + Y = pointers s + X" "st_count s' = st_count s" "dom (st_cells s') = dom (st_cells s)"
    "st_next s' = st_next s" "st_destroyed s' = st_destroyed s"
  shows "counted Y s'"
  using assms(1) unfolding counted_def assms(2-6) .

text \<open>Taking a pointer out of an object, and storing one in an object that has none.\<close>

lemma counted_take:
  assumes "counted X s" "i < length (st_ptrs s sd)" "st_ptrs s sd ! i = Some p" "handle_of x = {#}"
  shows "counted (X + handle_of (Some p)) (set_ptr sd i x s)"
  by (rule counted_pointers [OF assms(1)]) (use pointers_set_ptr [OF assms(2), of x] assms(3,4) in \<open>simp_all add: ac_simps\<close>)

lemma counted_put:
  assumes "counted (X + handle_of (Some p)) s" "i < length (st_ptrs s sd)" "handle_of (st_ptrs s sd ! i) = {#}"
  shows "counted X (set_ptr sd i (Some p) s)"
  by (rule counted_pointers [OF assms(1)]) (use pointers_set_ptr [OF assms(2), of "Some p"] assms(3) in \<open>simp_all add: ac_simps\<close>)

lemma counted_add:
  assumes "counted (X + handle_of (Some p)) s"
  shows "counted X (add_ptr sd p s)"
  by (rule counted_pointers [OF assms]) (simp_all add: pointers_add_ptr ac_simps)

lemma counted_copy:
  assumes "counted X s" "\<And>h. p = Some h \<Longrightarrow> h \<in># pointers s"
  shows "counted (X + handle_of (Some p)) (ptr_copy p s)"
proof (cases p)
  case (Some h)
  have "pointers (ptr_copy p s) = pointers s" by (simp add: pointers_def ptr_copy_def Some)
  with assms Some show ?thesis by (auto simp: counted_def ptr_copy_def)
qed (use assms in \<open>simp add: ptr_copy_def\<close>)

lemma counted_drop:
  assumes c: "counted (X + handle_of (Some p)) s"
  shows "\<exists>s'. ptr_drop p s = Inr s' \<and> counted X s' \<and> st_ptrs s' = st_ptrs s"
proof (cases p)
  case None
  with c show ?thesis by (simp add: ptr_drop_def)
next
  case (Some h)
  let ?n = "st_count s h - 1"
  have n: "st_count s h = Suc (count (pointers s + X) h)" and m: "h \<in> dom (st_cells s)" "h < st_next s"
    using c Some by (auto simp: counted_def)
  define s' where "s' = (if ?n = 0
      then s\<lparr>st_count := (st_count s)(h := ?n), st_cells := (st_cells s)(h := None), st_destroyed := st_destroyed s @ [h]\<rparr>
      else s\<lparr>st_count := (st_count s)(h := ?n)\<rparr>)"
  have d: "ptr_drop p s = Inr s'" using Some m(1) by (auto simp: ptr_drop_def s'_def Let_def)
  have p: "pointers s' = pointers s" "st_ptrs s' = st_ptrs s" by (simp_all add: s'_def pointers_def)
  have k: "st_count s' x = count (pointers s' + X) x" for x
    using c Some n by (auto simp: s'_def p counted_def pointers_def)
  have cells: "dom (st_cells s) = insert h (set_mset (pointers s + X))" using c Some by (auto simp: counted_def)
  have "h \<in># pointers s + X \<longleftrightarrow> ?n \<noteq> 0" using n by (simp add: not_in_iff [symmetric] count_eq_zero_iff)
  then have "dom (st_cells s') = set_mset (pointers s' + X)" using cells unfolding p by (auto simp: s'_def)
  moreover have "distinct (st_destroyed s') \<and> set (st_destroyed s') = {..<st_next s'} - dom (st_cells s')" "dom (st_cells s') \<subseteq> {..<st_next s'}"
    using c m by (auto simp: s'_def counted_def)
  ultimately have "counted X s'" using k by (simp add: counted_def)
  with d p(2) show ?thesis by blast
qed

subsection \<open>Clients\<close>

text \<open>
  A client uses objects that exist, dereferences only those that were not moved from, and sets a promise once.
\<close>

definition sh_alive :: "'a shared_store \<Rightarrow> side \<Rightarrow> nat \<Rightarrow> bool" where
  "sh_alive s sd i \<longleftrightarrow> i < length (st_ptrs s sd) \<and> st_ptrs s sd ! i \<noteq> None"

definition sh_refers :: "'a shared_store \<Rightarrow> side \<Rightarrow> nat \<Rightarrow> nat \<Rightarrow> bool" where
  "sh_refers s sd i h \<longleftrightarrow> i < length (st_ptrs s sd) \<and> st_ptrs s sd ! i = Some (Some h)"

definition shared_allowed :: "'a shared_op \<Rightarrow> 'a shared_store \<Rightarrow> bool" where
  "shared_allowed oper s =
     (case oper of
        ShNew \<Rightarrow> True
      | ShGetFuture i \<Rightarrow> sh_alive s Promises i
      | ShMove sd j \<Rightarrow> sh_alive s sd j
      | ShAssign sd i j \<Rightarrow> sh_alive s sd i \<and> sh_alive s sd j
      | ShDestroy sd i \<Rightarrow> sh_alive s sd i
      | ShSet i v \<Rightarrow> \<exists>h. sh_refers s Promises i h \<and> st_cells s h = Some Unset
      | ShReady i \<Rightarrow> \<exists>h. sh_refers s Futures i h
      | ShGet i \<Rightarrow> \<exists>h. sh_refers s Futures i h)"

lemma Ex_refers: "Ex (sh_refers s sd i) \<longleftrightarrow> i < length (st_ptrs s sd) \<and> (\<exists>h. st_ptrs s sd ! i = Some (Some h))"
  unfolding sh_refers_def by blast

lemma sh_aliveE:
  assumes "sh_alive s sd i"
  obtains p where "i < length (st_ptrs s sd)" "st_ptrs s sd ! i = Some p"
  using assms by (auto simp: sh_alive_def)

lemma with_ptr_Some: "i < length (st_ptrs s sd) \<Longrightarrow> st_ptrs s sd ! i = Some p \<Longrightarrow> with_ptr sd i s m = m p"
  by (simp add: with_ptr_def)

lemma refers_pointer: "sh_refers s sd i h \<Longrightarrow> h \<in># pointers s"
  using held_member [of i "st_ptrs s sd" h handle_of] by (cases sd) (auto simp: sh_refers_def pointers_def)

lemma refers_cell:
  assumes "counted X s" "sh_refers s sd i h"
  obtains c where "st_cells s h = Some c"
proof -
  have "h \<in> dom (st_cells s)" using assms(1) refers_pointer [OF assms(2)] by (simp add: counted_def)
  with that show thesis by auto
qed

lemma with_ptr_refers: "sh_refers s sd i h \<Longrightarrow> with_ptr sd i s m = m (Some h)"
  by (simp add: sh_refers_def with_ptr_Some)

lemma counted_cell:
  assumes "counted X s" "st_cells s h = Some c"
  shows "counted X (s\<lparr>st_cells := (st_cells s)(h \<mapsto> c'), st_got := g\<rparr>)" "counted X (s\<lparr>st_cells := (st_cells s)(h \<mapsto> c')\<rparr>)"
  by (rule counted_pointers [OF assms(1)]; use assms(2) in \<open>auto simp: pointers_def\<close>)+

lemma promise_new_counted:
  assumes "counted {#} s"
  shows "counted {#} (promise_new s)"
proof -
  let ?h = "st_next s"
  let ?s = "s\<lparr>st_count := (st_count s)(?h := 1), st_cells := (st_cells s)(?h \<mapsto> Unset), st_next := Suc ?h\<rparr>"
  have f: "?h \<notin># pointers s" using assms by (auto simp: counted_def)
  have p: "pointers ?s = pointers s" by (simp add: pointers_def)
  have "{..<Suc ?h} - insert ?h (dom (st_cells s)) = {..<?h} - dom (st_cells s)" by auto
  then have "counted ({#} + handle_of (Some (Some ?h))) ?s"
    using assms f unfolding counted_def p by (auto simp: lessThan_Suc not_in_iff)
  from counted_add [OF this] show ?thesis by (simp add: promise_new_def Let_def)
qed

lemma shared_assign_counted:
  assumes c: "counted {#} s" and a: "sh_alive s sd i" "sh_alive s sd j"
  shows "\<exists>s'. shared_assign sd i j s = Inr s' \<and> counted {#} s'"
proof -
  from a(2) obtain p where j: "j < length (st_ptrs s sd)" "st_ptrs s sd ! j = Some p" by (rule sh_aliveE)
  define s1 where "s1 = set_ptr sd j (Some None) s"
  have c1: "counted ({#} + handle_of (Some p)) s1" unfolding s1_def by (rule counted_take [OF c j]) simp
  have "sh_alive s1 sd i" using a j(1) by (auto simp: s1_def sh_alive_def nth_list_update)
  then obtain old where i: "i < length (st_ptrs s1 sd)" "st_ptrs s1 sd ! i = Some old" by (rule sh_aliveE)
  have "counted (handle_of (Some old)) (set_ptr sd i (Some p) s1)"
    by (rule counted_pointers [OF c1]) (use pointers_set_ptr [OF i(1), of "Some p"] i(2) in \<open>simp_all add: ac_simps\<close>)
  then have "counted ({#} + handle_of (Some old)) (set_ptr sd i (Some p) s1)" by simp
  from counted_drop [OF this] show ?thesis by (auto simp: shared_assign_def with_ptr_Some [OF j] with_ptr_Some [OF i] Let_def s1_def [symmetric])
qed

lemma shared_apply_ok:
  assumes c: "counted {#} s" and ok: "shared_allowed oper s"
  shows "\<exists>s'. shared_apply oper s = Inr s' \<and> counted {#} s'"
proof (cases oper)
  case ShNew
  with promise_new_counted [OF c] show ?thesis by simp
next
  case (ShGetFuture i)
  with ok have "sh_alive s Promises i" by (simp add: shared_allowed_def)
  then obtain p where i: "i < length (st_ptrs s Promises)" "st_ptrs s Promises ! i = Some p" by (rule sh_aliveE)
  have "h \<in># pointers s" if "p = Some h" for h
    by (rule refers_pointer [of s Promises i]) (use i that in \<open>simp add: sh_refers_def\<close>)
  then have "counted ({#} + handle_of (Some p)) (ptr_copy p s)" by (rule counted_copy [OF c])
  from counted_add [OF this] ShGetFuture show ?thesis by (simp add: promise_getFuture_def with_ptr_Some [OF i])
next
  case (ShMove sd j)
  with ok have "sh_alive s sd j" by (simp add: shared_allowed_def)
  then obtain p where j: "j < length (st_ptrs s sd)" "st_ptrs s sd ! j = Some p" by (rule sh_aliveE)
  have "counted ({#} + handle_of (Some p)) (set_ptr sd j (Some None) s)" by (rule counted_take [OF c j]) simp
  from counted_add [OF this] ShMove show ?thesis by (simp add: shared_move_def with_ptr_Some [OF j])
next
  case (ShAssign sd i j)
  with ok shared_assign_counted [OF c] show ?thesis by (simp add: shared_allowed_def)
next
  case (ShDestroy sd i)
  with ok have "sh_alive s sd i" by (simp add: shared_allowed_def)
  then obtain p where i: "i < length (st_ptrs s sd)" "st_ptrs s sd ! i = Some p" by (rule sh_aliveE)
  have "counted ({#} + handle_of (Some p)) (set_ptr sd i None s)" by (rule counted_take [OF c i]) simp
  from counted_drop [OF this] ShDestroy show ?thesis by (auto simp: shared_destroy_def with_ptr_Some [OF i])
next
  case (ShSet i v)
  with ok obtain h where h: "sh_refers s Promises i h" "st_cells s h = Some Unset" by (auto simp: shared_allowed_def)
  with ShSet counted_cell(2) [OF c h(2)] show ?thesis by (simp add: promise_set_def with_cell_def with_ptr_refers)
next
  case (ShReady i)
  with ok obtain h where h: "sh_refers s Futures i h" by (auto simp: shared_allowed_def)
  from refers_cell [OF c h] obtain x where "st_cells s h = Some x" .
  with ShReady c h show ?thesis by (simp add: shared_ready_def with_cell_def with_ptr_refers)
next
  case (ShGet i)
  with ok obtain h where h: "sh_refers s Futures i h" by (auto simp: shared_allowed_def)
  from refers_cell [OF c h] obtain x where x: "st_cells s h = Some x" .
  with ShGet c h counted_cell(1) [OF c x] show ?thesis by (simp add: shared_get_def with_cell_def with_ptr_refers)
qed

interpretation shared: safe_owner shared_apply shared_allowed "counted {#}"
proof unfold_locales
  fix s x s' assume "counted {#} s" "shared_allowed x s" "shared_apply x s = Inr s'"
  with shared_apply_ok [of s x] show "counted {#} s'" by auto
next
  fix s x assume "counted {#} s" "shared_allowed x s"
  with shared_apply_ok [of s x] show "\<exists>s'. shared_apply x s = Inr s'" by blast
qed

lemma counted0: "counted {#} shared_store0"
  by (simp add: counted_def shared_store0_def pointers_def)

subsection \<open>Broken promises\<close>

text \<open>No promise refers to the state \<open>h\<close> any more and its value was not set.\<close>

definition broken :: "nat \<Rightarrow> 'a shared_store \<Rightarrow> bool" where
  "broken h s \<longleftrightarrow> Some (Some h) \<notin> set (st_ptrs s Promises) \<and> h < st_next s \<and> (st_cells s h = None \<or> st_cells s h = Some Unset)"

lemma ptr_drop_broken: "ptr_drop p s = Inr s' \<Longrightarrow> broken h s \<Longrightarrow> broken h s'"
  by (auto simp: ptr_drop_def broken_def Let_def split: option.splits if_splits)

lemma set_ptr_broken: "broken h s \<Longrightarrow> x \<noteq> Some (Some h) \<or> sd = Futures \<Longrightarrow> broken h (set_ptr sd i x s)"
  by (cases sd) (auto simp: broken_def set_ptr_def dest!: set_update_subset_insert [THEN subsetD])

lemma add_ptr_broken: "broken h s \<Longrightarrow> p \<noteq> Some h \<or> sd = Futures \<Longrightarrow> broken h (add_ptr sd p s)"
  by (cases sd) (auto simp: broken_def add_ptr_def)

lemma with_ptr_Inr:
  assumes "with_ptr sd i s m = Inr y"
  obtains p where "Some p \<in> set (st_ptrs s sd)" "m p = Inr y"
  using assms by (auto simp: with_ptr_def split: if_splits option.splits) (metis nth_mem)

lemma broken_pointer: "broken h s \<Longrightarrow> Some p \<in> set (st_ptrs s sd) \<Longrightarrow> p \<noteq> Some h \<or> sd = Futures"
  by (cases sd) (auto simp: broken_def)

lemma broken_apply:
  assumes b: "broken h s" and r: "shared_apply oper s = Inr s'"
  shows "broken h s'"
proof (cases oper)
  case ShNew
  with b r show ?thesis by (auto simp: promise_new_def broken_def add_ptr_def Let_def)
next
  case (ShGetFuture i)
  with r obtain p where "s' = add_ptr Futures p (ptr_copy p s)" by (auto simp: promise_getFuture_def elim: with_ptr_Inr)
  moreover have "broken h (ptr_copy p s)" using b by (auto simp: broken_def ptr_copy_def split: option.splits)
  ultimately show ?thesis by (simp add: add_ptr_broken)
next
  case (ShMove sd j)
  with r obtain p where "Some p \<in> set (st_ptrs s sd)" "s' = add_ptr sd p (set_ptr sd j (Some None) s)"
    by (auto simp: shared_move_def elim: with_ptr_Inr)
  with b show ?thesis by (auto intro!: add_ptr_broken set_ptr_broken dest: broken_pointer)
next
  case (ShAssign sd i j)
  with r obtain p old where "Some p \<in> set (st_ptrs s sd)" "ptr_drop old (set_ptr sd i (Some p) (set_ptr sd j (Some None) s)) = Inr s'"
    by (auto simp: shared_assign_def Let_def elim!: with_ptr_Inr)
  moreover from this(1) b have "broken h (set_ptr sd i (Some p) (set_ptr sd j (Some None) s))"
    by (auto intro!: set_ptr_broken dest: broken_pointer)
  ultimately show ?thesis by (blast intro: ptr_drop_broken)
next
  case (ShDestroy sd i)
  with r obtain p where "ptr_drop p (set_ptr sd i None s) = Inr s'" by (auto simp: shared_destroy_def elim: with_ptr_Inr)
  moreover have "broken h (set_ptr sd i None s)" using b by (auto intro: set_ptr_broken)
  ultimately show ?thesis by (rule ptr_drop_broken)
next
  case (ShSet i v)
  with r obtain p where p: "Some p \<in> set (st_ptrs s Promises)" and
    "with_cell p s (\<lambda>h c. assertE (c = Unset) (Inr (s\<lparr>st_cells := (st_cells s)(h \<mapsto> Holds v)\<rparr>))) = Inr s'"
    by (auto simp: promise_set_def elim: with_ptr_Inr)
  then obtain k where "p = Some k" "s' = s\<lparr>st_cells := (st_cells s)(k \<mapsto> Holds v)\<rparr>"
    by (auto simp: with_cell_def assertE_eq_Inr split: option.splits)
  with b broken_pointer [OF b p] show ?thesis by (auto simp: broken_def)
next
  case (ShReady i)
  with b r show ?thesis by (auto simp: bindE_eq_Inr)
next
  case (ShGet i)
  with r obtain p where "with_cell p s (\<lambda>h c. if c = Unset then Inr s
     else Inr (s\<lparr>st_cells := (st_cells s)(h \<mapsto> MovedFrom), st_got := st_got s @ [(h, c)]\<rparr>)) = Inr s'"
    by (auto simp: shared_get_def elim: with_ptr_Inr)
  with b show ?thesis by (auto simp: with_cell_def broken_def split: option.splits if_splits)
qed

lemma broken_history: "broken h s \<Longrightarrow> foldE shared_apply ops s = Inr s' \<Longrightarrow> broken h s'"
  by (induction ops arbitrary: s) (auto simp: bindE_eq_Inr intro: broken_apply)

text \<open>A value can be taken once: the second \<^verbatim>\<open>get\<close> does not wait, and returns an object that was moved from.\<close>

lemma get_twice:
  assumes "sh_refers s Futures i h" "st_cells s h = Some (Holds v)"
  shows "\<exists>s'. foldE shared_apply [ShGet i, ShGet i] s = Inr s' \<and> st_got s' = st_got s @ [(h, Holds v), (h, MovedFrom)]"
  using assms by (auto simp: shared_get_def with_ptr_def with_cell_def sh_refers_def)

text \<open>
  No history in which the clients use objects that exist accesses a state that was destroyed; a state, with its event file
  descriptor, is destroyed once, when the last object that refers to it is gone.
\<close>

lemma shared_lifetimes:
  assumes "admissible shared_apply shared_allowed ops shared_store0"
  shows "\<exists>s. foldE shared_apply ops shared_store0 = Inr s \<and> dom (st_cells s) = set_mset (pointers s) \<and>
    distinct (st_destroyed s) \<and> set (st_destroyed s) = {..<st_next s} - set_mset (pointers s)"
  using shared.history_safe [OF counted0 assms] by (auto simp: counted_def)

subsection \<open>What a state delivers\<close>

text \<open>The results of the calls of \<^verbatim>\<open>get\<close> on futures of the state \<open>h\<close>, in their order.\<close>

definition taken :: "nat \<Rightarrow> 'a shared_store \<Rightarrow> 'a cell list" where
  "taken h s = map snd (filter (\<lambda>x. fst x = h) (st_got s))"

lemma apply_allowed:
  assumes "shared_apply oper s = Inr s'"
  shows "shared_allowed oper s"
proof (cases oper)
  case (ShAssign sd i j)
  with assms show ?thesis
    by (auto simp: shared_allowed_def sh_alive_def shared_assign_def with_ptr_def Let_def nth_list_update split: if_splits option.splits)
qed (use assms in \<open>auto simp: shared_allowed_def sh_alive_def sh_refers_def promise_getFuture_def shared_move_def shared_destroy_def
      promise_set_def shared_ready_def shared_get_def with_ptr_def with_cell_def assertE_eq_Inr bindE_eq_Inr split: if_splits option.splits\<close>)

lemma counted_apply: "counted {#} s \<Longrightarrow> shared_apply oper s = Inr s' \<Longrightarrow> counted {#} s'"
  using shared.apply_keeps apply_allowed by blast

lemma counted_run: "counted {#} s \<Longrightarrow> foldE shared_apply ops s = Inr s' \<Longrightarrow> counted {#} s'"
  by (induction ops arbitrary: s) (auto simp: bindE_eq_Inr intro: counted_apply)

text \<open>An operation leaves a state as it is, or destroys it, or sets its value, or takes it.\<close>

definition cell_kept :: "nat \<Rightarrow> 'a shared_store \<Rightarrow> 'a shared_store \<Rightarrow> bool" where
  "cell_kept h s s' \<longleftrightarrow> st_next s \<le> st_next s' \<and> st_got s' = st_got s \<and> (st_cells s' h = st_cells s h \<or> st_cells s' h = None)"

lemma cell_kept_ptr:
  "cell_kept h s (set_ptr sd i x s)" "cell_kept h s (add_ptr sd p s)" "cell_kept h s (ptr_copy p s)"
  by (simp_all add: cell_kept_def set_ptr_def add_ptr_def ptr_copy_def split: option.splits)

lemma cell_kept_drop: "ptr_drop p s = Inr s' \<Longrightarrow> cell_kept h s s'"
  by (auto simp: cell_kept_def ptr_drop_def Let_def split: option.splits if_splits)

lemma cell_kept_trans: "cell_kept h s s1 \<Longrightarrow> cell_kept h s1 s2 \<Longrightarrow> cell_kept h s s2"
  by (auto simp: cell_kept_def)

lemma cell_kept_apply:
  assumes "h < st_next s \<or> oper \<noteq> ShNew" "shared_apply oper s = Inr s'" "\<forall>i v. oper \<noteq> ShSet i v" "\<forall>i. oper \<noteq> ShGet i"
  shows "cell_kept h s s'"
proof (cases oper)
  case ShNew
  with assms(1,2) show ?thesis by (auto simp: promise_new_def cell_kept_def add_ptr_def Let_def)
next
  case (ShGetFuture i)
  with assms(2) show ?thesis by (auto simp: promise_getFuture_def elim!: with_ptr_Inr intro: cell_kept_trans cell_kept_ptr)
next
  case (ShMove sd j)
  with assms(2) show ?thesis by (auto simp: shared_move_def elim!: with_ptr_Inr intro: cell_kept_trans cell_kept_ptr)
next
  case (ShAssign sd i j)
  with assms(2) show ?thesis
    by (auto simp: shared_assign_def Let_def elim!: with_ptr_Inr intro: cell_kept_trans [OF cell_kept_trans [OF cell_kept_ptr(1) cell_kept_ptr(1)]] cell_kept_drop)
next
  case (ShDestroy sd i)
  with assms(2) show ?thesis
    by (auto simp: shared_destroy_def elim!: with_ptr_Inr intro: cell_kept_trans [OF cell_kept_ptr(1)] cell_kept_drop)
next
  case (ShReady i)
  with assms(2) show ?thesis by (auto simp: bindE_eq_Inr cell_kept_def)
qed (use assms in auto)

lemma promise_set_Inr:
  assumes "promise_set i v s = Inr s'"
  obtains k where "sh_refers s Promises i k" "st_cells s k = Some Unset" "s' = s\<lparr>st_cells := (st_cells s)(k \<mapsto> Holds v)\<rparr>"
  using assms by (auto simp: promise_set_def with_ptr_def with_cell_def sh_refers_def assertE_eq_Inr split: if_splits option.splits)

lemma with_cell_Inr:
  assumes "with_cell p s m = Inr y"
  obtains k x where "st_cells s k = Some x" "m k x = Inr y"
  using assms by (auto simp: with_cell_def split: option.splits)

lemma shared_get_Inr:
  assumes "shared_get i s = Inr s'"
  obtains "s' = s" | k x where "st_cells s k = Some x" "x \<noteq> Unset"
    "s' = s\<lparr>st_cells := (st_cells s)(k \<mapsto> MovedFrom), st_got := st_got s @ [(k, x)]\<rparr>"
proof -
  from assms obtain p where "with_cell p s (\<lambda>h c. if c = Unset then Inr s
     else Inr (s\<lparr>st_cells := (st_cells s)(h \<mapsto> MovedFrom), st_got := st_got s @ [(h, c)]\<rparr>)) = Inr s'"
    by (auto simp: shared_get_def elim: with_ptr_Inr)
  then show thesis
  proof (rule with_cell_Inr)
    fix k x
    assume k: "st_cells s k = Some x" and
      s': "(if x = Unset then Inr s else Inr (s\<lparr>st_cells := (st_cells s)(k \<mapsto> MovedFrom), st_got := st_got s @ [(k, x)]\<rparr>)) = Inr s'"
    show thesis
    proof (cases "x = Unset")
      case True
      with s' have "s' = s" by simp
      then show thesis by (rule that(1))
    next
      case False
      with s' have "s' = s\<lparr>st_cells := (st_cells s)(k \<mapsto> MovedFrom), st_got := st_got s @ [(k, x)]\<rparr>" by simp
      with k False show thesis by (rule that(2))
    qed
  qed
qed

text \<open>A value that is there has not been taken or is taken by the first \<^verbatim>\<open>get\<close>; a state without a value has delivered nothing.\<close>

definition fresh_cells :: "'a shared_store \<Rightarrow> bool" where
  "fresh_cells s \<longleftrightarrow> (\<forall>h. st_next s \<le> h \<or> st_cells s h = Some Unset \<longrightarrow> taken h s = [])"

definition delivering :: "nat \<Rightarrow> 'a \<Rightarrow> 'a shared_store \<Rightarrow> bool" where
  "delivering h v s \<longleftrightarrow> h < st_next s \<and>
     (taken h s = [] \<and> st_cells s h \<in> {Some (Holds v), None} \<or>
      (\<exists>n. taken h s = Holds v # replicate n MovedFrom) \<and> st_cells s h \<in> {Some MovedFrom, None})"

lemma fresh_cells_apply:
  assumes c: "counted {#} s" and f: "fresh_cells s" and r: "shared_apply oper s = Inr s'"
  shows "fresh_cells s'"
proof -
  have "taken h s' = []" if h: "st_next s' \<le> h \<or> st_cells s' h = Some Unset" for h
  proof (cases oper)
    case (ShSet i v)
    with r h f show ?thesis by (auto elim!: promise_set_Inr simp: fresh_cells_def taken_def split: if_splits)
  next
    case (ShGet i)
    with r have "shared_get i s = Inr s'" by simp
    then show ?thesis
    proof (cases rule: shared_get_Inr)
      case (2 k x)
      have "k < st_next s" using c 2(1) by (auto simp: counted_def)
      with 2 h f show ?thesis by (auto simp: fresh_cells_def taken_def split: if_splits)
    qed (use h f in \<open>auto simp: fresh_cells_def\<close>)
  next
    case ShNew
    with r h f show ?thesis by (auto simp: promise_new_def fresh_cells_def taken_def add_ptr_def Let_def split: if_splits)
  qed (use cell_kept_apply [of h s oper s'] r h f in \<open>auto simp: fresh_cells_def cell_kept_def taken_def not_less\<close>)
  then show ?thesis by (simp add: fresh_cells_def)
qed

lemma fresh_cells_run:
  "counted {#} s \<Longrightarrow> fresh_cells s \<Longrightarrow> foldE shared_apply ops s = Inr s' \<Longrightarrow> fresh_cells s'"
  by (induction ops arbitrary: s) (auto simp: bindE_eq_Inr intro: counted_apply fresh_cells_apply)

lemma delivering_apply:
  assumes d: "delivering h v s" and r: "shared_apply oper s = Inr s'"
  shows "delivering h v s'"
proof (cases oper)
  case (ShSet i w)
  with r obtain k where k: "st_cells s k = Some Unset" "s' = s\<lparr>st_cells := (st_cells s)(k \<mapsto> Holds w)\<rparr>" by (auto elim: promise_set_Inr)
  show ?thesis
  proof (cases "k = h")
    case True
    with k d have False by (auto simp: delivering_def)
    then show ?thesis ..
  next
    case False
    with k(2) have "st_cells s' h = st_cells s h" "st_next s' = st_next s" "taken h s' = taken h s" by (simp_all add: taken_def)
    with d show ?thesis by (simp add: delivering_def)
  qed
next
  case (ShGet i)
  with r have "shared_get i s = Inr s'" by simp
  then show ?thesis
  proof (cases rule: shared_get_Inr)
    case (2 k x)
    show ?thesis
    proof (cases "k = h")
      case True
      with 2 d show ?thesis
        by (auto simp: delivering_def taken_def intro: exI [of _ 0] exI [of _ "Suc n" for n] simp flip: replicate_append_same)
    qed (use 2 d in \<open>auto simp: delivering_def taken_def\<close>)
  qed (use d in simp)
qed (use cell_kept_apply [of h s oper s'] r d in \<open>auto simp: delivering_def cell_kept_def taken_def\<close>)

lemma delivering_run: "delivering h v s \<Longrightarrow> foldE shared_apply ops s = Inr s' \<Longrightarrow> delivering h v s'"
  by (induction ops arbitrary: s) (auto simp: bindE_eq_Inr intro: delivering_apply)

text \<open>What the objects of a state whose value was set can do with it.\<close>

lemma delivering_use:
  assumes c: "counted {#} s" and d: "delivering h v s"
  shows "sh_refers s Promises j h \<Longrightarrow> promise_set j w s = Inl AssertionFailed"
    and "sh_refers s Futures k h \<Longrightarrow> shared_ready k s = Inr True"
    and "sh_refers s Futures k h \<Longrightarrow> \<exists>s' n. shared_get k s = Inr s' \<and> taken h s' = Holds v # replicate n MovedFrom"
proof -
  assume r: "sh_refers s Promises j h"
  from refers_cell [OF c r] obtain x where "st_cells s h = Some x" .
  with r d show "promise_set j w s = Inl AssertionFailed"
    by (auto simp: promise_set_def with_ptr_refers with_cell_def delivering_def)
next
  assume r: "sh_refers s Futures k h"
  from refers_cell [OF c r] obtain x where x: "st_cells s h = Some x" .
  with r d show "shared_ready k s = Inr True" by (auto simp: shared_ready_def with_ptr_refers with_cell_def delivering_def)
  from x r d show "\<exists>s' n. shared_get k s = Inr s' \<and> taken h s' = Holds v # replicate n MovedFrom"
    by (auto simp: shared_get_def with_ptr_refers with_cell_def delivering_def taken_def replicate_append_same intro: exI [of _ 0] exI [of _ "Suc n" for n])
qed

subsection \<open>Properties\<close>

text \<open>
  C21: A promise delivers its value, whatever promises and futures are moved, assigned and destroyed by any threads. A promise
  that was not moved from and the future that \<^verbatim>\<open>getFuture\<close> returns share a state, and the promise keeps it. If the value of that
  state was set before, \<^verbatim>\<open>set\<close> fails its assertion. Otherwise it stores the value; and in every continuation in which no call
  was undefined, as long as any future of the state is left, the state is alive, the future is ready, the first \<^verbatim>\<open>get\<close> returns the
  value, every other one an object that was moved from, and no promise of the state can be set again.
\<close>

theorem promise_delivers:
  assumes "foldE shared_apply ops shared_store0 = Inr s" "sh_refers s Promises i h"
  shows "(\<exists>s1. promise_getFuture i s = Inr s1 \<and> sh_refers s1 Promises i h \<and> sh_refers s1 Futures (length (st_ptrs s Futures)) h \<and>
      st_cells s1 = st_cells s) \<and>
    (if st_cells s h = Some Unset
     then \<exists>s1. promise_set i v s = Inr s1 \<and>
       (\<forall>mid s2. foldE shared_apply mid s1 = Inr s2 \<longrightarrow>
          (\<forall>j w. sh_refers s2 Promises j h \<longrightarrow> promise_set j w s2 = Inl AssertionFailed) \<and>
          (\<forall>k. sh_refers s2 Futures k h \<longrightarrow> shared_ready k s2 = Inr True \<and>
             (\<exists>s3 n. shared_get k s2 = Inr s3 \<and> taken h s3 = Holds v # replicate n MovedFrom)))
     else promise_set i v s = Inl AssertionFailed)"
proof -
  note c = counted_run [OF counted0 assms(1)]
  have "fresh_cells (shared_store0 :: 'a shared_store)" by (simp add: fresh_cells_def shared_store0_def taken_def)
  note f = fresh_cells_run [OF counted0 this assms(1)]
  from refers_cell [OF c assms(2)] obtain x where x: "st_cells s h = Some x" .
  have get: "\<exists>s1. promise_getFuture i s = Inr s1 \<and> sh_refers s1 Promises i h \<and> sh_refers s1 Futures (length (st_ptrs s Futures)) h \<and>
      st_cells s1 = st_cells s"
    using assms(2) by (simp add: promise_getFuture_def with_ptr_refers sh_refers_def add_ptr_def ptr_copy_def)
  define s1 where "s1 = s\<lparr>st_cells := (st_cells s)(h \<mapsto> Holds v)\<rparr>"
  have set: "promise_set i v s = (if x = Unset then Inr s1 else Inl AssertionFailed)"
    using assms(2) x by (simp add: promise_set_def with_ptr_refers with_cell_def s1_def)
  have "h < st_next s" using c x by (auto simp: counted_def)
  then have d: "delivering h v s1" if "x = Unset" using f x that by (simp add: delivering_def s1_def fresh_cells_def taken_def)
  have c1: "counted {#} s1" unfolding s1_def by (rule counted_cell(2) [OF c x])
  have "(\<forall>j w. sh_refers s2 Promises j h \<longrightarrow> promise_set j w s2 = Inl AssertionFailed) \<and>
          (\<forall>k. sh_refers s2 Futures k h \<longrightarrow> shared_ready k s2 = Inr True \<and>
             (\<exists>s3 n. shared_get k s2 = Inr s3 \<and> taken h s3 = Holds v # replicate n MovedFrom))"
    if "x = Unset" "foldE shared_apply mid s1 = Inr s2" for mid s2
    using delivering_use [OF counted_run [OF c1 that(2)] delivering_run [OF d [OF that(1)] that(2)]] by blast
  with get set x show ?thesis by auto
qed

lemmas shared_run = shared_store0_def promise_new_def promise_getFuture_def shared_move_def shared_destroy_def promise_set_def
  shared_ready_def shared_get_def add_ptr_def set_ptr_def ptr_copy_def ptr_drop_def with_ptr_def with_cell_def
  shared_allowed_def sh_alive_def sh_refers_def

theorem promise_delivers_witness:
  "\<exists>s s1 s2 s3. foldE shared_apply [ShNew, ShGetFuture 0] shared_store0 = Inr s \<and> promise_set 0 (7 :: int) s = Inr s1 \<and>
     foldE shared_apply [ShMove Futures 0, ShDestroy Promises 0] s1 = Inr s2 \<and> shared_ready 1 s2 = Inr True \<and>
     shared_get 1 s2 = Inr s3 \<and> st_got s3 = [(0, Holds 7)]"
proof -
  have "\<exists>s. foldE shared_apply [ShNew, ShGetFuture 0] shared_store0 = Inr s \<and> sh_refers s Promises 0 0 \<and> st_cells s 0 = Some Unset \<and>
      (\<forall>s1. promise_set 0 (7 :: int) s = Inr s1 \<longrightarrow> (\<exists>s2. foldE shared_apply [ShMove Futures 0, ShDestroy Promises 0] s1 = Inr s2 \<and>
         sh_refers s2 Futures 1 0 \<and> (\<exists>s3. shared_get 1 s2 = Inr s3 \<and> st_got s3 = [(0, Holds 7)])))"
    by (simp add: shared_run)
  then obtain s where s: "foldE shared_apply [ShNew, ShGetFuture 0] shared_store0 = Inr s" "sh_refers s Promises 0 0" "st_cells s 0 = Some Unset"
      "\<forall>s1. promise_set 0 (7 :: int) s = Inr s1 \<longrightarrow> (\<exists>s2. foldE shared_apply [ShMove Futures 0, ShDestroy Promises 0] s1 = Inr s2 \<and>
         sh_refers s2 Futures 1 0 \<and> (\<exists>s3. shared_get 1 s2 = Inr s3 \<and> st_got s3 = [(0, Holds 7)]))" by blast
  from promise_delivers [OF s(1,2), of 7] s(3) obtain s1 where s1: "promise_set 0 7 s = Inr s1"
      "\<forall>mid s2. foldE shared_apply mid s1 = Inr s2 \<longrightarrow> (\<forall>k. sh_refers s2 Futures k 0 \<longrightarrow> shared_ready k s2 = Inr True)" by auto
  from s(4) s1(1) obtain s2 s3 where "foldE shared_apply [ShMove Futures 0, ShDestroy Promises 0] s1 = Inr s2" "sh_refers s2 Futures 1 0"
      "shared_get 1 s2 = Inr s3" "st_got s3 = [(0, Holds 7)]" by blast
  with s(1) s1 show ?thesis by blast
qed

text \<open>
  A promise can be broken without anyone noticing: when the last promise of a state is destroyed before the value was
  set, no later call makes the future ready. The code that waits for it waits for ever.
\<close>

theorem broken_promise_silent:
  assumes "counted {#} s" "foldE shared_apply ops s = Inr s'" and "st_cells s h = Some Unset" "Some (Some h) \<notin> set (st_ptrs s Promises)"
    and "sh_refers s' Futures i h" "st_cells s' h \<noteq> None"
  shows "shared_ready i s' = Inr False"
proof -
  have "broken h s" using assms(1,3,4) by (auto simp: broken_def counted_def)
  from broken_history [OF this assms(2)] assms(6) have "st_cells s' h = Some Unset" by (simp add: broken_def)
  with assms(5) show ?thesis by (simp add: shared_ready_def with_ptr_refers with_cell_def)
qed

theorem broken_promise_silent_witness:
  "\<exists>s :: int shared_store. foldE shared_apply [ShNew, ShGetFuture 0, ShDestroy Promises 0] shared_store0 = Inr s \<and> shared_ready 0 s = Inr False"
proof -
  let ?ops = "[ShNew, ShGetFuture 0, ShDestroy Promises 0] :: int shared_op list"
  have "admissible shared_apply shared_allowed ?ops shared_store0" by (simp add: shared_run)
  from shared.history_safe [OF counted0 this] obtain s where s: "foldE shared_apply ?ops shared_store0 = Inr s" "counted {#} s" by blast
  from s(1) have h: "st_cells s 0 = Some Unset" "Some (Some 0) \<notin> set (st_ptrs s Promises)" "sh_refers s Futures 0 0"
    by (auto simp: shared_run)
  have "foldE shared_apply [] s = Inr s" by simp
  from broken_promise_silent [OF s(2) this h] h(1) s(1) show ?thesis by auto
qed

end
