(* ===== verification/Util.thy ===== *)
theory Util
  imports Aiopp_Prelude
begin

unbundle bit_operations_syntax

text \<open>
  The small helpers: \<^verbatim>\<open>hexDump\<close> of \<^verbatim>\<open>util.cpp\<close> and the logger of \<^verbatim>\<open>log.hpp\<close> and \<^verbatim>\<open>log.cpp\<close>. The system call
  \<^verbatim>\<open>write\<close> is a parameter that transforms the state of the world; its result is ignored by the code.
\<close>

subsection \<open>Hexadecimal dumps\<close>

definition hexChars :: string where
  "hexChars = ''0123456789abcdef''"

primrec hexDump :: "u8 list \<Rightarrow> string" where
  "hexDump [] = ''''"
| "hexDump (byte # data) =
     (let hi = drop_bit 4 (byte AND 0xF0); lo = byte AND 0x0F in
      hexChars ! unat hi # hexChars ! unat lo # hexDump data)"

text \<open>Reading a dump: the value of a digit is its position.\<close>

definition hex_value :: "char \<Rightarrow> nat" where
  "hex_value c = length (takeWhile (\<lambda>d. d \<noteq> c) hexChars)"

fun unhex :: "string \<Rightarrow> u8 list" where
  "unhex (hi # lo # cs) = of_nat (16 * hex_value hi + hex_value lo) # unhex cs"
| "unhex _ = []"

lemma hex_value_nth: "n < 16 \<Longrightarrow> hex_value (hexChars ! n) = n"
proof -
  assume "n < 16"
  moreover have "\<forall>n\<in>set [0..<16]. hex_value (hexChars ! n) = n" by code_simp
  ultimately show ?thesis by simp
qed

lemma byte_bound: "unat (b :: u8) < 256"
  by (rule less_le_trans [OF unsigned_less]) simp

lemma nibbles: "unat (drop_bit 4 (b AND 0xF0) :: u8) = unat b div 16" "unat (b AND 0x0F :: u8) = unat b mod 16"
proof -
  have m: "(0x0F :: u8) = mask 4" by (simp add: mask_eq_exp_minus_1)
  have "unat (b AND 0x0F) = unat (take_bit 4 b)" unfolding m by (simp only: take_bit_eq_mask)
  then show "unat (b AND 0x0F :: u8) = unat b mod 16" by (simp add: take_bit_eq_mod unat_mod_distrib)
  have "drop_bit 4 (0xF0 :: u8) = mask 4" by (simp add: mask_eq_exp_minus_1 drop_bit_eq_div)
  then have "drop_bit 4 (b AND 0xF0) = take_bit 4 (drop_bit 4 b)" by (simp add: take_bit_eq_mask)
  then have "unat (drop_bit 4 (b AND 0xF0)) = unat b div 16 mod 16"
    by (simp add: take_bit_eq_mod drop_bit_eq_div unat_mod_distrib unat_div_distrib)
  moreover have "unat b < 256" by (rule byte_bound)
  ultimately show "unat (drop_bit 4 (b AND 0xF0) :: u8) = unat b div 16" by simp
qed

text \<open>
  A hexadecimal dump determines the data: it has two characters per byte, all of them hexadecimal digits, and
  reading them back gives the bytes.
\<close>

theorem hexDump_roundtrip:
  "unhex (hexDump data) = data \<and> length (hexDump data) = 2 * length data \<and> set (hexDump data) \<subseteq> set hexChars"
proof (induction data)
  case (Cons b data)
  have b: "unat b div 16 < 16" "unat b mod 16 < 16" using byte_bound [of b] by simp_all
  have "length hexChars = 16" by (simp add: hexChars_def)
  moreover have "unhex (hexDump (b # data)) = of_nat (16 * (unat b div 16) + unat b mod 16) # unhex (hexDump data)"
    unfolding hexDump.simps Let_def nibbles unhex.simps using b by (simp only: hex_value_nth)
  moreover have "16 * (unat b div 16) + unat b mod 16 = unat b" by simp
  ultimately show ?case using b Cons by (simp add: nibbles Let_def del: unhex.simps)
qed simp

subsection \<open>The logger\<close>

datatype log_severity = Debug | Info | Warning | Error | Fatal

fun toString_severity :: "log_severity \<Rightarrow> string" where
  "toString_severity Debug = ''DEBUG''"
| "toString_severity Info = ''INFO''"
| "toString_severity Warning = ''WARNING''"
| "toString_severity Error = ''ERROR''"
| "toString_severity Fatal = ''FATAL''"

type_synonym 'w write_call = "int \<Rightarrow> string \<Rightarrow> 'w \<Rightarrow> 'w"

definition newline :: string where
  "newline = [CHR 0x0A]"

definition FdLogger_log :: "'w write_call \<Rightarrow> int \<Rightarrow> log_severity \<Rightarrow> string \<Rightarrow> 'w \<Rightarrow> 'w" where
  "FdLogger_log write fd severity message w =
     (let w = write fd ''['' w; w = write fd (toString_severity severity) w; w = write fd ''] '' w;
          w = write fd message w
      in if 0 < length message \<and> last message \<noteq> CHR 0x0A then write fd newline w else w)"

text \<open>
  The storage of the logger is an owning pointer: \<^verbatim>\<open>setLogger\<close> replaces it, \<^verbatim>\<open>getLogger\<close> dereferences it, also when a null
  pointer was set.
\<close>

type_synonym 'w logger = "log_severity \<Rightarrow> string \<Rightarrow> 'w \<Rightarrow> 'w"

definition loggerStorage :: "'w write_call \<Rightarrow> 'w logger option" where
  "loggerStorage write = Some (FdLogger_log write 2)"

definition setLogger :: "'w logger option \<Rightarrow> 'w logger option \<Rightarrow> 'w logger option" where
  "setLogger logger storage = logger"

definition getLogger :: "'w logger option \<Rightarrow> 'w logger outcome" where
  "getLogger storage = (case storage of None \<Rightarrow> Inl UndefinedBehaviour | Some logger \<Rightarrow> Inr logger)"

text \<open>What a sequence of calls of \<^verbatim>\<open>setLogger\<close> leaves to use: the last logger that was set.\<close>

lemma getLogger_last:
  "getLogger (fold setLogger ls (loggerStorage write)) =
     (if ls = [] then Inr (FdLogger_log write 2) else case last ls of None \<Rightarrow> Inl UndefinedBehaviour | Some l \<Rightarrow> Inr l)"
  by (induction ls rule: rev_induct) (simp_all add: getLogger_def loggerStorage_def setLogger_def)

text \<open>The message of an error number is a table \<open>message\<close> of the library.\<close>

definition errnoToString :: "(int \<Rightarrow> string) \<Rightarrow> int \<Rightarrow> string" where
  "errnoToString message err = message err"

text \<open>
  The adapter of the examples to \<^verbatim>\<open>spdlog\<close>, whose levels and whose function \<^verbatim>\<open>log\<close> are parameters.
\<close>

record ('l, 'w) spdlog_api =
  level_debug :: 'l
  level_info :: 'l
  level_warn :: 'l
  level_err :: 'l
  level_critical :: 'l
  spdlog_log :: "'l \<Rightarrow> string \<Rightarrow> 'w \<Rightarrow> 'w"

fun mapSeverity :: "('l, 'w) spdlog_api \<Rightarrow> log_severity \<Rightarrow> 'l" where
  "mapSeverity L Debug = level_debug L"
| "mapSeverity L Info = level_info L"
| "mapSeverity L Warning = level_warn L"
| "mapSeverity L Error = level_err L"
| "mapSeverity L Fatal = level_critical L"

definition SpdLogger_log :: "('l, 'w) spdlog_api \<Rightarrow> 'w logger" where
  "SpdLogger_log L severity message w = spdlog_log L (mapSeverity L severity) message w"

lemma mapSeverity_distinct:
  assumes "distinct [level_debug L, level_info L, level_warn L, level_err L, level_critical L]"
  shows "mapSeverity L a = mapSeverity L b \<longleftrightarrow> a = b"
  using assms by (cases a; cases b) auto

text \<open>A file that takes everything that is written to it.\<close>

definition append_write :: "string write_call" where
  "append_write fd s w = w @ s"

fun lines_of :: "(log_severity \<times> string) list \<Rightarrow> string" where
  "lines_of [] = ''''"
| "lines_of ((sev, msg) # ms) =
     ''['' @ toString_severity sev @ ''] '' @ msg @ (if last msg = CHR 0x0A then [] else newline) @ lines_of ms"

text \<open>
  Every message that is not empty becomes one terminated line, whether or not it ends with a newline itself.
\<close>

lemma log_lines:
  "\<forall>(sev, msg)\<in>set ms. msg \<noteq> [] \<Longrightarrow> fold (\<lambda>(sev, msg). FdLogger_log append_write fd sev msg) ms w = w @ lines_of ms"
  by (induction ms arbitrary: w) (auto simp: FdLogger_log_def append_write_def Let_def)

text \<open>An empty message is not terminated: the next one continues its line.\<close>

lemma log_empty: "FdLogger_log append_write fd sev [] w = w @ ''['' @ toString_severity sev @ ''] ''"
  by (simp add: FdLogger_log_def append_write_def)

end
