(* ===== verification/Spec2Isabelle.thy ===== *)
theory Spec2Isabelle
  imports SlotMap MpscQueue Fd Wait Task Callable PoolTasks Sessions Programs Progress ProxyData SharedState Util
begin

text \<open>
  A verification development for \<^bold>\<open>aiopp\<close>, a C++20 library for asynchronous input and output on io_uring.

  \<^bold>\<open>The program.\<close> An \<^verbatim>\<open>IoQueue\<close> submits operations to the kernel through a ring (\<^verbatim>\<open>IoURing\<close>) and gives out handles.
  A coroutine that awaits a handle is registered as a completer under the id of the operation, in a hash table
  (\<^verbatim>\<open>CompleterMap\<close>); \<^verbatim>\<open>run\<close> takes completions from the ring and resumes the coroutine registered for each. On top of
  it are tasks (\<^verbatim>\<open>Task\<close>, \<^verbatim>\<open>BasicCoroutine\<close>), ways to wait for several of them (\<^verbatim>\<open>WaitAll\<close>, \<^verbatim>\<open>WaitAny\<close>), communication with
  other threads (\<^verbatim>\<open>Channel\<close>, \<^verbatim>\<open>Promise\<close>, \<^verbatim>\<open>Future\<close>, \<^verbatim>\<open>ThreadPool\<close>, \<^verbatim>\<open>MpscQueue\<close>), resources (\<^verbatim>\<open>Fd\<close>, \<^verbatim>\<open>Function\<close>), sockets
  and addresses, two containers (\<^verbatim>\<open>VectorMap\<close>, \<^verbatim>\<open>SlotMap\<close>), and example servers that use all of it.

  \<^bold>\<open>Theories and sources\<close> (paths under \<^verbatim>\<open>src/\<close>).

  \<^item> \<open>Aiopp_Prelude\<close>: fixed-width words, outcomes with the errors \<open>AssertionFailed\<close>, \<open>Aborted\<close> and
    \<open>UndefinedBehaviour\<close>, reachability with the locale \<open>invariant_system\<close>, mutexes, shared lemmas.
  \<^item> \<open>Store_Spec\<close>: the interface of a store as locales, interpreted by the completer map and the slot map.
  \<^item> \<open>CompleterMap\<close> (\<^verbatim>\<open>completermap.hpp\<close>, \<^verbatim>\<open>completermap.cpp\<close>): the open-addressing table with tombstones, its probe
    sequence on 64-bit words; insertion, lookup and removal refine the operations of a finite map, and the probe
    sequence visits every entry.
  \<^item> \<open>VectorMap\<close>, \<open>SlotMap\<close> (\<^verbatim>\<open>vectormap.hpp\<close>, \<^verbatim>\<open>slotmap.hpp\<close>): storage with explicit construction state of each element;
    no sequence of operations touches an unconstructed element, slots are reused oldest first; exactly when
    resizing and emplacing are undefined.
  \<^item> \<open>MpscQueue\<close> (\<^verbatim>\<open>mpscqueue.hpp\<close>): every atomic access is a step of a transition system with any number of producers;
    first-in-first-out order, memory safety, no leak, and that the consumer returns.
  \<^item> \<open>IoURing\<close> (\<^verbatim>\<open>iouring.hpp\<close>, \<^verbatim>\<open>iouring.cpp\<close>): initialisation and all functions that prepare an entry, over a record
    of what liburing and the kernel do; an entry, read with the layout of the kernel, is the request it was made from, except
    for \<^verbatim>\<open>prepareEpollCtl\<close>, which swaps two fields.
  \<^item> \<open>IoQueue\<close> (\<^verbatim>\<open>ioqueue.hpp\<close>, \<^verbatim>\<open>ioqueue.cpp\<close>, \<^verbatim>\<open>ioqueue_impl_iouring.*\<close>): the queue as a record with the heap of
    completers and the awaiters of suspended coroutines; a client coroutine is a tree of library calls (\<open>prog\<close>), where
    \<open>Undefined\<close> stands for undefined behaviour of its own code.
    A completion resumes the right coroutine once; a cancelled operation resumes nobody; nothing dead is accessed.
  \<^item> \<open>Discipline\<close>: a syntactic discipline of clients (every handle awaited at most once, a bound on operations
    between two suspensions) under which the event loop is memory safe, proved by induction over iterations.
  \<^item> \<open>Progress\<close>: for clients that end, \<^verbatim>\<open>run\<close> returns if the kernel keeps answering. The multiset of the suspended coroutines gets smaller with
    every completion of an awaited operation, in the multiset extension of the order of the trees of calls.
  \<^item> \<open>Result\<close> (\<^verbatim>\<open>result.hpp\<close>): the variant of a value and an error, with the access that throws.
  \<^item> \<open>Operations\<close>: the tasks that wrap one operation, with timeouts and message headers; reading an event file
    descriptor, receiving from a channel and waiting for a future as coroutines on the queue.
  \<^item> \<open>Servers\<close> (\<^verbatim>\<open>examples/\<close>): the echo, HTTP, proxy and UDP servers and the coroutines of the channel and resolver
    demonstrations as programs; all but the proxy keep the discipline. The proxy is undefined where it reads the upstream address
    through a dangling reference and where \<^verbatim>\<open>WaitAll\<close> reads its dead closure.
  \<^item> \<open>Programs\<close>: \<^verbatim>\<open>main\<close> of every example, which composes addresses, sockets, queue and coroutines. No \<^verbatim>\<open>main\<close> but that of the
    proxy ends in undefined behaviour; the proxy does at its first connection.
  \<^item> \<open>Descriptors\<close> (\<^verbatim>\<open>proxy-coro.cpp\<close>, \<^verbatim>\<open>echo-tcp.cpp\<close>, \<^verbatim>\<open>echo-tcp-coro.cpp\<close>): which descriptors sessions close, on the model of
    \<^verbatim>\<open>Fd\<close>: the two directions of a proxied connection as a transition system over all interleavings; every descriptor
    is closed once and not used afterwards. The closure of \<^verbatim>\<open>WaitAll\<close> is a parameter (\<open>intact\<close>). The session with callbacks closes its descriptor twice.
  \<^item> \<open>ProxyData\<close>: the transition system with a memory and the replies of the kernel: both directions pass on the data unchanged
    and in order while they interleave, as long as their buffers are disjoint.
  \<^item> \<open>Sessions\<close>: what sessions send and receive, over a memory of bytes. The locale \<open>send_loop\<close> is the contract of the
    loops that send a buffer, interpreted on both; the sessions implement the specification \<open>serves\<close>.
  \<^item> \<open>Wait\<close> (\<^verbatim>\<open>wait.hpp\<close>): \<open>WaitAll\<close> and \<open>WaitAny\<close> against a reference that tracks which awaitables have completed. Their
    helpers are lambdas whose closures are gone after \<^verbatim>\<open>add\<close>: executions with a late completion are undefined, and the theorems
    also say what happens while the storage of the closures still holds the captured pointer (\<open>intact\<close>).
  \<^item> \<open>Task\<close> (\<^verbatim>\<open>task.hpp\<close>, \<^verbatim>\<open>basiccoroutine.hpp\<close>): frames, promises and transfer of control; awaiting a task is running
    its code in place.
  \<^item> \<open>Ownership\<close>: the locales \<open>owner\<close> and \<open>safe_owner\<close> for objects that own a resource, interpreted in \<open>Fd\<close>
    (\<^verbatim>\<open>fd.hpp\<close>, \<^verbatim>\<open>fd.cpp\<close>), \<open>Task\<close>, \<open>Callable\<close> (\<^verbatim>\<open>function.hpp\<close>) and \<open>SharedState\<close>.
  \<^item> \<open>SharedState\<close> (\<^verbatim>\<open>future.hpp\<close>): promises and futures as objects that share a reference counted state; it is destroyed once, with
    its last pointer, and a value that was set reaches the first \<^verbatim>\<open>get\<close> through any moves. A promise that is destroyed before it was set leaves a future that never becomes ready.
  \<^item> \<open>Channel\<close>, \<open>Future\<close>, \<open>ThreadPool\<close> (\<^verbatim>\<open>channel.hpp\<close>, \<^verbatim>\<open>eventfd.*\<close>, \<^verbatim>\<open>future.hpp\<close>, \<^verbatim>\<open>threadpool.*\<close>): transition systems over all
    interleavings; order, absence of lost wakeups as long as no waiting \<^verbatim>\<open>receive\<close> is destroyed, values delivered, and the deadlocks the code has. The threads of the
    demonstration \<^verbatim>\<open>channel.cpp\<close> are a restriction of the channel's steps.
  \<^item> \<open>PoolTasks\<close> (\<^verbatim>\<open>threadpool.hpp\<close>, \<^verbatim>\<open>net.cpp\<close>): the composition of the pool with promises and waiting tasks. That a closure
    is called once follows from the pool: it is queued once, taken by one worker, and left before the worker takes the next.
  \<^item> \<open>Socket\<close> (\<^verbatim>\<open>socket.hpp\<close>, \<^verbatim>\<open>socket.cpp\<close>): addresses and their text, creation of sockets with all error paths.
  \<^item> \<open>Util\<close> (\<^verbatim>\<open>util.cpp\<close>, \<^verbatim>\<open>log.cpp\<close>, \<^verbatim>\<open>spdlogger.cpp\<close>): hexadecimal dumps and the loggers.

  \<^bold>\<open>Conventions.\<close> Failing assertions and undefined behaviour are values of the outcome type, so that safety is the
  statement that they do not occur. The kernel, liburing, the C library and \<^verbatim>\<open>malloc\<close> are parameters; what the code
  relies on is a named hypothesis (\<open>malloc_ok\<close>, \<open>init_ok\<close>, \<open>counter_ok\<close> and so on), each with a concrete instance that
  satisfies it. Reachable states are the inductive predicate \<open>reach\<close>.

  \<^bold>\<open>Bounds.\<close> \<open>run\<close> takes the number of iterations after which the model stops, since the loop need not end; safety
  is proved for every number until 2^64 - 2 operation ids are used up, after which ids repeat. Servers that
  never end take the number of rounds they are unrolled; the theorems hold for every number. The loops of the
  completer map, of \<open>sendAll\<close> and of \<open>sendResponse\<close> are total. That enough iterations of \<open>run\<close> give a result is the theorem of
  \<open>Progress\<close>, for clients whose executions are finite and under the hypothesis \<open>kernel_answers\<close>. \<open>settle\<close> and \<open>drive\<close> of tasks take fuel and are proved to
  end with enough of it.

  \<^bold>\<open>Not modelled.\<close> Log output of the library and of the examples; the texts of error codes; \<^verbatim>\<open>loadFactor\<close>; the overload of
  \<^verbatim>\<open>Channel::receive\<close> with a callback, which does not compile when used; the frames of coroutines whose operation was cancelled with its handler, which are never
  resumed; the memory the kernel writes to after a frame with a buffer is gone; weak memory orders, as every atomic access in
  the sources is sequentially consistent.
\<close>

end
